(* ===== verification/Rust_Prelude.thy ===== *)
theory Rust_Prelude
  imports Main "HOL-Library.Word" "HOL-Library.Sublist"
begin

text \<open>
  The part of the Rust language and of its standard library that the crates of the
  workspace use and that every component of the development shares.

  \<^item> Machine integers are words (\<open>u8\<close>, \<open>u16\<close>, \<open>u32\<close>, \<open>u64\<close>; an \<open>i64\<close> is a 64-bit word read
    with \<^const>\<open>sint\<close>). A \<open>usize\<close> is a \<^typ>\<open>nat\<close>: the target has 64-bit pointers, a length of a
    slice is below \<open>2 ^ 63\<close>, and where the source computes on \<open>usize\<close> with \<open>checked_add\<close> the
    64-bit limit is written out. Plain \<open>+\<close> on \<open>u32\<close> wraps, as in the release profile.
  \<^item> A call either returns \<open>Ok\<close>, returns \<open>Err\<close> or panics: type \<open>outcome\<close>. Indexing and
    slicing out of range is \<open>Panic\<close>, so that the absence of panics is a theorem.
  \<^item> \<open>to_le_bytes\<close>, \<open>from_le_bytes\<close> and the big-endian variants of the integer types.
\<close>

unbundle bit_operations_syntax

named_theorems outcome_simps \<open>rewriting of outcomes: bind, slices, reads\<close>
named_theorems layout_simps \<open>lengths and offsets of fixed layouts\<close>

type_synonym u8 = "8 word"
type_synonym u16 = "16 word"
type_synonym u32 = "32 word"
type_synonym u64 = "64 word"
type_synonym i64 = "64 word"
type_synonym bytes = "u8 list"

section \<open>Results of calls\<close>

datatype ('a, 'e) outcome = Ok 'a | Err 'e | Panic

text \<open>The \<open>?\<close> operator: go on with the value, or hand the error or the panic to the caller.\<close>

fun and_then :: "('a, 'e) outcome \<Rightarrow> ('a \<Rightarrow> ('b, 'e) outcome) \<Rightarrow> ('b, 'e) outcome" where
  "and_then (Ok x) f = f x"
| "and_then (Err e) f = Err e"
| "and_then Panic f = Panic"

fun map_err :: "('e \<Rightarrow> 'f) \<Rightarrow> ('a, 'e) outcome \<Rightarrow> ('a, 'f) outcome" where
  "map_err g (Ok x) = Ok x"
| "map_err g (Err e) = Err (g e)"
| "map_err g Panic = Panic"

fun ok_or :: "'a option \<Rightarrow> 'e \<Rightarrow> ('a, 'e) outcome" where
  "ok_or (Some x) e = Ok x"
| "ok_or None e = Err e"

lemma and_then_eq_Ok [simp]: "and_then m f = Ok y \<longleftrightarrow> (\<exists>x. m = Ok x \<and> f x = Ok y)"
  by (cases m) auto

lemma and_then_eq_Err: "and_then m f = Err e \<longleftrightarrow> m = Err e \<or> (\<exists>x. m = Ok x \<and> f x = Err e)"
  by (cases m) auto

lemma and_then_eq_Panic: "and_then m f = Panic \<longleftrightarrow> m = Panic \<or> (\<exists>x. m = Ok x \<and> f x = Panic)"
  by (cases m) auto

lemma and_then_noPanic [intro]:
  assumes "m \<noteq> Panic" and "\<And>x. m = Ok x \<Longrightarrow> f x \<noteq> Panic"
  shows "and_then m f \<noteq> Panic"
  using assms by (cases m) auto

lemma and_then_cong [fundef_cong]:
  assumes "m = m'" and "\<And>x. m' = Ok x \<Longrightarrow> f x = f' x"
  shows "and_then m f = and_then m' f'"
  using assms by (cases m') auto

lemma map_err_eq_Ok [simp]: "map_err g m = Ok x \<longleftrightarrow> m = Ok x"
  by (cases m) auto

lemma map_err_eq_Panic [simp]: "map_err g m = Panic \<longleftrightarrow> m = Panic"
  by (cases m) auto

lemma ok_or_eq_Ok [simp]: "ok_or x e = Ok y \<longleftrightarrow> x = Some y"
  by (cases x) auto

lemma ok_or_noPanic [simp]: "ok_or x e \<noteq> Panic"
  by (cases x) auto

section \<open>Slices and fixed-size buffers\<close>

text \<open>\<open>&xs[i..j]\<close>: panics unless \<open>i \<le> j \<le> xs.len()\<close>.\<close>

definition slice :: "'a list \<Rightarrow> nat \<Rightarrow> nat \<Rightarrow> ('a list, 'e) outcome" where
  "slice xs i j = (if i \<le> j \<and> j \<le> length xs then Ok (take (j - i) (drop i xs)) else Panic)"

text \<open>\<open>&xs[i..]\<close>\<close>

definition slice_from :: "'a list \<Rightarrow> nat \<Rightarrow> ('a list, 'e) outcome" where
  "slice_from xs i = (if i \<le> length xs then Ok (drop i xs) else Panic)"

text \<open>\<open>xs[i]\<close>\<close>

definition index :: "'a list \<Rightarrow> nat \<Rightarrow> ('a, 'e) outcome" where
  "index xs i = (if i < length xs then Ok (xs ! i) else Panic)"

text \<open>\<open>buf[i..i + bs.len()].copy_from_slice(&bs)\<close> on a buffer long enough for it.\<close>

definition put :: "nat \<Rightarrow> 'a list \<Rightarrow> 'a list \<Rightarrow> 'a list" where
  "put i bs buf = take i buf @ bs @ drop (i + length bs) buf"

text \<open>\<open>vec.resize(n, x)\<close>\<close>

definition resize :: "nat \<Rightarrow> 'a \<Rightarrow> 'a list \<Rightarrow> 'a list" where
  "resize n x xs = take n xs @ replicate (n - length xs) x"

lemma slice_Ok [outcome_simps]:
  "i \<le> j \<Longrightarrow> j \<le> length xs \<Longrightarrow> slice xs i j = Ok (take (j - i) (drop i xs))"
  by (simp add: slice_def)

lemma slice_eq_Ok:
  "slice xs i j = Ok ys \<longleftrightarrow> i \<le> j \<and> j \<le> length xs \<and> ys = take (j - i) (drop i xs)"
  by (auto simp: slice_def)

lemma slice_noErr [simp]: "slice xs i j \<noteq> Err e"
  by (simp add: slice_def)

lemma slice_eq_Panic: "slice xs i j = Panic \<longleftrightarrow> \<not> (i \<le> j \<and> j \<le> length xs)"
  by (simp add: slice_def)

lemma slice_from_Ok [outcome_simps]: "i \<le> length xs \<Longrightarrow> slice_from xs i = Ok (drop i xs)"
  by (simp add: slice_from_def)

lemma index_Ok [outcome_simps]: "i < length xs \<Longrightarrow> index xs i = Ok (xs ! i)"
  by (simp add: index_def)

lemma length_put [simp]: "i + length bs \<le> length buf \<Longrightarrow> length (put i bs buf) = length buf"
  by (simp add: put_def)

lemma length_resize [simp]: "length (resize n x xs) = n"
  by (simp add: resize_def)

lemma resize_extend: "length xs \<le> n \<Longrightarrow> resize n x xs = xs @ replicate (n - length xs) x"
  by (simp add: resize_def)

text \<open>
  A record written field by field at consecutive offsets of a buffer: the result is the
  concatenation of the fields, whatever the buffer held before.
\<close>

fun put_fields :: "nat \<Rightarrow> 'a list list \<Rightarrow> 'a list \<Rightarrow> 'a list" where
  "put_fields i [] buf = buf"
| "put_fields i (p # ps) buf = put_fields (i + length p) ps (put i p buf)"

lemma put_fields_concat:
  "i + length (concat ps) \<le> length buf \<Longrightarrow>
   put_fields i ps buf = take i buf @ concat ps @ drop (i + length (concat ps)) buf"
  by (induction ps arbitrary: i buf) (auto simp: put_def ac_simps)

lemma put_fields_full:
  "length (concat ps) = length buf \<Longrightarrow> put_fields 0 ps buf = concat ps"
  by (simp add: put_fields_concat)

lemma put_fieldsD:
  assumes "x = put_fields 0 ps buf" and "length (concat ps) = length buf"
  shows "x = concat ps"
  using assms by (simp only: put_fields_full)

text \<open>Consecutive fields of a buffer, read one after the other, are a prefix of it.\<close>

lemma take_join [layout_simps]:
  "m = j \<Longrightarrow> take m xs @ take n (drop j xs) = take (m + n) xs"
  "j = i + m \<Longrightarrow> take m (drop i xs) @ take n (drop j xs) = take (m + n) (drop i xs)"
  "m = j \<Longrightarrow> take m xs @ take n (drop j xs) @ ys = take (m + n) xs @ ys"
  "j = i + m \<Longrightarrow> take m (drop i xs) @ take n (drop j xs) @ ys = take (m + n) (drop i xs) @ ys"
  by (simp_all add: take_add add.commute)

section \<open>Integers as bytes\<close>

fun le_nat :: "bytes \<Rightarrow> nat" where
  "le_nat [] = 0"
| "le_nat (b # bs) = unat b + 256 * le_nat bs"

fun nat_le :: "nat \<Rightarrow> nat \<Rightarrow> bytes" where
  "nat_le 0 v = []"
| "nat_le (Suc n) v = of_nat v # nat_le n (v div 256)"

lemma length_nat_le [simp]: "length (nat_le n v) = n"
  by (induction n arbitrary: v) auto

lemma unat_byte_less: "unat (b :: u8) < 256"
  using unsigned_less [where 'a = nat, of b] by simp

lemma unat_ucast_u8_u32 [simp]: "unat (ucast (b :: u8) :: u32) = unat b"
  using unat_byte_less [of b] by (simp add: unsigned_ucast_eq take_bit_eq_mod)

lemma ucast_u8_u32_inj [simp]: "(ucast (b :: u8) :: u32) = ucast c \<longleftrightarrow> b = c"
  by (simp only: word_unat_eq_iff unat_ucast_u8_u32)

lemma le_nat_less: "le_nat bs < 256 ^ length bs"
proof (induction bs)
  case (Cons b bs)
  then have "256 * le_nat bs + 256 \<le> 256 * 256 ^ length bs" by simp
  with unat_byte_less [of b] show ?case by simp
qed simp

lemma le_nat_nat_le: "le_nat (nat_le n v) = v mod 256 ^ n"
proof (induction n arbitrary: v)
  case (Suc n)
  have "unat (word_of_nat v :: u8) = v mod 256"
    by (simp add: unat_of_nat)
  then show ?case
    using Suc by (simp add: mod_mult2_eq algebra_simps)
qed simp

lemma nat_le_le_nat: "nat_le (length bs) (le_nat bs) = bs"
proof (induction bs)
  case (Cons b bs)
  have "(unat b + 256 * le_nat bs) div 256 = le_nat bs"
    using unat_byte_less [of b] by simp
  moreover have "unat (word_of_nat (unat b + 256 * le_nat bs) :: u8) = unat b"
    by (subst unat_of_nat) (simp add: unat_byte_less)
  then have "(word_of_nat (unat b + 256 * le_nat bs) :: u8) = b"
    by (simp only: word_unat_eq_iff)
  ultimately show ?case using Cons by simp
qed simp

text \<open>\<open>u16::to_le_bytes\<close>, \<open>u32::to_le_bytes\<close>, \<open>u64::to_le_bytes\<close> and their inverses.\<close>

definition u16_to_le :: "u16 \<Rightarrow> bytes" where "u16_to_le w = nat_le 2 (unat w)"
definition u32_to_le :: "u32 \<Rightarrow> bytes" where "u32_to_le w = nat_le 4 (unat w)"
definition u64_to_le :: "u64 \<Rightarrow> bytes" where "u64_to_le w = nat_le 8 (unat w)"
definition u16_from_le :: "bytes \<Rightarrow> u16" where "u16_from_le bs = of_nat (le_nat bs)"
definition u32_from_le :: "bytes \<Rightarrow> u32" where "u32_from_le bs = of_nat (le_nat bs)"
definition u64_from_le :: "bytes \<Rightarrow> u64" where "u64_from_le bs = of_nat (le_nat bs)"

text \<open>\<open>to_be_bytes\<close> and \<open>from_be_bytes\<close>: most significant byte first.\<close>

definition u16_to_be :: "u16 \<Rightarrow> bytes" where "u16_to_be w = rev (u16_to_le w)"
definition u16_from_be :: "bytes \<Rightarrow> u16" where "u16_from_be bs = u16_from_le (rev bs)"
definition u64_to_be :: "u64 \<Rightarrow> bytes" where "u64_to_be w = rev (u64_to_le w)"
definition u64_from_be :: "bytes \<Rightarrow> u64" where "u64_from_be bs = u64_from_le (rev bs)"

lemma length_to_le [simp, layout_simps]:
  "length (u16_to_le a) = 2" "length (u32_to_le b) = 4" "length (u64_to_le c) = 8"
  "length (u16_to_be a) = 2" "length (u64_to_be c) = 8"
  by (simp_all add: u16_to_le_def u32_to_le_def u64_to_le_def u16_to_be_def u64_to_be_def)

lemma from_to_le [simp]:
  "u16_from_le (u16_to_le a) = a" "u32_from_le (u32_to_le b) = b" "u64_from_le (u64_to_le c) = c"
  using unsigned_less [where 'a = nat, of a] unsigned_less [where 'a = nat, of b] unsigned_less [where 'a = nat, of c]
  by (simp_all add: u16_from_le_def u16_to_le_def u32_from_le_def u32_to_le_def
      u64_from_le_def u64_to_le_def le_nat_nat_le)

lemma from_to_be [simp]: "u16_from_be (u16_to_be a) = a" "u64_from_be (u64_to_be c) = c"
  by (simp_all add: u16_from_be_def u16_to_be_def u64_from_be_def u64_to_be_def)

lemma unat_from_le:
  "length bs = 2 \<Longrightarrow> unat (u16_from_le bs) = le_nat bs"
  "length bs = 4 \<Longrightarrow> unat (u32_from_le bs) = le_nat bs"
  "length bs = 8 \<Longrightarrow> unat (u64_from_le bs) = le_nat bs"
  using le_nat_less [of bs]
  by (simp_all add: u16_from_le_def u32_from_le_def u64_from_le_def unat_of_nat)

lemma to_from_le:
  "length bs = 2 \<Longrightarrow> u16_to_le (u16_from_le bs) = bs"
  "length bs = 4 \<Longrightarrow> u32_to_le (u32_from_le bs) = bs"
  "length bs = 8 \<Longrightarrow> u64_to_le (u64_from_le bs) = bs"
  using nat_le_le_nat [of bs]
  by (simp_all add: u16_to_le_def u32_to_le_def u64_to_le_def unat_from_le)

text \<open>Unfoldings that let \<open>simp\<close> evaluate the codecs on numerals.\<close>

lemma nat_le_pos: "0 < n \<Longrightarrow> nat_le n v = of_nat v # nat_le (n - 1) (v div 256)"
  by (cases n) auto

lemma nat_le_eval:
  "nat_le 2 v = [of_nat v, of_nat (v div 256)]"
  "nat_le 4 v = [of_nat v, of_nat (v div 256), of_nat (v div 256 div 256),
     of_nat (v div 256 div 256 div 256)]"
  by (simp_all add: nat_le_pos)

lemmas le_eval = u16_to_le_def u32_to_le_def u16_from_le_def u32_from_le_def nat_le_eval

section \<open>Arithmetic of the standard library\<close>

text \<open>\<open>usize\<close> arithmetic on a 64-bit target.\<close>

definition usize_max :: nat where "usize_max = 2 ^ 64 - 1"

definition checked_add_usize :: "nat \<Rightarrow> nat \<Rightarrow> nat option" where
  "checked_add_usize a b = (if a + b \<le> usize_max then Some (a + b) else None)"

definition saturating_add_usize :: "nat \<Rightarrow> nat \<Rightarrow> nat" where
  "saturating_add_usize a b = min usize_max (a + b)"

definition checked_add_u32 :: "u32 \<Rightarrow> u32 \<Rightarrow> u32 option" where
  "checked_add_u32 a b = (if unat a + unat b < 2 ^ 32 then Some (a + b) else None)"

text \<open>\<open>u32::try_from\<close> of a \<open>usize\<close> or \<open>u64\<close> value, and \<open>n as u32\<close>.\<close>

definition try_u32 :: "nat \<Rightarrow> u32 option" where
  "try_u32 n = (if n < 2 ^ 32 then Some (of_nat n) else None)"

definition as_u32 :: "nat \<Rightarrow> u32" where
  "as_u32 n = of_nat n"

lemma unat_as_u32: "unat (as_u32 n) = n mod 2 ^ 32"
  by (simp add: as_u32_def unat_of_nat)

lemma unat_as_u32_small [simp]: "n < 2 ^ 32 \<Longrightarrow> unat (as_u32 n) = n"
  by (simp add: unat_as_u32)

lemma as_u32_unat [simp]: "as_u32 (unat w) = w"
  by (simp add: as_u32_def)

lemma try_u32_eq_Some: "try_u32 n = Some w \<longleftrightarrow> n < 2 ^ 32 \<and> w = as_u32 n"
  by (auto simp: try_u32_def as_u32_def)

lemma u32_less: "unat (w :: u32) < 4294967296"
  using unsigned_less [where 'a = nat, of w] by simp

lemma u32_usize_add: "n \<le> 2 ^ 63 \<Longrightarrow> checked_add_usize n (unat (w :: u32)) = Some (n + unat w)"
  using u32_less [of w] by (simp add: checked_add_usize_def usize_max_def)

lemma checked_add_u32_eq_Some:
  "checked_add_u32 a b = Some c \<longleftrightarrow> unat a + unat b < 2 ^ 32 \<and> c = a + b"
  by (auto simp: checked_add_u32_def)

lemma unat_checked_add_u32: "checked_add_u32 a b = Some c \<Longrightarrow> unat c = unat a + unat b"
  by (auto simp: checked_add_u32_def unat_word_ariths split: if_splits)

text \<open>\<open>slice.chunks(n)\<close> for a positive \<open>n\<close>: consecutive runs of \<open>n\<close> elements, the last one shorter.\<close>

function chunks :: "nat \<Rightarrow> 'a list \<Rightarrow> 'a list list" where
  "chunks n xs = (if xs = [] \<or> n = 0 then [] else take n xs # chunks n (drop n xs))"
  by pat_completeness auto
termination
  by (relation "measure (\<lambda>(n, xs). length xs)") auto

declare chunks.simps [simp del]

lemma chunks_Nil [simp]: "chunks n [] = []"
  by (simp add: chunks.simps)

lemma chunks_unfold: "xs \<noteq> [] \<Longrightarrow> 0 < n \<Longrightarrow> chunks n xs = take n xs # chunks n (drop n xs)"
  by (simp add: chunks.simps)

lemma concat_chunks: "0 < n \<Longrightarrow> concat (chunks n xs) = xs"
proof (induction n xs rule: chunks.induct)
  case (1 n xs)
  then show ?case by (cases "xs = []") (simp_all add: chunks_unfold)
qed

lemma chunks_length: "c \<in> set (chunks n xs) \<Longrightarrow> c \<noteq> [] \<and> length c \<le> n"
proof (induction n xs rule: chunks.induct)
  case (1 n xs)
  then show ?case by (auto simp: chunks.simps [of n xs] split: if_splits)
qed

end
