(* ===== verification/Byteorder.thy ===== *)
theory Byteorder
  imports Rust_Prelude
begin

text \<open>
  The interface of the \<open>byteorder\<close> crate (\<open>LittleEndian::read_u32\<close> and its kin), which the
  protocol crates call and whose code is not part of the repository. It is a parameter of every
  definition that uses it: a record of the reading and writing functions. The locale
  \<open>little_endian\<close> states the crate's documented contract for \<open>LittleEndian\<close>: on a slice of the
  right length it reads and writes what \<open>from_le_bytes\<close> and \<open>to_le_bytes\<close> of the standard
  library do. The model of these standard functions is an instance.
\<close>

record byteorder =
  read_u16 :: "bytes \<Rightarrow> u16"
  read_u32 :: "bytes \<Rightarrow> u32"
  read_u64 :: "bytes \<Rightarrow> u64"
  write_u16 :: "u16 \<Rightarrow> bytes"
  write_u32 :: "u32 \<Rightarrow> bytes"
  write_u64 :: "u64 \<Rightarrow> bytes"

text \<open>
  \<open>LittleEndian::read_u32(&buf[i..i + 4])\<close> and its variants: the slice expression may panic. The
  \<open>i64\<close> functions of the crate have the two's complement representation of the \<open>u64\<close> ones.
\<close>

definition get_u16 :: "byteorder \<Rightarrow> bytes \<Rightarrow> nat \<Rightarrow> (u16, 'e) outcome" where
  "get_u16 bo buf i = and_then (slice buf i (i + 2)) (\<lambda>s. Ok (read_u16 bo s))"

definition get_u32 :: "byteorder \<Rightarrow> bytes \<Rightarrow> nat \<Rightarrow> (u32, 'e) outcome" where
  "get_u32 bo buf i = and_then (slice buf i (i + 4)) (\<lambda>s. Ok (read_u32 bo s))"

definition get_u64 :: "byteorder \<Rightarrow> bytes \<Rightarrow> nat \<Rightarrow> (u64, 'e) outcome" where
  "get_u64 bo buf i = and_then (slice buf i (i + 8)) (\<lambda>s. Ok (read_u64 bo s))"

lemma get_noErr [simp]: "get_u16 bo buf i \<noteq> Err e" "get_u32 bo buf i \<noteq> Err e" "get_u64 bo buf i \<noteq> Err e"
  by (auto simp: get_u16_def get_u32_def get_u64_def and_then_eq_Err)

lemma get_noPanic:
  "i + 2 \<le> length buf \<Longrightarrow> get_u16 bo buf i \<noteq> Panic"
  "i + 4 \<le> length buf \<Longrightarrow> get_u32 bo buf i \<noteq> Panic"
  "i + 8 \<le> length buf \<Longrightarrow> get_u64 bo buf i \<noteq> Panic"
  by (auto simp: get_u16_def get_u32_def get_u64_def and_then_eq_Panic slice_eq_Panic)

lemma get_u32_eq_Panic: "get_u32 bo buf i = Panic \<longleftrightarrow> length buf < i + 4"
  by (auto simp: get_u32_def and_then_eq_Panic slice_eq_Panic)

locale little_endian =
  fixes bo :: byteorder
  assumes rd_u16: "length bs = 2 \<Longrightarrow> read_u16 bo bs = u16_from_le bs"
    and rd_u32: "length bs = 4 \<Longrightarrow> read_u32 bo bs = u32_from_le bs"
    and rd_u64: "length bs = 8 \<Longrightarrow> read_u64 bo bs = u64_from_le bs"
    and wr_u16: "write_u16 bo a = u16_to_le a"
    and wr_u32: "write_u32 bo b = u32_to_le b"
    and wr_u64: "write_u64 bo c = u64_to_le c"
begin

lemmas wr_simps [simp] = wr_u16 wr_u32 wr_u64

lemma get_u16_at:
  "i + 2 \<le> length buf \<Longrightarrow> get_u16 bo buf i = Ok (u16_from_le (take 2 (drop i buf)))"
  by (simp add: get_u16_def slice_def rd_u16)

lemma get_u32_at:
  "i + 4 \<le> length buf \<Longrightarrow> get_u32 bo buf i = Ok (u32_from_le (take 4 (drop i buf)))"
  by (simp add: get_u32_def slice_def rd_u32)

lemma get_u64_at:
  "i + 8 \<le> length buf \<Longrightarrow> get_u64 bo buf i = Ok (u64_from_le (take 8 (drop i buf)))"
  by (simp add: get_u64_def slice_def rd_u64)

lemmas get_at = get_u16_at get_u32_at get_u64_at

end

definition std_byteorder :: byteorder where
  "std_byteorder = \<lparr>read_u16 = u16_from_le, read_u32 = u32_from_le, read_u64 = u64_from_le,
     write_u16 = u16_to_le, write_u32 = u32_to_le, write_u64 = u64_to_le\<rparr>"

interpretation std_le: little_endian std_byteorder
  by unfold_locales (simp_all add: std_byteorder_def)

text \<open>The fact every witness instantiates.\<close>

lemma std_byteorder_little_endian: "little_endian std_byteorder"
  by (rule std_le.little_endian_axioms)

end
