(* ===== verification/Rust_Str.thy ===== *)
theory Rust_Str
  imports Rust_Prelude
begin

text \<open>
  Strings of the standard library. A \<open>String\<close> or \<open>&str\<close> is the list of its UTF-8 bytes
  (\<open>as_bytes\<close> is the identity, \<open>len\<close> is the length of the list), which is what the protocol code
  puts on the wire. Modelled here: \<open>str::from_utf8\<close>, \<open>String::from_utf8_lossy\<close>, \<open>split\<close>,
  \<open>split_once\<close>, \<open>trim\<close>, \<open>trim_matches\<close>, decimal and hexadecimal formatting and
  \<open>from_str_radix\<close> / \<open>parse\<close> of unsigned integers.
\<close>

type_synonym rstr = bytes

text \<open>String literals of the source.\<close>

definition str :: "string \<Rightarrow> rstr" where
  "str s = map of_char s"

lemma length_str [simp]: "length (str s) = length s"
  by (simp add: str_def)

section \<open>UTF-8\<close>

definition utf8_cont :: "u8 \<Rightarrow> bool" where
  "utf8_cont b \<longleftrightarrow> 0x80 \<le> b \<and> b \<le> 0xBF"

definition utf8_second3 :: "u8 \<Rightarrow> u8 \<Rightarrow> bool" where
  "utf8_second3 b0 b1 \<longleftrightarrow>
     (b0 = 0xE0 \<and> 0xA0 \<le> b1 \<and> b1 \<le> 0xBF) \<or>
     (0xE1 \<le> b0 \<and> b0 \<le> 0xEC \<and> utf8_cont b1) \<or>
     (b0 = 0xED \<and> 0x80 \<le> b1 \<and> b1 \<le> 0x9F) \<or>
     (0xEE \<le> b0 \<and> b0 \<le> 0xEF \<and> utf8_cont b1)"

definition utf8_second4 :: "u8 \<Rightarrow> u8 \<Rightarrow> bool" where
  "utf8_second4 b0 b1 \<longleftrightarrow>
     (b0 = 0xF0 \<and> 0x90 \<le> b1 \<and> b1 \<le> 0xBF) \<or>
     (0xF1 \<le> b0 \<and> b0 \<le> 0xF3 \<and> utf8_cont b1) \<or>
     (b0 = 0xF4 \<and> 0x80 \<le> b1 \<and> b1 \<le> 0x8F)"

definition safe_get :: "bytes \<Rightarrow> nat \<Rightarrow> u8" where
  "safe_get bs i = (if i < length bs then bs ! i else 0)"

text \<open>
  One step of the decoder behind \<open>from_utf8\<close> and \<open>from_utf8_lossy\<close> on a non-empty input: whether a
  character starts here, and the length of the character or of the invalid sequence.
\<close>

definition utf8_step :: "bytes \<Rightarrow> bool \<times> nat" where
  "utf8_step bs =
     (let b0 = safe_get bs 0; b1 = safe_get bs 1; b2 = safe_get bs 2; b3 = safe_get bs 3 in
      if b0 < 0x80 then (True, 1)
      else if 0xC2 \<le> b0 \<and> b0 \<le> 0xDF then (if utf8_cont b1 then (True, 2) else (False, 1))
      else if 0xE0 \<le> b0 \<and> b0 \<le> 0xEF then
        (if utf8_second3 b0 b1 then (if utf8_cont b2 then (True, 3) else (False, 2)) else (False, 1))
      else if 0xF0 \<le> b0 \<and> b0 \<le> 0xF4 then
        (if utf8_second4 b0 b1 then
           (if utf8_cont b2 then (if utf8_cont b3 then (True, 4) else (False, 3)) else (False, 2))
         else (False, 1))
      else (False, 1))"

lemma utf8_step_pos: "0 < snd (utf8_step bs)"
  by (simp add: utf8_step_def Let_def)

function utf8_valid :: "bytes \<Rightarrow> bool" where
  "utf8_valid bs =
     (if bs = [] then True
      else fst (utf8_step bs) \<and> utf8_valid (drop (snd (utf8_step bs)) bs))"
  by pat_completeness auto
termination
  by (relation "measure length") (auto simp: utf8_step_pos)

function from_utf8_lossy :: "bytes \<Rightarrow> rstr" where
  "from_utf8_lossy bs =
     (if bs = [] then []
      else (if fst (utf8_step bs) then take (snd (utf8_step bs)) bs else [0xEF, 0xBF, 0xBD]) @
        from_utf8_lossy (drop (snd (utf8_step bs)) bs))"
  by pat_completeness auto
termination
  by (relation "measure length") (auto simp: utf8_step_pos)

declare utf8_valid.simps [simp del] from_utf8_lossy.simps [simp del]

definition from_utf8 :: "bytes \<Rightarrow> rstr option" where
  "from_utf8 bs = (if utf8_valid bs then Some bs else None)"

lemma utf8_valid_Nil [simp]: "utf8_valid []"
  by (simp add: utf8_valid.simps)

lemma from_utf8_lossy_Nil [simp]: "from_utf8_lossy [] = []"
  by (simp add: from_utf8_lossy.simps)

lemma from_utf8_lossy_valid: "utf8_valid bs \<Longrightarrow> from_utf8_lossy bs = bs"
proof (induction bs rule: utf8_valid.induct)
  case (1 bs)
  then show ?case
    by (cases "bs = []") (auto simp: utf8_valid.simps [of bs] from_utf8_lossy.simps [of bs])
qed

lemma utf8_valid_ascii_Cons [simp]: "b < 0x80 \<Longrightarrow> utf8_valid (b # bs) = utf8_valid bs"
  by (subst utf8_valid.simps) (simp add: utf8_step_def safe_get_def)

lemma utf8_valid_ascii: "list_all (\<lambda>b. b < 0x80) bs \<Longrightarrow> utf8_valid bs"
  by (induction bs) auto

lemma from_utf8_lossy_ascii: "list_all (\<lambda>b. b < 0x80) bs \<Longrightarrow> from_utf8_lossy bs = bs"
  by (simp add: from_utf8_lossy_valid utf8_valid_ascii)

section \<open>Splitting and trimming\<close>

text \<open>\<open>s.split(c)\<close> for an ASCII character \<open>c\<close>: at least one piece.\<close>

fun split_on :: "u8 \<Rightarrow> rstr \<Rightarrow> rstr list" where
  "split_on c [] = [[]]"
| "split_on c (b # bs) =
     (if b = c then [] # split_on c bs
      else (case split_on c bs of [] \<Rightarrow> [[b]] | p # ps \<Rightarrow> (b # p) # ps))"

text \<open>\<open>s.split_once(c)\<close>\<close>

fun split_once :: "u8 \<Rightarrow> rstr \<Rightarrow> (rstr \<times> rstr) option" where
  "split_once c [] = None"
| "split_once c (b # bs) =
     (if b = c then Some ([], bs) else map_option (\<lambda>(p, q). (b # p, q)) (split_once c bs))"

lemma split_on_no_sep: "c \<notin> set s \<Longrightarrow> split_on c s = [s]"
  by (induction s) auto

lemma split_on_append: "c \<notin> set s \<Longrightarrow> split_on c (s @ c # t) = s # split_on c t"
  by (induction s) auto

lemma split_once_no_sep: "c \<notin> set s \<Longrightarrow> split_once c s = None"
  by (induction s) auto

lemma split_once_append: "c \<notin> set s \<Longrightarrow> split_once c (s @ c # t) = Some (s, t)"
  by (induction s) auto

lemma split_once_eq_Some: "split_once c s = Some (p, q) \<longleftrightarrow> c \<notin> set p \<and> s = p @ c # q"
proof
  show "split_once c s = Some (p, q) \<Longrightarrow> c \<notin> set p \<and> s = p @ c # q"
    by (induction s arbitrary: p) (auto split: if_splits)
qed (auto simp: split_once_append)

lemma split_once_eq_None: "split_once c s = None \<longleftrightarrow> c \<notin> set s"
  by (induction s) auto

text \<open>\<open>s.trim_matches(c)\<close>\<close>

definition trim_matches :: "u8 \<Rightarrow> rstr \<Rightarrow> rstr" where
  "trim_matches c s = rev (dropWhile ((=) c) (rev (dropWhile ((=) c) s)))"

lemma trim_matches_snoc:
  assumes "s \<noteq> []" and "hd s \<noteq> c" and "last s \<noteq> c"
  shows "trim_matches c (s @ [c]) = s"
proof -
  obtain b t where s: "s = b # t" using assms(1) by (cases s) auto
  obtain l u where r: "s = u @ [l]" using assms(1) by (cases s rule: rev_cases) auto
  have "dropWhile ((=) c) (s @ [c]) = s @ [c]" using assms(2) s by simp
  then show ?thesis using assms(3) r by (simp add: trim_matches_def)
qed

text \<open>\<open>s.trim()\<close>: the UTF-8 encodings of the characters with the property White Space.\<close>

definition white_space :: "bytes list" where
  "white_space =
     [[0x09], [0x0A], [0x0B], [0x0C], [0x0D], [0x20], [0xC2, 0x85], [0xC2, 0xA0], [0xE1, 0x9A, 0x80],
      [0xE2, 0x80, 0x80], [0xE2, 0x80, 0x81], [0xE2, 0x80, 0x82], [0xE2, 0x80, 0x83],
      [0xE2, 0x80, 0x84], [0xE2, 0x80, 0x85], [0xE2, 0x80, 0x86], [0xE2, 0x80, 0x87],
      [0xE2, 0x80, 0x88], [0xE2, 0x80, 0x89], [0xE2, 0x80, 0x8A], [0xE2, 0x80, 0xA8],
      [0xE2, 0x80, 0xA9], [0xE2, 0x80, 0xAF], [0xE2, 0x81, 0x9F], [0xE3, 0x80, 0x80]]"

fun strip_one :: "bytes list \<Rightarrow> bytes \<Rightarrow> bytes option" where
  "strip_one [] s = None"
| "strip_one (w # ws) s =
     (if w \<noteq> [] \<and> take (length w) s = w then Some (drop (length w) s) else strip_one ws s)"

lemma strip_one_shorter: "strip_one ws s = Some t \<Longrightarrow> length t < length s"
  by (induction ws; cases s) (auto split: if_splits)

function strip_all :: "bytes list \<Rightarrow> bytes \<Rightarrow> bytes" where
  "strip_all ws s = (case strip_one ws s of None \<Rightarrow> s | Some t \<Rightarrow> strip_all ws t)"
  by pat_completeness auto
termination
  by (relation "measure (\<lambda>(ws, s). length s)") (auto simp: strip_one_shorter)

declare strip_all.simps [simp del]

definition trim :: "rstr \<Rightarrow> rstr" where
  "trim s = rev (strip_all (map rev white_space) (rev (strip_all white_space s)))"

lemma strip_all_None: "strip_one ws s = None \<Longrightarrow> strip_all ws s = s"
  by (simp add: strip_all.simps)

definition ascii_graphic :: "u8 \<Rightarrow> bool" where
  "ascii_graphic b \<longleftrightarrow> 0x21 \<le> b \<and> b \<le> 0x7E"

lemma strip_one_graphic:
  assumes "ascii_graphic b"
  shows "strip_one white_space (b # s) = None" "strip_one (map rev white_space) (b # s) = None"
proof -
  have "b \<notin> {0x09, 0x0A, 0x0B, 0x0C, 0x0D, 0x20, 0xC2, 0xE1, 0xE2, 0xE3}"
    and "b \<notin> {0x80, 0x81, 0x82, 0x83, 0x84, 0x85, 0x86, 0x87, 0x88, 0x89, 0x8A, 0xA0, 0xA8, 0xA9, 0xAF, 0x9F}"
    using assms by (auto simp: ascii_graphic_def)
  then show "strip_one white_space (b # s) = None" "strip_one (map rev white_space) (b # s) = None"
    by (simp_all add: white_space_def)
qed

lemma trim_graphic:
  assumes "s \<noteq> []" and "ascii_graphic (hd s)" and "ascii_graphic (last s)"
  shows "trim s = s"
proof -
  obtain b t where s: "s = b # t" using assms(1) by (cases s) auto
  obtain c u where r: "rev s = c # u" using assms(1) by (cases "rev s") auto
  have c: "c = last s" using r by (metis list.sel(1) hd_rev)
  have "strip_all white_space s = s"
    using assms(2) by (simp add: s strip_all_None strip_one_graphic)
  moreover have "strip_all (map rev white_space) (rev s) = rev s"
    using assms(3) by (simp add: r c strip_all_None strip_one_graphic)
  ultimately show ?thesis by (simp add: trim_def)
qed

lemma trim_Nil [simp]: "trim [] = []"
  by (simp add: trim_def strip_all.simps white_space_def)

section \<open>Numbers\<close>

text \<open>\<open>char::to_digit\<close> and its inverse for the digits the formatting functions print.\<close>

definition digit_val :: "u8 \<Rightarrow> nat option" where
  "digit_val b =
     (if 0x30 \<le> b \<and> b \<le> 0x39 then Some (unat b - 0x30)
      else if 0x61 \<le> b \<and> b \<le> 0x7A then Some (unat b - 0x61 + 10)
      else if 0x41 \<le> b \<and> b \<le> 0x5A then Some (unat b - 0x41 + 10)
      else None)"

definition digit_char :: "nat \<Rightarrow> u8" where
  "digit_char d = (if d < 10 then of_nat (0x30 + d) else of_nat (0x61 + (d - 10)))"

fun parse_digits :: "nat \<Rightarrow> nat \<Rightarrow> nat \<Rightarrow> bytes \<Rightarrow> nat option" where
  "parse_digits radix lim acc [] = Some acc"
| "parse_digits radix lim acc (b # bs) =
     (case digit_val b of
        None \<Rightarrow> None
      | Some d \<Rightarrow> if d < radix \<and> acc * radix + d < lim then parse_digits radix lim (acc * radix + d) bs
                  else None)"

text \<open>
  \<open>from_str_radix\<close> of an unsigned type with \<open>lim\<close> values: a sign \<open>+\<close> may come first, there is at
  least one digit, and the value fits.
\<close>

definition from_str_radix :: "nat \<Rightarrow> nat \<Rightarrow> rstr \<Rightarrow> nat option" where
  "from_str_radix radix lim s =
     (case s of
        [] \<Rightarrow> None
      | [b] \<Rightarrow> if b = 0x2B \<or> b = 0x2D then None else parse_digits radix lim 0 s
      | b # rest \<Rightarrow> if b = 0x2B then parse_digits radix lim 0 rest else parse_digits radix lim 0 s)"

text \<open>\<open>{}\<close> (radix 10), \<open>{:x}\<close> (radix 16) and \<open>{:0WIDTHx}\<close> of an unsigned value.\<close>

function fmt_radix :: "nat \<Rightarrow> nat \<Rightarrow> rstr" where
  "fmt_radix r n = (if n < r \<or> r \<le> 1 then [digit_char n] else fmt_radix r (n div r) @ [digit_char (n mod r)])"
  by pat_completeness auto
termination
  by (relation "measure (\<lambda>(r, n). n)") auto

declare fmt_radix.simps [simp del]

definition fmt_dec :: "nat \<Rightarrow> rstr" where
  "fmt_dec n = fmt_radix 10 n"

definition fmt_hex :: "nat \<Rightarrow> nat \<Rightarrow> rstr" where
  "fmt_hex width n = (let s = fmt_radix 16 n in replicate (width - length s) 0x30 @ s)"

lemma digit_val_char:
  assumes "d < 16"
  shows "digit_val (digit_char d) = Some d"
proof -
  have "list_all (\<lambda>d. digit_val (digit_char d) = Some d) [0..<16]"
    by code_simp
  with assms show ?thesis by (simp add: list_all_iff)
qed

lemma digit_char_graphic:
  assumes "d < 16"
  shows "ascii_graphic (digit_char d) \<and> digit_char d \<noteq> 0x2B \<and> digit_char d \<noteq> 0x2D"
proof -
  have "list_all (\<lambda>d. ascii_graphic (digit_char d) \<and> digit_char d \<noteq> 0x2B \<and> digit_char d \<noteq> 0x2D) [0..<16]"
    by code_simp
  with assms show ?thesis by (simp add: list_all_iff)
qed

lemma parse_digits_append:
  "parse_digits r lim acc (xs @ ys) =
     (case parse_digits r lim acc xs of None \<Rightarrow> None | Some a \<Rightarrow> parse_digits r lim a ys)"
  by (induction xs arbitrary: acc) (auto split: option.splits)

lemma parse_digits_zeros:
  "0 < r \<Longrightarrow> 0 < lim \<Longrightarrow> parse_digits r lim 0 (replicate k 0x30 @ s) = parse_digits r lim 0 s"
  by (induction k) (auto simp: digit_val_def)

lemma parse_fmt_radix:
  "1 < r \<Longrightarrow> r \<le> 16 \<Longrightarrow> n < lim \<Longrightarrow> parse_digits r lim 0 (fmt_radix r n) = Some n"
proof (induction r n rule: fmt_radix.induct)
  case (1 r n)
  show ?case
  proof (cases "n < r")
    case True
    with 1 show ?thesis by (simp add: fmt_radix.simps [of r n] digit_val_char)
  next
    case False
    with 1 have "parse_digits r lim 0 (fmt_radix r (n div r)) = Some (n div r)"
      by (metis div_le_dividend leD le_less_trans)
    moreover have "n mod r < 16"
      using 1(2,3) mod_less_divisor [of r n] by linarith
    ultimately show ?thesis
      using False 1 by (simp add: fmt_radix.simps [of r n] parse_digits_append digit_val_char)
  qed
qed

lemma fmt_radix_digits: "1 < r \<Longrightarrow> set (fmt_radix r n) \<subseteq> digit_char ` {..<r}"
proof (induction r n rule: fmt_radix.induct)
  case (1 r n)
  moreover have "n mod r \<in> {..<r}" using 1(2) by simp
  ultimately show ?case
    by (auto simp: fmt_radix.simps [of r n])
qed

lemma fmt_radix_no_sign:
  assumes "1 < r" and "r \<le> 16" and "b \<in> set (fmt_radix r n)"
  shows "b \<noteq> 0x2B" "b \<noteq> 0x2D"
proof -
  from assms obtain d where "d < r" and "b = digit_char d"
    using fmt_radix_digits [of r n] by blast
  with assms(2) show "b \<noteq> 0x2B" "b \<noteq> 0x2D"
    using digit_char_graphic [of d] by simp_all
qed

lemma fmt_radix_ne [simp]: "fmt_radix r n \<noteq> []"
  by (subst fmt_radix.simps) simp

lemma from_str_radix_digits:
  assumes "s \<noteq> []" and "hd s \<noteq> 0x2B" and "hd s \<noteq> 0x2D"
  shows "from_str_radix r lim s = parse_digits r lim 0 s"
  using assms by (auto simp: from_str_radix_def split: list.splits)

lemma from_str_fmt_dec: "n < lim \<Longrightarrow> from_str_radix 10 lim (fmt_dec n) = Some n"
  using fmt_radix_no_sign [of 10 "hd (fmt_radix 10 n)" n]
  by (simp add: from_str_radix_digits parse_fmt_radix fmt_dec_def)

lemma from_str_fmt_hex:
  assumes "n < lim"
  shows "from_str_radix 16 lim (fmt_hex w n) = Some n"
proof -
  let ?s = "fmt_radix 16 n"
  have "hd (fmt_hex w n) = 0x30 \<or> hd (fmt_hex w n) = hd ?s"
    by (cases "w - length ?s") (simp_all add: fmt_hex_def Let_def)
  then have "hd (fmt_hex w n) \<noteq> 0x2B" "hd (fmt_hex w n) \<noteq> 0x2D"
    using fmt_radix_no_sign [of 16 "hd ?s" n] by auto
  then show ?thesis
    using assms by (simp add: from_str_radix_digits fmt_hex_def Let_def parse_digits_zeros parse_fmt_radix)
qed

lemma fmt_radix_length: "1 < r \<Longrightarrow> 0 < k \<Longrightarrow> n < r ^ k \<Longrightarrow> length (fmt_radix r n) \<le> k"
proof (induction k arbitrary: n)
  case (Suc k)
  show ?case
  proof (cases "n < r")
    case True
    then show ?thesis by (simp add: fmt_radix.simps [of r n])
  next
    case False
    then have "k \<noteq> 0" using Suc.prems by (cases k) auto
    moreover have "n div r < r ^ k"
      using Suc.prems by (simp add: div_less_iff_less_mult mult.commute)
    ultimately have "length (fmt_radix r (n div r)) \<le> k" using Suc by blast
    with False Suc.prems(1) show ?thesis by (simp add: fmt_radix.simps [of r n])
  qed
qed simp

lemma length_fmt_hex: "0 < w \<Longrightarrow> n < 16 ^ w \<Longrightarrow> length (fmt_hex w n) = w"
  using fmt_radix_length [of 16 w n] by (simp add: fmt_hex_def Let_def)

lemma fmt_radix_graphic: "1 < r \<Longrightarrow> r \<le> 16 \<Longrightarrow> b \<in> set (fmt_radix r n) \<Longrightarrow> ascii_graphic b"
  using fmt_radix_digits [of r n] digit_char_graphic by fastforce

lemma ascii_graphic_less: "ascii_graphic b \<Longrightarrow> b < 0x80"
  by (auto simp: ascii_graphic_def intro: order_le_less_trans)

lemma fmt_hex_ascii: "list_all (\<lambda>b. b < 0x80) (fmt_hex w n)"
  using fmt_radix_graphic [of 16 _ n] ascii_graphic_less
  by (auto simp: fmt_hex_def Let_def list_all_iff)

text \<open>\<open>s.starts_with(p)\<close>, \<open>s.ends_with(p)\<close> and \<open>s.strip_suffix(p)\<close>\<close>

definition starts_with :: "rstr \<Rightarrow> rstr \<Rightarrow> bool" where
  "starts_with s p \<longleftrightarrow> take (length p) s = p"

definition ends_with :: "rstr \<Rightarrow> rstr \<Rightarrow> bool" where
  "ends_with s p \<longleftrightarrow> length p \<le> length s \<and> drop (length s - length p) s = p"

definition strip_suffix :: "rstr \<Rightarrow> rstr \<Rightarrow> rstr option" where
  "strip_suffix s p = (if ends_with s p then Some (take (length s - length p) s) else None)"

lemma ends_with_append [simp]: "ends_with (s @ p) p"
  by (simp add: ends_with_def)

lemma ends_withD: "ends_with s p \<Longrightarrow> \<exists>u. s = u @ p"
  by (metis append_take_drop_id ends_with_def)

end
