(* ===== verification/Rust_Io.thy ===== *)
theory Rust_Io
  imports Rust_Str
begin

text \<open>
  Byte streams of the standard library (\<open>std::io::Read\<close>, \<open>std::net::TcpStream\<close>). What a peer will
  deliver is a list of events: each \<open>Seg\<close> is what one \<open>read\<close> can return at most (a segment of the
  network), an \<open>IoFail\<close> makes one \<open>read\<close> fail, and the end of the list is the end of the stream.
  \<open>read_exact\<close> is the loop of the standard library; the lemmas show that its result does not depend
  on how the bytes are cut into segments.
\<close>

datatype IoError = UnexpectedEof | Interrupted | TimedOut | WouldBlock | InvalidData rstr | IoOther rstr

datatype net_event = Seg bytes | IoFail IoError

type_synonym net = "net_event list"

text \<open>One \<open>read\<close> into a buffer of \<open>n\<close> bytes: the bytes read, none at the end of the stream.\<close>

fun stream_read :: "nat \<Rightarrow> net \<Rightarrow> (bytes, IoError) outcome \<times> net" where
  "stream_read n [] = (Ok [], [])"
| "stream_read n (Seg s # rest) =
     (if length s \<le> n then (Ok s, rest) else (Ok (take n s), Seg (drop n s) # rest))"
| "stream_read n (IoFail e # rest) = (Err e, rest)"

lemma stream_read_bounds:
  assumes "stream_read n net = (r, net')"
  shows "length net' \<le> length net" "\<And>e. r = Err e \<Longrightarrow> length net' < length net"
    "\<And>bs. r = Ok bs \<Longrightarrow> length bs \<le> n" "r \<noteq> Panic"
  using assms by (cases "(n, net)" rule: stream_read.cases; auto split: if_splits)+

lemma stream_read_progress:
  "(Ok bs, net') = stream_read n net \<Longrightarrow> bs \<noteq> [] \<Longrightarrow> n - length bs + length net' < n + length net"
  "(Err e, net') = stream_read n net \<Longrightarrow> length net' < length net"
proof -
  assume a: "(Ok bs, net') = stream_read n net" and "bs \<noteq> []"
  then have "0 < length bs" by simp
  moreover have "length net' \<le> length net" "length bs \<le> n"
    using stream_read_bounds(1,3) [OF a [symmetric]] by simp_all
  ultimately show "n - length bs + length net' < n + length net" by linarith
next
  assume "(Err e, net') = stream_read n net"
  with stream_read_bounds(2) show "length net' < length net" by metis
qed

function read_exact_loop :: "nat \<Rightarrow> bytes \<Rightarrow> net \<Rightarrow> (bytes \<times> net, IoError) outcome" where
  "read_exact_loop n acc net =
     (if n = 0 then Ok (acc, net)
      else case stream_read n net of
        (Ok bs, net') \<Rightarrow>
          (if bs = [] then Err UnexpectedEof else read_exact_loop (n - length bs) (acc @ bs) net')
      | (Err e, net') \<Rightarrow>
          (if e = Interrupted then read_exact_loop n acc net' else Err e)
      | (Panic, net') \<Rightarrow> Panic)"
  by pat_completeness auto
termination
  by (relation "measure (\<lambda>(n, acc, net). n + length net)") (auto dest: stream_read_progress)

declare read_exact_loop.simps [simp del]

definition read_exact :: "nat \<Rightarrow> net \<Rightarrow> (bytes \<times> net, IoError) outcome" where
  "read_exact n net = read_exact_loop n [] net"

text \<open>A measure of what is still to come: it shrinks with every read that makes progress.\<close>

fun event_size :: "net_event \<Rightarrow> nat" where
  "event_size (Seg s) = Suc (length s)"
| "event_size (IoFail e) = 1"

definition net_size :: "net \<Rightarrow> nat" where
  "net_size net = sum_list (map event_size net)"

lemma stream_read_net_size:
  assumes "stream_read n net = (r, net')"
  shows "\<And>bs. r = Ok bs \<Longrightarrow> net_size net' + length bs \<le> net_size net"
    "\<And>e. r = Err e \<Longrightarrow> net_size net' < net_size net"
  using assms by (cases "(n, net)" rule: stream_read.cases; auto simp: net_size_def split: if_splits)+

lemma stream_read_shrinks:
  "(Ok bs, net') = stream_read n net \<Longrightarrow> bs \<noteq> [] \<Longrightarrow> net_size net' < net_size net"
  "(Err e, net') = stream_read n net \<Longrightarrow> net_size net' < net_size net"
proof -
  assume "(Ok bs, net') = stream_read n net" and "bs \<noteq> []"
  then have "net_size net' + length bs \<le> net_size net" "0 < length bs"
    using stream_read_net_size(1) [of n net "Ok bs" net'] by simp_all
  then show "net_size net' < net_size net" by linarith
next
  assume "(Err e, net') = stream_read n net"
  from stream_read_net_size(2) [OF this [symmetric] refl] show "net_size net' < net_size net" .
qed

lemma read_exact_net_size:
  assumes "read_exact n net = Ok (bs, net')"
  shows "net_size net' + n \<le> net_size net"
proof -
  have "read_exact_loop n acc net = Ok (bs, net') \<Longrightarrow> net_size net' + n \<le> net_size net" for acc
  proof (induction n acc net rule: read_exact_loop.induct)
    case (1 n acc net)
    obtain r net1 where sr: "stream_read n net = (r, net1)" by (cases "stream_read n net")
    show ?case
    proof (cases "n = 0")
      case True
      with "1.prems" show ?thesis by (simp add: read_exact_loop.simps)
    next
      case False
      with sr "1.prems" consider (ok) b where "r = Ok b" "b \<noteq> []" "read_exact_loop (n - length b) (acc @ b) net1 = Ok (bs, net')"
        | (intr) "r = Err Interrupted" "read_exact_loop n acc net1 = Ok (bs, net')"
        by (subst (asm) read_exact_loop.simps) (auto split: outcome.splits if_splits)
      then show ?thesis
      proof cases
        case ok
        from "1.IH"(1) [OF False sr [symmetric] ok(1,2) ok(3)] stream_read_net_size(1) [OF sr ok(1)]
          stream_read_bounds(3) [OF sr ok(1)] show ?thesis by linarith
      next
        case intr
        from "1.IH"(2) [OF False sr [symmetric] intr(1) refl intr(2)] stream_read_net_size(2) [OF sr intr(1)]
        show ?thesis by linarith
      qed
    qed
  qed
  with assms show ?thesis by (simp add: read_exact_def)
qed

section \<open>Independence of the segmentation\<close>

text \<open>A healthy stream: non-empty segments and no failure.\<close>

definition segs :: "bytes list \<Rightarrow> net" where
  "segs ss = map Seg (filter (\<lambda>s. s \<noteq> []) ss)"

definition delivers :: "net \<Rightarrow> bytes \<Rightarrow> bool" where
  "delivers net bs \<longleftrightarrow> (\<exists>ss. net = map Seg ss \<and> [] \<notin> set ss \<and> concat ss = bs)"

lemma delivers_segs: "delivers (segs ss) (concat ss)"
proof -
  have "concat (filter (\<lambda>s. s \<noteq> []) ss) = concat ss" by (induction ss) auto
  then show ?thesis unfolding delivers_def segs_def by (intro exI [of _ "filter (\<lambda>s. s \<noteq> []) ss"]) simp
qed

lemma delivers_single: "bs \<noteq> [] \<Longrightarrow> delivers [Seg bs] bs"
  by (auto simp: delivers_def intro: exI [of _ "[bs]"])

lemma delivers_Nil_iff [simp]: "delivers [] bs \<longleftrightarrow> bs = []"
  by (auto simp: delivers_def)

lemma delivers_Cons:
  "delivers (Seg s # net) bs \<longleftrightarrow> s \<noteq> [] \<and> (\<exists>bs'. bs = s @ bs' \<and> delivers net bs')"
proof
  assume "delivers (Seg s # net) bs"
  then obtain ss where "Seg s # net = map Seg ss" "[] \<notin> set ss" "concat ss = bs"
    unfolding delivers_def by metis
  then show "s \<noteq> [] \<and> (\<exists>bs'. bs = s @ bs' \<and> delivers net bs')"
    by (cases ss) (auto simp: delivers_def)
next
  assume "s \<noteq> [] \<and> (\<exists>bs'. bs = s @ bs' \<and> delivers net bs')"
  then obtain ss where "s \<noteq> []" "net = map Seg ss" "[] \<notin> set ss" "bs = s @ concat ss"
    by (auto simp: delivers_def)
  then show "delivers (Seg s # net) bs"
    by (auto simp: delivers_def intro!: exI [of _ "s # ss"])
qed

lemma delivers_IoFail [simp]: "\<not> delivers (IoFail e # net) bs"
  by (auto simp: delivers_def)

lemma delivers_Nil: "delivers net [] \<longleftrightarrow> net = []"
  by (cases net rule: list.exhaust; cases "hd net") (auto simp: delivers_Cons)

lemma stream_read_delivers:
  assumes "delivers net bs" and "bs \<noteq> []" and "0 < n"
  obtains s net' rest where "stream_read n net = (Ok s, net')" and "s \<noteq> []" and "length s \<le> n"
    and "bs = s @ rest" and "delivers net' rest"
proof -
  from assms obtain s net0 bs0 where net: "net = Seg s # net0" "s \<noteq> []" "bs = s @ bs0" "delivers net0 bs0"
    by (cases net rule: list.exhaust; cases "hd net") (auto simp: delivers_Cons)
  show thesis
  proof (cases "length s \<le> n")
    case True
    with net show thesis by (intro that [of s net0 bs0]) simp_all
  next
    case False
    with net assms(3) show thesis
      by (intro that [of "take n s" "Seg (drop n s) # net0" "drop n s @ bs0"]) (auto simp: delivers_Cons)
  qed
qed

lemma read_exact_loop_delivers:
  "delivers net (xs @ rest) \<Longrightarrow>
   \<exists>net'. read_exact_loop (length xs) acc net = Ok (acc @ xs, net') \<and> delivers net' rest"
proof (induction "length xs" acc net arbitrary: xs rule: read_exact_loop.induct)
  case (1 acc net)
  show ?case
  proof (cases "xs = []")
    case True
    with "1.prems" show ?thesis by (simp add: read_exact_loop.simps)
  next
    case False
    then obtain s net0 bs where net: "net = Seg s # net0" and s: "s \<noteq> []"
      and bs: "xs @ rest = s @ bs" and d: "delivers net0 bs"
      using "1.prems" by (cases net rule: list.exhaust; cases "hd net") (auto simp: delivers_Cons)
    show ?thesis
    proof (cases "length s \<le> length xs")
      case True
      with bs obtain ys where xs: "xs = s @ ys" and bs': "bs = ys @ rest"
        by (auto simp: append_eq_append_conv2)
      have "\<exists>net'. read_exact_loop (length ys) (acc @ s) net0 = Ok ((acc @ s) @ ys, net') \<and> delivers net' rest"
        by (rule "1.hyps"(1)) (use False True net s xs bs' d in \<open>simp_all\<close>)
      with net s xs show ?thesis by (simp add: read_exact_loop.simps [of "length s + length ys"])
    next
      case gt: False
      with bs obtain ys where sx: "s = xs @ ys" and r: "rest = ys @ bs" and "ys \<noteq> []"
        by (auto simp: append_eq_append_conv2)
      then have "delivers (Seg ys # net0) rest" using d by (simp add: delivers_Cons)
      with net gt sx False show ?thesis
        by (simp add: read_exact_loop.simps [of "length xs"] read_exact_loop.simps [of 0])
    qed
  qed
qed

lemma read_exact_delivers:
  assumes "delivers net (xs @ rest)" and "n = length xs"
  obtains net' where "read_exact n net = Ok (xs, net')" and "delivers net' rest"
  using read_exact_loop_delivers [OF assms(1), of "[]"] assms(2) by (auto simp: read_exact_def)

lemma read_exact_noPanic: "read_exact n net \<noteq> Panic"
proof -
  have "read_exact_loop n acc net \<noteq> Panic" for acc
  proof (induction n acc net rule: read_exact_loop.induct)
    case (1 n acc net)
    then show ?case
      using stream_read_bounds(4) [of n net]
      by (subst read_exact_loop.simps) (auto split: outcome.splits prod.splits)
  qed
  then show ?thesis by (simp add: read_exact_def)
qed

lemma read_exact_length:
  assumes "read_exact n net = Ok (bs, net')"
  shows "length bs = n"
proof -
  have "read_exact_loop n acc net = Ok (bs, net') \<Longrightarrow> length bs = length acc + n" for acc
  proof (induction n acc net rule: read_exact_loop.induct)
    case (1 n acc net)
    obtain r net1 where sr: "stream_read n net = (r, net1)" by (cases "stream_read n net")
    show ?case
    proof (cases "n = 0")
      case True
      with "1.prems" show ?thesis by (simp add: read_exact_loop.simps)
    next
      case False
      with sr "1.prems" consider (ok) b where "r = Ok b" "b \<noteq> []" "read_exact_loop (n - length b) (acc @ b) net1 = Ok (bs, net')"
        | (intr) "r = Err Interrupted" "read_exact_loop n acc net1 = Ok (bs, net')"
        by (subst (asm) read_exact_loop.simps) (auto split: outcome.splits if_splits)
      then show ?thesis
      proof cases
        case ok
        with "1.IH"(1) [OF False sr [symmetric] ok(1,2) ok(3)] stream_read_bounds(3) [OF sr ok(1)]
        show ?thesis by simp
      next
        case intr
        from "1.IH"(2) [OF False sr [symmetric] intr(1) refl intr(2)] show ?thesis .
      qed
    qed
  qed
  from this [of "[]"] assms show ?thesis by (simp add: read_exact_def)
qed

end
