(* ===== verification/Adb_Header.thy ===== *)
theory Adb_Header
  imports Byteorder Rust_Io
begin

text \<open>
  The ADB wire header of \<open>crates/adb-protocol/src/header.rs\<close> with the command constants of
  \<open>constants.rs\<close>, and the message framing that the \<open>Transport\<close> trait of \<open>transport.rs\<close> puts on
  top of it (\<open>send_message\<close>, \<open>recv_message\<close>).
\<close>

section \<open>Constants\<close>

definition A_SYNC :: u32 where "A_SYNC = 0x434E5953"
definition A_CNXN :: u32 where "A_CNXN = 0x4E584E43"
definition A_OPEN :: u32 where "A_OPEN = 0x4E45504F"
definition A_OKAY :: u32 where "A_OKAY = 0x59414B4F"
definition A_CLSE :: u32 where "A_CLSE = 0x45534C43"
definition A_WRTE :: u32 where "A_WRTE = 0x45545257"
definition A_AUTH :: u32 where "A_AUTH = 0x48545541"
definition A_STLS :: u32 where "A_STLS = 0x534C5453"

definition A_STLS_VERSION_MIN :: u32 where "A_STLS_VERSION_MIN = 0x01000000"
definition A_STLS_VERSION :: u32 where "A_STLS_VERSION = 0x01000000"

definition MAX_PAYLOAD_V2 :: u32 where "MAX_PAYLOAD_V2 = 1024 * 1024"

definition A_AUTH_TOKEN :: u32 where "A_AUTH_TOKEN = 1"
definition A_AUTH_SIGNATURE :: u32 where "A_AUTH_SIGNATURE = 2"
definition A_AUTH_RSAKEY :: u32 where "A_AUTH_RSAKEY = 3"

lemmas adb_command_defs = A_SYNC_def A_CNXN_def A_OPEN_def A_OKAY_def A_CLSE_def A_WRTE_def
  A_AUTH_def A_STLS_def

section \<open>The 24-byte header\<close>

datatype HeaderError =
    BufferTooShort nat
  | MagicMismatch (mm_expected: u32) (mm_got: u32)
  | ChecksumMismatch (cm_expected: u32) (cm_got: u32)

datatype AuthType = Token | Signature | RsaKey | AuthUnknown u32

definition AuthType_from_u32 :: "u32 \<Rightarrow> AuthType" where
  "AuthType_from_u32 val =
     (if val = A_AUTH_TOKEN then Token
      else if val = A_AUTH_SIGNATURE then Signature
      else if val = A_AUTH_RSAKEY then RsaKey
      else AuthUnknown val)"

fun AuthType_to_u32 :: "AuthType \<Rightarrow> u32" where
  "AuthType_to_u32 Token = A_AUTH_TOKEN"
| "AuthType_to_u32 Signature = A_AUTH_SIGNATURE"
| "AuthType_to_u32 RsaKey = A_AUTH_RSAKEY"
| "AuthType_to_u32 (AuthUnknown val) = val"

record AdbMessageHeader =
  command :: u32
  arg0 :: u32
  arg1 :: u32
  data_length :: u32
  data_check :: u32
  magic :: u32

definition HEADER_SIZE :: nat where "HEADER_SIZE = 24"

definition AdbMessageHeader_new :: "u32 \<Rightarrow> u32 \<Rightarrow> u32 \<Rightarrow> bytes \<Rightarrow> AdbMessageHeader" where
  "AdbMessageHeader_new cmd a0 a1 payload =
     \<lparr>command = cmd, arg0 = a0, arg1 = a1, data_length = as_u32 (length payload),
      data_check = 0, magic = cmd XOR 0xFFFFFFFF\<rparr>"

definition calculate_checksum :: "bytes \<Rightarrow> u32" where
  "calculate_checksum data = foldl (\<lambda>acc b. acc + ucast b) 0 data"

definition new_v1_legacy :: "u32 \<Rightarrow> u32 \<Rightarrow> u32 \<Rightarrow> bytes \<Rightarrow> AdbMessageHeader" where
  "new_v1_legacy cmd a0 a1 payload =
     (AdbMessageHeader_new cmd a0 a1 payload)\<lparr>data_check := calculate_checksum payload\<rparr>"

definition with_checksum :: "AdbMessageHeader \<Rightarrow> bytes \<Rightarrow> AdbMessageHeader" where
  "with_checksum h payload = h\<lparr>data_check := calculate_checksum payload\<rparr>"

definition new_auth :: "u32 \<Rightarrow> bytes \<Rightarrow> AdbMessageHeader" where
  "new_auth auth_type payload = AdbMessageHeader_new A_AUTH auth_type 0 payload"

definition is_auth :: "AdbMessageHeader \<Rightarrow> bool" where
  "is_auth h \<longleftrightarrow> command h = A_AUTH"

definition header_auth_type :: "AdbMessageHeader \<Rightarrow> AuthType option" where
  "header_auth_type h = (if is_auth h then Some (AuthType_from_u32 (arg0 h)) else None)"

text \<open>\<open>AuthMessage\<close> and its constructors.\<close>

record AuthMessage =
  am_auth_type :: AuthType
  am_data :: bytes

definition AuthMessage_new :: "AuthType \<Rightarrow> bytes \<Rightarrow> AuthMessage" where
  "AuthMessage_new auth_type data = \<lparr>am_auth_type = auth_type, am_data = data\<rparr>"

definition AuthMessage_token :: "bytes \<Rightarrow> AuthMessage" where
  "AuthMessage_token data = AuthMessage_new Token data"

definition AuthMessage_signature :: "bytes \<Rightarrow> AuthMessage" where
  "AuthMessage_signature data = AuthMessage_new Signature data"

definition AuthMessage_rsakey :: "bytes \<Rightarrow> AuthMessage" where
  "AuthMessage_rsakey data = AuthMessage_new RsaKey data"

definition AuthMessage_to_header :: "AuthMessage \<Rightarrow> AdbMessageHeader" where
  "AuthMessage_to_header m = new_auth (AuthType_to_u32 (am_auth_type m)) (am_data m)"

text \<open>\<open>encode\<close> writes the six fields into the caller's 24-byte buffer \<open>out\<close>.\<close>

definition AdbMessageHeader_encode :: "byteorder \<Rightarrow> AdbMessageHeader \<Rightarrow> bytes \<Rightarrow> bytes" where
  "AdbMessageHeader_encode bo h out =
     (let out = put 0 (write_u32 bo (command h)) out;
          out = put 4 (write_u32 bo (arg0 h)) out;
          out = put 8 (write_u32 bo (arg1 h)) out;
          out = put 12 (write_u32 bo (data_length h)) out;
          out = put 16 (write_u32 bo (data_check h)) out;
          out = put 20 (write_u32 bo (magic h)) out
      in out)"

definition AdbMessageHeader_decode :: "byteorder \<Rightarrow> bytes \<Rightarrow> (AdbMessageHeader, HeaderError) outcome" where
  "AdbMessageHeader_decode bo buf =
     (if length buf < HEADER_SIZE then Err (BufferTooShort (length buf))
      else and_then (get_u32 bo buf 0) (\<lambda>cmd.
           and_then (get_u32 bo buf 4) (\<lambda>a0.
           and_then (get_u32 bo buf 8) (\<lambda>a1.
           and_then (get_u32 bo buf 12) (\<lambda>dlen.
           and_then (get_u32 bo buf 16) (\<lambda>dcheck.
           and_then (get_u32 bo buf 20) (\<lambda>mgc.
             let expected_magic = cmd XOR 0xFFFFFFFF in
             if mgc \<noteq> expected_magic then Err (MagicMismatch expected_magic mgc)
             else Ok \<lparr>command = cmd, arg0 = a0, arg1 = a1, data_length = dlen,
                      data_check = dcheck, magic = mgc\<rparr>)))))))"

definition verify_payload :: "AdbMessageHeader \<Rightarrow> bytes \<Rightarrow> (unit, HeaderError) outcome" where
  "verify_payload h payload =
     (if length payload \<noteq> unat (data_length h) then Err (BufferTooShort (length payload))
      else if data_check h = 0 then Ok ()
      else let calc = calculate_checksum payload in
        if calc \<noteq> data_check h then Err (ChecksumMismatch (data_check h) calc) else Ok ())"

section \<open>Messages over a byte stream\<close>

datatype TransportError =
    Io IoError
  | Header HeaderError
  | ConnectFailed rstr IoError
  | Protocol rstr
  | ServerError rstr
  | TlsHandshakeRequired

text \<open>\<open>send_message\<close>: what is appended to the bytes written so far.\<close>

definition send_message :: "byteorder \<Rightarrow> bytes \<Rightarrow> AdbMessageHeader \<Rightarrow> bytes \<Rightarrow> bytes" where
  "send_message bo written h payload =
     (let hdr_buf = AdbMessageHeader_encode bo h (replicate 24 0);
          written = written @ hdr_buf
      in if payload \<noteq> [] then written @ payload else written)"

definition recv_message ::
  "byteorder \<Rightarrow> net \<Rightarrow> ((AdbMessageHeader \<times> bytes) \<times> net, TransportError) outcome" where
  "recv_message bo net =
     and_then (map_err Io (read_exact 24 net)) (\<lambda>(hdr_buf, net).
     and_then (map_err Header (AdbMessageHeader_decode bo hdr_buf)) (\<lambda>header.
       if data_length header > MAX_PAYLOAD_V2 then
         Err (Protocol (str ''Payload too large: '' @ fmt_dec (unat (data_length header)) @
           str '' bytes (max '' @ fmt_dec (unat MAX_PAYLOAD_V2) @ str '')''))
       else if data_length header > 0 then
         and_then (map_err Io (read_exact (unat (data_length header)) net)) (\<lambda>(payload, net).
         and_then (map_err Header (verify_payload header payload)) (\<lambda>_.
           Ok ((header, payload), net)))
       else Ok ((header, []), net)))"

section \<open>Lemmas\<close>

text \<open>A header whose magic is the complement of its command, as \<open>new\<close> makes it.\<close>

definition magic_ok :: "AdbMessageHeader \<Rightarrow> bool" where
  "magic_ok h \<longleftrightarrow> magic h = command h XOR 0xFFFFFFFF"

lemma magic_ok_new [simp]:
  "magic_ok (AdbMessageHeader_new c a b p)" "magic_ok (new_v1_legacy c a b p)"
  by (simp_all add: magic_ok_def AdbMessageHeader_new_def new_v1_legacy_def)

lemma foldl_checksum: "foldl (\<lambda>acc b. acc + ucast (b :: u8)) (s :: u32) xs = s + calculate_checksum xs"
proof (induction xs arbitrary: s)
  case (Cons b xs)
  have "foldl (\<lambda>acc b. acc + ucast b) (s + ucast b) xs = s + ucast b + calculate_checksum xs"
    by (rule Cons)
  moreover have "calculate_checksum (b # xs) = ucast b + calculate_checksum xs"
    using Cons [of "ucast b"] by (simp add: calculate_checksum_def)
  ultimately show ?case by (simp add: add.assoc)
qed (simp add: calculate_checksum_def)

lemma checksum_append: "calculate_checksum (xs @ ys) = calculate_checksum xs + calculate_checksum ys"
  using foldl_checksum [of "calculate_checksum xs" ys] by (simp add: calculate_checksum_def)

lemma checksum_Cons: "calculate_checksum (b # xs) = ucast b + calculate_checksum xs"
  using checksum_append [of "[b]" xs] by (simp add: calculate_checksum_def)

lemma checksum_one_byte:
  "calculate_checksum (xs @ b # ys) = calculate_checksum (xs @ c # ys) \<longleftrightarrow> b = c"
  by (simp add: checksum_append checksum_Cons)

lemma new_simps [simp]:
  "data_length (AdbMessageHeader_new c a b p) = as_u32 (length p)"
  "data_check (AdbMessageHeader_new c a b p) = 0"
  "data_length (new_v1_legacy c a b p) = as_u32 (length p)"
  "data_check (new_v1_legacy c a b p) = calculate_checksum p"
  by (simp_all add: AdbMessageHeader_new_def new_v1_legacy_def)

lemma verify_payload_new:
  "length p < 2 ^ 32 \<Longrightarrow> verify_payload (AdbMessageHeader_new c a b p) p = Ok ()"
  "length p < 2 ^ 32 \<Longrightarrow> verify_payload (new_v1_legacy c a b p) p = Ok ()"
  by (simp_all add: verify_payload_def)

context little_endian
begin

lemma encode_concat:
  assumes "length out = 24"
  shows "AdbMessageHeader_encode bo h out =
    u32_to_le (command h) @ u32_to_le (arg0 h) @ u32_to_le (arg1 h) @ u32_to_le (data_length h) @
    u32_to_le (data_check h) @ u32_to_le (magic h)"
proof -
  have "AdbMessageHeader_encode bo h out = put_fields 0
      [u32_to_le (command h), u32_to_le (arg0 h), u32_to_le (arg1 h), u32_to_le (data_length h),
       u32_to_le (data_check h), u32_to_le (magic h)] out"
    by (simp add: AdbMessageHeader_encode_def)
  from put_fieldsD [OF this] show ?thesis using assms by simp
qed

lemma length_encode [simp]: "length out = 24 \<Longrightarrow> length (AdbMessageHeader_encode bo h out) = 24"
  by (simp add: encode_concat)

lemma decode_fields:
  "24 \<le> length buf \<Longrightarrow> AdbMessageHeader_decode bo buf =
    (let h = \<lparr>command = u32_from_le (take 4 buf), arg0 = u32_from_le (take 4 (drop 4 buf)),
              arg1 = u32_from_le (take 4 (drop 8 buf)), data_length = u32_from_le (take 4 (drop 12 buf)),
              data_check = u32_from_le (take 4 (drop 16 buf)), magic = u32_from_le (take 4 (drop 20 buf))\<rparr>
     in if magic_ok h then Ok h else Err (MagicMismatch (command h XOR 0xFFFFFFFF) (magic h)))"
  by (simp add: AdbMessageHeader_decode_def HEADER_SIZE_def get_at magic_ok_def Let_def)

lemma decode_encode:
  assumes "length out = 24"
  shows "AdbMessageHeader_decode bo (AdbMessageHeader_encode bo h out @ rest) =
    (if magic_ok h then Ok h else Err (MagicMismatch (command h XOR 0xFFFFFFFF) (magic h)))"
  using assms by (cases h) (simp add: decode_fields encode_concat Let_def)

lemma encode_decode:
  assumes "AdbMessageHeader_decode bo buf = Ok h" and "length out = 24"
  shows "24 \<le> length buf \<and> magic_ok h \<and> AdbMessageHeader_encode bo h out = take 24 buf"
proof -
  from assms(1) have len: "24 \<le> length buf"
    by (auto simp: AdbMessageHeader_decode_def HEADER_SIZE_def split: if_splits)
  then show ?thesis
    using assms
    by (auto simp: decode_fields Let_def encode_concat to_from_le layout_simps split: if_splits)
qed

end

section \<open>Sequences of messages\<close>

text \<open>Messages written one after the other, and as many read back.\<close>

definition send_all :: "byteorder \<Rightarrow> (AdbMessageHeader \<times> bytes) list \<Rightarrow> bytes" where
  "send_all bo ms = foldl (\<lambda>written (h, p). send_message bo written h p) [] ms"

fun recv_all ::
  "byteorder \<Rightarrow> nat \<Rightarrow> net \<Rightarrow> ((AdbMessageHeader \<times> bytes) list \<times> net, TransportError) outcome" where
  "recv_all bo 0 net = Ok ([], net)"
| "recv_all bo (Suc n) net =
     and_then (recv_message bo net) (\<lambda>(m, net).
     and_then (recv_all bo n net) (\<lambda>(ms, net). Ok (m # ms, net)))"

text \<open>What a sender has to respect: an intact header for this payload, below the size limit.\<close>

definition sendable :: "AdbMessageHeader \<times> bytes \<Rightarrow> bool" where
  "sendable m = (case m of (h, p) \<Rightarrow>
     magic_ok h \<and> data_length h \<le> MAX_PAYLOAD_V2 \<and> verify_payload h p = Ok ())"

lemma sendable_new:
  assumes "length p \<le> 1024 * 1024"
  shows "sendable (AdbMessageHeader_new c a b p, p)" "sendable (new_v1_legacy c a b p, p)"
  using assms verify_payload_new [of p c a b]
  by (simp_all add: sendable_def word_le_nat_alt MAX_PAYLOAD_V2_def)

lemma send_message_append: "send_message bo w h p = w @ send_message bo [] h p"
  by (simp add: send_message_def Let_def)

lemma send_all_acc:
  "foldl (\<lambda>written (h, p). send_message bo written h p) w ms = w @ send_all bo ms"
proof (induction ms arbitrary: w)
  case (Cons m ms)
  have "\<And>u. foldl (\<lambda>written (h, p). send_message bo written h p) u ms = u @ send_all bo ms"
    by (rule Cons)
  moreover from this have "send_all bo (m # ms) = send_message bo [] (fst m) (snd m) @ send_all bo ms"
    by (simp add: send_all_def [of _ "m # ms"] split: prod.split)
  ultimately show ?case
    by (simp add: send_message_append [of bo w] split: prod.split)
qed (simp add: send_all_def)

lemma send_all_Cons: "send_all bo (m # ms) = send_message bo [] (fst m) (snd m) @ send_all bo ms"
proof (cases m)
  case (Pair h p)
  with send_all_acc [of bo "send_message bo [] h p" ms] show ?thesis
    by (simp add: send_all_def [of _ "(h, p) # ms"])
qed

context little_endian
begin

lemma recv_send:
  assumes "sendable (h, p)" and "delivers net (send_message bo [] h p @ rest)"
  obtains net' where "recv_message bo net = Ok ((h, p), net')" and "delivers net' rest"
proof -
  let ?hdr = "AdbMessageHeader_encode bo h (replicate 24 0)"
  have ok: "magic_ok h" "\<not> data_length h > MAX_PAYLOAD_V2" "verify_payload h p = Ok ()"
    using assms(1) by (simp_all add: sendable_def not_less)
  have len: "length p = unat (data_length h)"
    using ok(3) by (auto simp: verify_payload_def split: if_splits)
  have pos: "data_length h > 0 \<longleftrightarrow> p \<noteq> []"
    using len by (simp add: word_less_nat_alt) (metis length_greater_0_conv)
  have "delivers net (?hdr @ p @ rest)"
    using assms(2) by (simp add: send_message_def Let_def split: if_splits)
  then obtain net1 where r1: "read_exact 24 net = Ok (?hdr, net1)" and d1: "delivers net1 (p @ rest)"
    by (rule read_exact_delivers) simp
  have dec: "AdbMessageHeader_decode bo ?hdr = Ok h"
    using decode_encode [of "replicate 24 0" h "[]"] ok(1) by simp
  show thesis
  proof (cases "p = []")
    case True
    with r1 d1 dec ok pos show thesis by (intro that [of net1]) (simp_all add: recv_message_def)
  next
    case False
    from read_exact_delivers [OF d1] obtain net2 where
      "read_exact (unat (data_length h)) net1 = Ok (p, net2)" and "delivers net2 rest"
      using len by metis
    with r1 dec ok pos False show thesis by (intro that [of net2]) (simp_all add: recv_message_def)
  qed
qed

lemma recv_send_all:
  "\<forall>m \<in> set ms. sendable m \<Longrightarrow> delivers net (send_all bo ms @ rest) \<Longrightarrow>
   \<exists>net'. recv_all bo (length ms) net = Ok (ms, net') \<and> delivers net' rest"
proof (induction ms arbitrary: net)
  case (Cons m ms)
  obtain h p where m: "m = (h, p)" by (cases m)
  from Cons.prems have "sendable (h, p)" "delivers net (send_message bo [] h p @ send_all bo ms @ rest)"
    by (simp_all add: m send_all_Cons)
  from recv_send [OF this] obtain net1 where
    "recv_message bo net = Ok ((h, p), net1)" "delivers net1 (send_all bo ms @ rest)" .
  with Cons.IH [of net1] Cons.prems(1) show ?case by (auto simp: m)
qed (simp add: send_all_def)

end

section \<open>Properties\<close>

text \<open>
  C32: The header codec is a bijection between valid headers and 24-byte images. A buffer decodes to
  \<open>h\<close> exactly when \<open>h\<close> has the complement of its command as magic and the buffer starts with the
  image that \<open>encode\<close> gives \<open>h\<close>.
\<close>

theorem header_decode_iff:
  assumes "little_endian bo"
  shows "AdbMessageHeader_decode bo buf = Ok h \<longleftrightarrow>
    magic_ok h \<and> (\<exists>rest. buf = AdbMessageHeader_encode bo h (replicate 24 0) @ rest)"
proof
  assume "AdbMessageHeader_decode bo buf = Ok h"
  from little_endian.encode_decode [OF assms this, of "replicate 24 0"]
  show "magic_ok h \<and> (\<exists>rest. buf = AdbMessageHeader_encode bo h (replicate 24 0) @ rest)"
    by (metis append_take_drop_id length_replicate)
next
  assume "magic_ok h \<and> (\<exists>rest. buf = AdbMessageHeader_encode bo h (replicate 24 0) @ rest)"
  then show "AdbMessageHeader_decode bo buf = Ok h"
    using little_endian.decode_encode [OF assms, of "replicate 24 0" h] by auto
qed

theorem header_decode_iff_witness:
  "AdbMessageHeader_decode std_byteorder
     (AdbMessageHeader_encode std_byteorder (AdbMessageHeader_new A_OKAY 1 2 []) (replicate 24 0) @ [9]) =
   Ok (AdbMessageHeader_new A_OKAY 1 2 [])"
  using header_decode_iff [OF std_byteorder_little_endian] magic_ok_new(1) by blast

text \<open>
  C8: A stream of messages survives the transport. Whatever sequence of valid messages
  \<open>send_message\<close> writes back to back, and however the network cuts these bytes into segments, as many
  calls of \<open>recv_message\<close> return the same headers and payloads in order and leave the bytes behind
  them in the stream.
\<close>

theorem message_stream_roundtrip:
  assumes "little_endian bo" and "\<forall>m \<in> set ms. sendable m" and "delivers net (send_all bo ms @ rest)"
  shows "\<exists>net'. recv_all bo (length ms) net = Ok (ms, net') \<and> delivers net' rest"
  using assms by (rule little_endian.recv_send_all)

definition sample_messages :: "(AdbMessageHeader \<times> bytes) list" where
  "sample_messages = [(AdbMessageHeader_new A_OPEN 1 0 [115, 104], [115, 104]),
     (new_v1_legacy A_WRTE 1 2 [255, 255], [255, 255]), (AdbMessageHeader_new A_CLSE 1 2 [], [])]"

theorem message_stream_roundtrip_witness:
  "\<exists>net'. recv_all std_byteorder (length sample_messages)
      (segs [take 10 (send_all std_byteorder sample_messages), drop 10 (send_all std_byteorder sample_messages), [1]]) =
     Ok (sample_messages, net') \<and> delivers net' [1]"
proof (rule message_stream_roundtrip [OF std_byteorder_little_endian])
  show "\<forall>m \<in> set sample_messages. sendable m" by (simp add: sample_messages_def sendable_new)
  let ?b = "send_all std_byteorder sample_messages"
  show "delivers (segs [take 10 ?b, drop 10 ?b, [1]]) (?b @ [1])"
    using delivers_segs [of "[take 10 ?b, drop 10 ?b, [1]]"] by (simp add: append_assoc [symmetric] del: append_assoc)
qed

text \<open>
  The legacy checksum detects every corruption of a single payload byte: the header made for a
  payload rejects each payload that differs from it in one byte, with the recomputed sum in the error.
  The one exception is a header whose checksum is zero, which the code takes for "no checksum".
\<close>

theorem checksum_detects_byte_error:
  assumes "b \<noteq> c" and "length (xs @ b # ys) < 2 ^ 32"
    and "calculate_checksum (xs @ b # ys) \<noteq> 0"
  shows "verify_payload (new_v1_legacy cmd a0 a1 (xs @ b # ys)) (xs @ c # ys) =
    Err (ChecksumMismatch (calculate_checksum (xs @ b # ys)) (calculate_checksum (xs @ c # ys)))"
proof -
  have "calculate_checksum (xs @ b # ys) \<noteq> calculate_checksum (xs @ c # ys)"
    using assms(1) by (simp add: checksum_one_byte)
  then show ?thesis using assms(2,3) by (simp add: verify_payload_def Let_def)
qed

theorem checksum_detects_byte_error_witness:
  "verify_payload (new_v1_legacy A_WRTE 1 2 ([1] @ 2 # [3])) ([1] @ 7 # [3]) =
     Err (ChecksumMismatch (calculate_checksum ([1] @ 2 # [3])) (calculate_checksum ([1] @ 7 # [3])))"
  by (rule checksum_detects_byte_error) (simp_all add: calculate_checksum_def)

end
