(* ===== verification/Shell_V2.thy ===== *)
theory Shell_V2
  imports Byteorder Rust_Str
begin

text \<open>
  The shell v2 multiplexing protocol of \<open>crates/adb-protocol/src/shell_v2.rs\<close>: packets
  \<open>[id, length, payload]\<close> that carry the streams of a remote shell, its exit code and changes of
  the terminal's size.
\<close>

definition SHELL_ID_STDIN :: u8 where "SHELL_ID_STDIN = 0"
definition SHELL_ID_STDOUT :: u8 where "SHELL_ID_STDOUT = 1"
definition SHELL_ID_STDERR :: u8 where "SHELL_ID_STDERR = 2"
definition SHELL_ID_EXIT :: u8 where "SHELL_ID_EXIT = 3"
definition SHELL_ID_CLOSE_STDIN :: u8 where "SHELL_ID_CLOSE_STDIN = 4"
definition SHELL_ID_WINDOW_SIZE_CHANGE :: u8 where "SHELL_ID_WINDOW_SIZE_CHANGE = 5"

lemmas shell_id_defs = SHELL_ID_STDIN_def SHELL_ID_STDOUT_def SHELL_ID_STDERR_def
  SHELL_ID_EXIT_def SHELL_ID_CLOSE_STDIN_def SHELL_ID_WINDOW_SIZE_CHANGE_def

datatype ShellV2Error =
    HeaderTooShort
  | PayloadTooShort (ps_expected: nat) (ps_got: nat)
  | UnknownStreamId u8

datatype ShellV2Packet =
    Stdin bytes
  | Stdout bytes
  | Stderr bytes
  | ExitCode u8
  | CloseStdin
  | WindowSizeChange (ws_rows: u16) (ws_cols: u16)

text \<open>\<open>parts.next().and_then(|r| r.parse::<u16>().ok()).unwrap_or(0)\<close>\<close>

definition parse_u16_or_0 :: "rstr option \<Rightarrow> u16" where
  "parse_u16_or_0 part =
     (case Option.bind part (from_str_radix 10 (2 ^ 16)) of Some n \<Rightarrow> of_nat n | None \<Rightarrow> 0)"

definition nth_part :: "nat \<Rightarrow> rstr list \<Rightarrow> rstr option" where
  "nth_part i ps = (if i < length ps then Some (ps ! i) else None)"

definition parse_window_size :: "bytes \<Rightarrow> u16 \<times> u16" where
  "parse_window_size payload =
     (case from_utf8 payload of
        Some s \<Rightarrow>
          (let s = trim (trim_matches 0 s);
               main_part = (case nth_part 0 (split_on 0x2C s) of Some m \<Rightarrow> m | None \<Rightarrow> []);
               parts = split_on 0x78 main_part;
               rows = parse_u16_or_0 (nth_part 0 parts);
               cols = parse_u16_or_0 (nth_part 1 parts)
           in (rows, cols))
      | None \<Rightarrow> (0, 0))"

text \<open>The packet for an id and a payload: the final match of the parser.\<close>

definition packet_of :: "u8 \<Rightarrow> bytes \<Rightarrow> (ShellV2Packet, ShellV2Error) outcome" where
  "packet_of sid payload =
     (if sid = SHELL_ID_STDIN then Ok (Stdin payload)
      else if sid = SHELL_ID_STDOUT then Ok (Stdout payload)
      else if sid = SHELL_ID_STDERR then Ok (Stderr payload)
      else if sid = SHELL_ID_EXIT then Ok (ExitCode (case payload of [] \<Rightarrow> 0 | b # _ \<Rightarrow> b))
      else if sid = SHELL_ID_CLOSE_STDIN then Ok CloseStdin
      else if sid = SHELL_ID_WINDOW_SIZE_CHANGE then
        (let (rows, cols) = parse_window_size payload in Ok (WindowSizeChange rows cols))
      else Err (UnknownStreamId sid))"

definition ShellV2Packet_parse ::
  "byteorder \<Rightarrow> bytes \<Rightarrow> (ShellV2Packet \<times> nat, ShellV2Error) outcome" where
  "ShellV2Packet_parse bo buf =
     (if length buf < 5 then Err HeaderTooShort
      else and_then (index buf 0) (\<lambda>id.
           and_then (get_u32 bo buf 1) (\<lambda>len32.
             let len = unat len32 in
             if length buf < 5 + len then Err (PayloadTooShort (5 + len) (length buf))
             else and_then (slice buf 5 (5 + len)) (\<lambda>payload.
               let consumed = 5 + len in
               and_then (packet_of id payload) (\<lambda>pkt. Ok (pkt, consumed))))))"

fun ShellV2Packet_encode :: "ShellV2Packet \<Rightarrow> bytes \<Rightarrow> bytes" where
  "ShellV2Packet_encode (Stdin data) out =
     out @ [SHELL_ID_STDIN] @ u32_to_le (as_u32 (length data)) @ data"
| "ShellV2Packet_encode (Stdout data) out =
     out @ [SHELL_ID_STDOUT] @ u32_to_le (as_u32 (length data)) @ data"
| "ShellV2Packet_encode (Stderr data) out =
     out @ [SHELL_ID_STDERR] @ u32_to_le (as_u32 (length data)) @ data"
| "ShellV2Packet_encode (ExitCode code) out = out @ [SHELL_ID_EXIT] @ u32_to_le 1 @ [code]"
| "ShellV2Packet_encode CloseStdin out = out @ [SHELL_ID_CLOSE_STDIN] @ u32_to_le 0"
| "ShellV2Packet_encode (WindowSizeChange rows cols) out =
     (let data = fmt_dec (unat rows) @ [0x78] @ fmt_dec (unat cols) @ [0]
      in out @ [SHELL_ID_WINDOW_SIZE_CHANGE] @ u32_to_le (as_u32 (length data)) @ data)"

text \<open>The id and the payload a packet is sent with.\<close>

fun packet_frame :: "ShellV2Packet \<Rightarrow> u8 \<times> bytes" where
  "packet_frame (Stdin data) = (SHELL_ID_STDIN, data)"
| "packet_frame (Stdout data) = (SHELL_ID_STDOUT, data)"
| "packet_frame (Stderr data) = (SHELL_ID_STDERR, data)"
| "packet_frame (ExitCode code) = (SHELL_ID_EXIT, [code])"
| "packet_frame CloseStdin = (SHELL_ID_CLOSE_STDIN, [])"
| "packet_frame (WindowSizeChange rows cols) =
     (SHELL_ID_WINDOW_SIZE_CHANGE, fmt_dec (unat rows) @ [0x78] @ fmt_dec (unat cols) @ [0])"

lemma encode_frame:
  "ShellV2Packet_encode pkt out =
     out @ fst (packet_frame pkt) # u32_to_le (as_u32 (length (snd (packet_frame pkt)))) @ snd (packet_frame pkt)"
  by (cases pkt) (simp_all add: as_u32_def)

section \<open>Window sizes\<close>

lemma fmt_dec_digits: "b \<in> set (fmt_dec n) \<Longrightarrow> \<exists>d < 10. b = digit_char d"
  using fmt_radix_digits [of 10 n] by (auto simp: fmt_dec_def)

lemma fmt_dec_bytes: "b \<in> set (fmt_dec n) \<Longrightarrow> 0x30 \<le> b \<and> b \<le> 0x39"
proof -
  have "list_all (\<lambda>d. 0x30 \<le> digit_char d \<and> digit_char d \<le> 0x39) [0..<10]"
    by code_simp
  then show "b \<in> set (fmt_dec n) \<Longrightarrow> 0x30 \<le> b \<and> b \<le> 0x39"
    by (auto simp: list_all_iff dest!: fmt_dec_digits)
qed

lemma fmt_dec_ne [simp]: "fmt_dec n \<noteq> []"
  by (simp add: fmt_dec_def)

lemma parse_window_size_fmt:
  "parse_window_size (fmt_dec (unat r) @ [0x78] @ fmt_dec (unat c) @ [0]) = (r, c)"
proof -
  let ?a = "fmt_dec (unat r)" and ?b = "fmt_dec (unat c)"
  let ?s = "?a @ 0x78 # ?b"
  have digits: "\<And>b. b \<in> set ?a \<union> set ?b \<Longrightarrow> 0x30 \<le> b \<and> b \<le> 0x39"
    using fmt_dec_bytes by blast
  have ascii: "list_all (\<lambda>b. b < 0x80) (?s @ [0])"
    using digits by (auto simp: list_all_iff intro: order_le_less_trans [where y = "0x39"])
  have no: "0x2C \<notin> set ?s" "0x78 \<notin> set ?a" "0x78 \<notin> set ?b"
    using digits by fastforce+
  have tm: "trim_matches 0 (?s @ [0]) = ?s"
    using digits [of "hd ?a"] digits [of "last ?b"] by (intro trim_matches_snoc) auto
  have g: "\<And>b. b \<in> set ?a \<union> set ?b \<Longrightarrow> ascii_graphic b"
    using digits order_trans [of "0x21" "0x30 :: u8"] order_trans [of _ "0x39 :: u8" "0x7E"]
    by (simp add: ascii_graphic_def)
  have hd: "ascii_graphic (hd ?s)" "ascii_graphic (last ?s)"
    using g by simp_all
  have tr: "trim ?s = ?s"
    using hd by (intro trim_graphic) auto
  have num: "from_str_radix 10 65536 (fmt_dec (unat w)) = Some (unat w)" for w :: u16
    using from_str_fmt_dec [of "unat w" 65536] unsigned_less [where 'a = nat, of w] by simp
  show ?thesis
    using ascii no tm tr num
    by (simp add: parse_window_size_def from_utf8_def utf8_valid_ascii Let_def nth_part_def
        split_on_no_sep split_on_append parse_u16_or_0_def)
qed

section \<open>Packets\<close>

lemma index_Cons_0 [simp]: "index (x # xs) 0 = Ok x"
  by (simp add: index_def)

lemma packet_of_frame: "packet_of (fst (packet_frame pkt)) (snd (packet_frame pkt)) = Ok pkt"
  using parse_window_size_fmt by (cases pkt) (simp_all add: packet_of_def shell_id_defs)

context little_endian
begin

lemma parse_eq:
  assumes "5 \<le> length buf"
  shows "ShellV2Packet_parse bo buf =
     (let n = 5 + le_nat (take 4 (drop 1 buf)) in
      if length buf < n then Err (PayloadTooShort n (length buf))
      else and_then (packet_of (buf ! 0) (take (n - 5) (drop 5 buf))) (\<lambda>p. Ok (p, n)))"
proof -
  from assms have "buf \<noteq> []" by auto
  with assms show ?thesis
    by (simp add: ShellV2Packet_parse_def get_at outcome_simps unat_from_le Let_def index_def)
qed

lemma parse_encode:
  assumes "length (snd (packet_frame pkt)) < 2 ^ 32"
  shows "ShellV2Packet_parse bo (ShellV2Packet_encode pkt [] @ rest) =
    Ok (pkt, length (ShellV2Packet_encode pkt []))"
proof -
  let ?data = "snd (packet_frame pkt)"
  have "le_nat (u32_to_le (as_u32 (length ?data))) = length ?data"
    using assms unat_from_le(2) [of "u32_to_le (as_u32 (length ?data))"] by simp
  then show ?thesis by (simp add: encode_frame parse_eq packet_of_frame Let_def)
qed

lemma parse_OkD:
  assumes "ShellV2Packet_parse bo buf = Ok (pkt, n)"
  shows "n = 5 + le_nat (take 4 (drop 1 buf))" "n \<le> length buf"
    "packet_of (buf ! 0) (take (n - 5) (drop 5 buf)) = Ok pkt"
proof -
  have "5 \<le> length buf"
    using assms by (auto simp: ShellV2Packet_parse_def split: if_splits)
  with assms show "n = 5 + le_nat (take 4 (drop 1 buf))" "n \<le> length buf"
    "packet_of (buf ! 0) (take (n - 5) (drop 5 buf)) = Ok pkt"
    by (auto simp: parse_eq Let_def split: if_splits)
qed

lemma parse_prefix:
  assumes "ShellV2Packet_parse bo buf = Ok (pkt, n)" and "k < n"
  shows "ShellV2Packet_parse bo (take k buf) =
    Err (if k < 5 then HeaderTooShort else PayloadTooShort n k)"
proof (cases "k < 5")
  case True
  then have "length (take k buf) < 5" by simp
  with True show ?thesis by (simp only: ShellV2Packet_parse_def if_True)
next
  case False
  note n = parse_OkD [OF assms(1)]
  from False assms(2) n(2) have "length (take k buf) = k" "take 4 (drop 1 (take k buf)) = take 4 (drop 1 buf)"
    by (simp_all add: drop_take min_def)
  with False assms(2) n(1) show ?thesis by (simp add: parse_eq Let_def)
qed

lemma parse_extend:
  assumes "ShellV2Packet_parse bo buf = Ok (pkt, n)"
  shows "ShellV2Packet_parse bo (take n buf @ rest) = Ok (pkt, n)"
proof -
  note n = parse_OkD [OF assms]
  have "take 4 (drop 1 (take n buf @ rest)) = take 4 (drop 1 buf)"
    "(take n buf @ rest) ! 0 = buf ! 0" "5 \<le> n"
    "take (n - 5) (drop 5 (take n buf @ rest)) = take (n - 5) (drop 5 buf)"
    using n(1,2) by (simp_all add: drop_take nth_append)
  with n show ?thesis by (simp add: parse_eq Let_def)
qed

end

section \<open>Properties\<close>

text \<open>
  C39: Every packet the encoder can express (payload length in 32 bits) is parsed back from the wire,
  whatever bytes follow it, and exactly its bytes are consumed. For a window change this covers the
  decimal text form with its terminating NUL.
\<close>

theorem shell_v2_roundtrip:
  assumes "little_endian bo" and "length (snd (packet_frame pkt)) < 2 ^ 32"
  shows "ShellV2Packet_parse bo (ShellV2Packet_encode pkt [] @ rest) =
    Ok (pkt, length (ShellV2Packet_encode pkt []))"
  using assms by (rule little_endian.parse_encode)

theorem shell_v2_roundtrip_witness:
  "ShellV2Packet_parse std_byteorder (ShellV2Packet_encode (WindowSizeChange 24 80) [] @ [7, 7]) =
     Ok (WindowSizeChange 24 80, length (ShellV2Packet_encode (WindowSizeChange 24 80) []))"
proof -
  have "length (snd (packet_frame (WindowSizeChange 24 80))) = 6" by code_simp
  then have "length (snd (packet_frame (WindowSizeChange 24 80))) < 2 ^ 32" by simp
  from shell_v2_roundtrip [OF std_byteorder_little_endian this] show ?thesis .
qed

text \<open>
  Incremental parsing of the shell stream is sound. When a packet of \<open>n\<close> bytes starts at the front
  of the buffer, every shorter prefix is reported as incomplete with the exact number of bytes
  needed, and the packet found does not depend on what follows it.
\<close>

theorem shell_v2_incremental:
  assumes "little_endian bo" and "ShellV2Packet_parse bo buf = Ok (pkt, n)"
  shows "n \<le> length buf \<and>
    (\<forall>k < n. ShellV2Packet_parse bo (take k buf) =
       Err (if k < 5 then HeaderTooShort else PayloadTooShort n k)) \<and>
    (\<forall>rest. ShellV2Packet_parse bo (take n buf @ rest) = Ok (pkt, n))"
  using little_endian.parse_OkD(2) [OF assms] little_endian.parse_prefix [OF assms]
    little_endian.parse_extend [OF assms] by blast

theorem shell_v2_incremental_witness:
  "ShellV2Packet_parse std_byteorder (take 6 [1, 2, 0, 0, 0, 104, 105, 9]) = Err (PayloadTooShort 7 6)"
proof -
  have "ShellV2Packet_parse std_byteorder [1, 2, 0, 0, 0, 104, 105, 9] = Ok (Stdout [104, 105], 7)"
    by code_simp
  from shell_v2_incremental [OF std_byteorder_little_endian this]
  have "\<forall>k < 7. ShellV2Packet_parse std_byteorder (take k [1, 2, 0, 0, 0, 104, 105, 9]) =
       Err (if k < 5 then HeaderTooShort else PayloadTooShort 7 k)" by blast
  then have "ShellV2Packet_parse std_byteorder (take 6 [1, 2, 0, 0, 0, 104, 105, 9]) =
       Err (if 6 < (5::nat) then HeaderTooShort else PayloadTooShort 7 6)" by (rule allE [of _ 6]) simp
  then show ?thesis by simp
qed

end
