(* ===== verification/Compress.thy ===== *)
theory Compress
  imports Rust_Str
begin

text \<open>
  \<open>crates/adb-protocol/src/compress.rs\<close>: the codecs of the sendrecv_v2 extension and their flags.
  The compression libraries (\<open>brotli\<close>, \<open>lz4_flex\<close>, \<open>zstd\<close>) are external crates: the record
  \<open>codecs\<close> holds the functions the source calls, and \<open>codecs_lossless\<close> states what their
  documentation promises.
\<close>

definition SYNC_FLAG_NONE :: u32 where "SYNC_FLAG_NONE = 0"
definition SYNC_FLAG_BROTLI :: u32 where "SYNC_FLAG_BROTLI = 1"
definition SYNC_FLAG_LZ4 :: u32 where "SYNC_FLAG_LZ4 = 2"
definition SYNC_FLAG_ZSTD :: u32 where "SYNC_FLAG_ZSTD = 4"
definition SYNC_FLAG_DRY_RUN :: u32 where "SYNC_FLAG_DRY_RUN = 0x80000000"

lemmas sync_flag_defs = SYNC_FLAG_NONE_def SYNC_FLAG_BROTLI_def SYNC_FLAG_LZ4_def
  SYNC_FLAG_ZSTD_def SYNC_FLAG_DRY_RUN_def

datatype CompressionError = CompressFailed rstr | DecompressFailed rstr | UnknownType u32

definition CompressionError_to_string :: "CompressionError \<Rightarrow> rstr" where
  "CompressionError_to_string e =
     (case e of
        CompressFailed s \<Rightarrow> str ''Compression failed: '' @ s
      | DecompressFailed s \<Rightarrow> str ''Decompression failed: '' @ s
      | UnknownType n \<Rightarrow> str ''Unknown compression type: '' @ fmt_dec (unat n))"

datatype CompressionType = NoCompression | Brotli | LZ4 | Zstd

fun to_flag :: "CompressionType \<Rightarrow> u32" where
  "to_flag NoCompression = SYNC_FLAG_NONE"
| "to_flag Brotli = SYNC_FLAG_BROTLI"
| "to_flag LZ4 = SYNC_FLAG_LZ4"
| "to_flag Zstd = SYNC_FLAG_ZSTD"

definition from_flag :: "u32 \<Rightarrow> (CompressionType, CompressionError) outcome" where
  "from_flag flag =
     (if flag = SYNC_FLAG_NONE then Ok NoCompression
      else if flag = SYNC_FLAG_BROTLI then Ok Brotli
      else if flag = SYNC_FLAG_LZ4 then Ok LZ4
      else if flag = SYNC_FLAG_ZSTD then Ok Zstd
      else Err (UnknownType flag))"

text \<open>The external functions; an error carries its \<open>to_string()\<close>.\<close>

record codecs =
  BrotliCompress :: "bytes \<Rightarrow> (bytes, rstr) outcome"
  BrotliDecompress :: "bytes \<Rightarrow> (bytes, rstr) outcome"
  lz4_compress_prepend_size :: "bytes \<Rightarrow> bytes"
  lz4_decompress_size_prepended :: "bytes \<Rightarrow> (bytes, rstr) outcome"
  zstd_encode_all :: "bytes \<Rightarrow> (bytes, rstr) outcome"
  zstd_decode_all :: "bytes \<Rightarrow> (bytes, rstr) outcome"

fun compress :: "codecs \<Rightarrow> CompressionType \<Rightarrow> bytes \<Rightarrow> (bytes, CompressionError) outcome" where
  "compress cs NoCompression data = Ok data"
| "compress cs Brotli data = map_err CompressFailed (BrotliCompress cs data)"
| "compress cs LZ4 data = Ok (lz4_compress_prepend_size cs data)"
| "compress cs Zstd data = map_err CompressFailed (zstd_encode_all cs data)"

fun decompress :: "codecs \<Rightarrow> CompressionType \<Rightarrow> bytes \<Rightarrow> (bytes, CompressionError) outcome" where
  "decompress cs NoCompression data = Ok data"
| "decompress cs Brotli data = map_err DecompressFailed (BrotliDecompress cs data)"
| "decompress cs LZ4 data = map_err DecompressFailed (lz4_decompress_size_prepended cs data)"
| "decompress cs Zstd data = map_err DecompressFailed (zstd_decode_all cs data)"

text \<open>
  The documented contract of the codec crates: decompression inverts compression, and the
  compressed form of an input is never larger than \<open>2 * n + 1024\<close> bytes (the worst-case bounds of
  Brotli, LZ4 block format and Zstandard are all below that).
\<close>

definition codecs_lossless :: "codecs \<Rightarrow> bool" where
  "codecs_lossless cs \<longleftrightarrow>
     (\<forall>d c. BrotliCompress cs d = Ok c \<longrightarrow>
        BrotliDecompress cs c = Ok d \<and> length c \<le> 2 * length d + 1024) \<and>
     (\<forall>d. lz4_decompress_size_prepended cs (lz4_compress_prepend_size cs d) = Ok d \<and>
        length (lz4_compress_prepend_size cs d) \<le> 2 * length d + 1024) \<and>
     (\<forall>d c. zstd_encode_all cs d = Ok c \<longrightarrow>
        zstd_decode_all cs c = Ok d \<and> length c \<le> 2 * length d + 1024)"

lemma from_flag_to_flag [simp]: "from_flag (to_flag ct) = Ok ct"
  by (cases ct) (simp_all add: from_flag_def sync_flag_defs)

lemma from_flag_eq_Ok: "from_flag w = Ok ct \<longleftrightarrow> w = to_flag ct"
  by (cases ct) (auto simp: from_flag_def sync_flag_defs)

lemma decompress_compress:
  assumes "codecs_lossless cs" and "compress cs ct d = Ok c"
  shows "decompress cs ct c = Ok d" "length c \<le> 2 * length d + 1024"
  using assms by (cases ct; auto simp: codecs_lossless_def)+

text \<open>Stored (uncompressed) blocks satisfy the contract.\<close>

definition stored_codecs :: codecs where
  "stored_codecs = \<lparr>BrotliCompress = Ok, BrotliDecompress = Ok, lz4_compress_prepend_size = (\<lambda>d. d),
     lz4_decompress_size_prepended = Ok, zstd_encode_all = Ok, zstd_decode_all = Ok\<rparr>"

lemma stored_codecs_lossless: "codecs_lossless stored_codecs"
  by (simp add: codecs_lossless_def stored_codecs_def)

end
