(* ===== verification/Adb_Sync.thy ===== *)
theory Adb_Sync
  imports Adb_Header Compress
begin

text \<open>
  The file synchronisation sub-protocol, \<open>crates/adb-protocol/src/sync.rs\<close>: headers, stat and
  directory-entry responses of both versions, request builders, and the encoder and decoder of
  compressed \<open>DATA\<close> frames (sendrecv_v2). The compression codecs come from \<open>Compress\<close>.
\<close>

section \<open>Constants, errors, paths\<close>

definition SYNC_STAT :: u32 where "SYNC_STAT = 0x54415453"
definition SYNC_LIST :: u32 where "SYNC_LIST = 0x5453494C"
definition SYNC_SEND :: u32 where "SYNC_SEND = 0x444E4553"
definition SYNC_RECV :: u32 where "SYNC_RECV = 0x56434552"
definition SYNC_DONE :: u32 where "SYNC_DONE = 0x454E4F44"
definition SYNC_DATA :: u32 where "SYNC_DATA = 0x41544144"
definition SYNC_SEND_V2 :: u32 where "SYNC_SEND_V2 = 0x32444E53"
definition SYNC_RECV_V2 :: u32 where "SYNC_RECV_V2 = 0x32505643"
definition SYNC_DATA_MAX :: nat where "SYNC_DATA_MAX = 64 * 1024"

datatype SyncProtocolError =
    SyncHeaderTooShort (sh_expected: nat) (sh_got: nat)
  | SyncFail rstr
  | InvalidPath rstr
  | InvalidMessage rstr
  | UnsupportedCompression u32

definition validate_path :: "rstr \<Rightarrow> bool \<Rightarrow> (unit, SyncProtocolError) outcome" where
  "validate_path path allow_comma =
     (if path = [] then Err (InvalidPath (str ''Path cannot be empty''))
      else if 0 \<in> set path then Err (InvalidPath (str ''Path cannot contain NUL byte''))
      else if \<not> allow_comma \<and> 0x2C \<in> set path then
        Err (InvalidPath (str ''Path cannot contain '' @ [0x27, 0x2C, 0x27] @ str '' in V1 SEND request''))
      else if try_u32 (length path) = None then
        Err (InvalidPath (str ''Path length exceeds u32::MAX''))
      else Ok ())"

text \<open>An \<open>i64\<close> is a 64-bit word read with its sign.\<close>

definition saturating_mtime_u32 :: "i64 \<Rightarrow> u32" where
  "saturating_mtime_u32 mtime =
     (if sint mtime < 0 then 0
      else (case try_u32 (nat (sint mtime)) of Some w \<Rightarrow> w | None \<Rightarrow> 0xFFFFFFFF))"

section \<open>Headers and stat responses\<close>

record SyncMessageHeader =
  sm_id :: u32
  sm_length :: u32

definition SyncMessageHeader_encode :: "byteorder \<Rightarrow> SyncMessageHeader \<Rightarrow> bytes \<Rightarrow> bytes" where
  "SyncMessageHeader_encode bo h out =
     (let out = put 0 (write_u32 bo (sm_id h)) out;
          out = put 4 (write_u32 bo (sm_length h)) out
      in out)"

definition SyncMessageHeader_decode :: "byteorder \<Rightarrow> bytes \<Rightarrow> (SyncMessageHeader, SyncProtocolError) outcome" where
  "SyncMessageHeader_decode bo buf =
     (if length buf < 8 then Err (SyncHeaderTooShort 8 (length buf))
      else and_then (get_u32 bo buf 0) (\<lambda>i.
           and_then (get_u32 bo buf 4) (\<lambda>len. Ok \<lparr>sm_id = i, sm_length = len\<rparr>)))"

record SyncStatResponse =
  st_mode :: u32
  st_size :: u32
  st_mtime :: u32

definition SyncStatResponse_exists :: "SyncStatResponse \<Rightarrow> bool" where
  "SyncStatResponse_exists s \<longleftrightarrow> st_mode s \<noteq> 0 \<or> st_size s \<noteq> 0 \<or> st_mtime s \<noteq> 0"

definition SyncStatResponse_decode :: "byteorder \<Rightarrow> bytes \<Rightarrow> (SyncStatResponse, SyncProtocolError) outcome" where
  "SyncStatResponse_decode bo buf =
     (if length buf < 12 then Err (SyncHeaderTooShort 12 (length buf))
      else and_then (get_u32 bo buf 0) (\<lambda>md.
           and_then (get_u32 bo buf 4) (\<lambda>sz.
           and_then (get_u32 bo buf 8) (\<lambda>mt.
             Ok \<lparr>st_mode = md, st_size = sz, st_mtime = mt\<rparr>))))"

definition decode_v1_message :: "byteorder \<Rightarrow> bytes \<Rightarrow> (SyncStatResponse, SyncProtocolError) outcome" where
  "decode_v1_message bo buf =
     (if length buf < 16 then Err (SyncHeaderTooShort 16 (length buf))
      else if length buf \<noteq> 16 \<or> take 4 buf \<noteq> str ''STAT'' then
        Err (InvalidMessage (str ''V1 STAT must be exactly [STAT, mode, size, mtime] (16 bytes)''))
      else and_then (slice_from buf 4) (SyncStatResponse_decode bo))"

definition SyncStatResponse_encode :: "byteorder \<Rightarrow> SyncStatResponse \<Rightarrow> bytes \<Rightarrow> bytes" where
  "SyncStatResponse_encode bo s out =
     (let out = put 0 (write_u32 bo (st_mode s)) out;
          out = put 4 (write_u32 bo (st_size s)) out;
          out = put 8 (write_u32 bo (st_mtime s)) out
      in out)"

record SyncStatV2Response =
  s2_id :: u32
  s2_error :: u32
  s2_dev :: u64
  s2_ino :: u64
  s2_mode :: u32
  s2_nlink :: u32
  s2_uid :: u32
  s2_gid :: u32
  s2_size :: u64
  s2_atime :: i64
  s2_mtime :: i64
  s2_ctime :: i64

definition SyncStatV2Response_is_ok :: "SyncStatV2Response \<Rightarrow> bool" where
  "SyncStatV2Response_is_ok s \<longleftrightarrow> s2_error s = 0"

definition mtime_u32 :: "SyncStatV2Response \<Rightarrow> u32" where
  "mtime_u32 s = saturating_mtime_u32 (s2_mtime s)"

definition SyncStatV2Response_decode :: "byteorder \<Rightarrow> bytes \<Rightarrow> (SyncStatV2Response, SyncProtocolError) outcome" where
  "SyncStatV2Response_decode bo buf =
     (if length buf < 72 then Err (SyncHeaderTooShort 72 (length buf))
      else and_then (get_u32 bo buf 0) (\<lambda>i.
           and_then (get_u32 bo buf 4) (\<lambda>err.
           and_then (get_u64 bo buf 8) (\<lambda>dv.
           and_then (get_u64 bo buf 16) (\<lambda>ino.
           and_then (get_u32 bo buf 24) (\<lambda>md.
           and_then (get_u32 bo buf 28) (\<lambda>nl.
           and_then (get_u32 bo buf 32) (\<lambda>ui.
           and_then (get_u32 bo buf 36) (\<lambda>gi.
           and_then (get_u64 bo buf 40) (\<lambda>sz.
           and_then (get_u64 bo buf 48) (\<lambda>at.
           and_then (get_u64 bo buf 56) (\<lambda>mt.
           and_then (get_u64 bo buf 64) (\<lambda>ct.
             Ok \<lparr>s2_id = i, s2_error = err, s2_dev = dv, s2_ino = ino, s2_mode = md, s2_nlink = nl,
                 s2_uid = ui, s2_gid = gi, s2_size = sz, s2_atime = at, s2_mtime = mt, s2_ctime = ct\<rparr>)))))))))))))"

definition SyncStatV2Response_encode :: "byteorder \<Rightarrow> SyncStatV2Response \<Rightarrow> bytes \<Rightarrow> bytes" where
  "SyncStatV2Response_encode bo s out =
     (let out = put 0 (write_u32 bo (s2_id s)) out;
          out = put 4 (write_u32 bo (s2_error s)) out;
          out = put 8 (write_u64 bo (s2_dev s)) out;
          out = put 16 (write_u64 bo (s2_ino s)) out;
          out = put 24 (write_u32 bo (s2_mode s)) out;
          out = put 28 (write_u32 bo (s2_nlink s)) out;
          out = put 32 (write_u32 bo (s2_uid s)) out;
          out = put 36 (write_u32 bo (s2_gid s)) out;
          out = put 40 (write_u64 bo (s2_size s)) out;
          out = put 48 (write_u64 bo (s2_atime s)) out;
          out = put 56 (write_u64 bo (s2_mtime s)) out;
          out = put 64 (write_u64 bo (s2_ctime s)) out
      in out)"

section \<open>Requests\<close>

text \<open>Every builder appends an 8-byte header and a body to \<open>out\<close>.\<close>

definition push_header :: "byteorder \<Rightarrow> u32 \<Rightarrow> u32 \<Rightarrow> bytes \<Rightarrow> bytes" where
  "push_header bo i len out =
     (let hdr = \<lparr>sm_id = i, sm_length = len\<rparr>;
          hdr_buf = SyncMessageHeader_encode bo hdr (replicate 8 0)
      in out @ hdr_buf)"

definition build_sync_send_req :: "byteorder \<Rightarrow> rstr \<Rightarrow> u32 \<Rightarrow> bytes \<Rightarrow> (bytes, SyncProtocolError) outcome" where
  "build_sync_send_req bo remote_path md out =
     and_then (validate_path remote_path False) (\<lambda>_.
       let req_str = remote_path @ [0x2C] @ fmt_dec (unat md) in
       and_then (ok_or (try_u32 (length req_str))
           (InvalidPath (str ''Request payload length exceeds u32::MAX''))) (\<lambda>len.
         Ok (push_header bo SYNC_SEND len out @ req_str)))"

definition build_sync_data_chunk :: "byteorder \<Rightarrow> bytes \<Rightarrow> bytes \<Rightarrow> (bytes, SyncProtocolError) outcome" where
  "build_sync_data_chunk bo chunk out =
     and_then (ok_or (try_u32 (length chunk))
         (InvalidMessage (str ''Data chunk size exceeds u32::MAX''))) (\<lambda>len.
       Ok (push_header bo SYNC_DATA len out @ chunk))"

definition build_sync_done :: "byteorder \<Rightarrow> u32 \<Rightarrow> bytes \<Rightarrow> (bytes, SyncProtocolError) outcome" where
  "build_sync_done bo mtime out = Ok (push_header bo SYNC_DONE mtime out)"

definition build_sync_done_u64 :: "byteorder \<Rightarrow> u64 \<Rightarrow> bytes \<Rightarrow> (bytes, SyncProtocolError) outcome" where
  "build_sync_done_u64 bo mtime out =
     (let m = (case try_u32 (unat mtime) of Some w \<Rightarrow> w | None \<Rightarrow> 0xFFFFFFFF)
      in build_sync_done bo m out)"

definition build_sync_recv_req :: "byteorder \<Rightarrow> rstr \<Rightarrow> bytes \<Rightarrow> (bytes, SyncProtocolError) outcome" where
  "build_sync_recv_req bo remote_path out =
     and_then (validate_path remote_path True) (\<lambda>_.
     and_then (ok_or (try_u32 (length remote_path))
         (InvalidPath (str ''Remote path length exceeds u32::MAX''))) (\<lambda>len.
       Ok (push_header bo SYNC_RECV len out @ remote_path)))"

definition build_sync_list_req :: "byteorder \<Rightarrow> rstr \<Rightarrow> bytes \<Rightarrow> (bytes, SyncProtocolError) outcome" where
  "build_sync_list_req bo remote_path out =
     and_then (validate_path remote_path True) (\<lambda>_.
     and_then (ok_or (try_u32 (length remote_path))
         (InvalidPath (str ''Remote path length exceeds u32::MAX''))) (\<lambda>len.
       Ok (push_header bo SYNC_LIST len out @ remote_path)))"

definition build_sync_stat_req :: "byteorder \<Rightarrow> rstr \<Rightarrow> bytes \<Rightarrow> (bytes, SyncProtocolError) outcome" where
  "build_sync_stat_req bo remote_path out =
     and_then (validate_path remote_path True) (\<lambda>_.
     and_then (ok_or (try_u32 (length remote_path))
         (InvalidPath (str ''Remote path length exceeds u32::MAX''))) (\<lambda>len.
       Ok (push_header bo SYNC_STAT len out @ remote_path)))"

definition build_send_v2_req ::
  "byteorder \<Rightarrow> rstr \<Rightarrow> u32 \<Rightarrow> u32 \<Rightarrow> bytes \<Rightarrow> (bytes, SyncProtocolError) outcome" where
  "build_send_v2_req bo path md flags out =
     and_then (validate_path path True) (\<lambda>_.
     and_then (ok_or (try_u32 (length path)) (InvalidPath (str ''Path length exceeds u32::MAX''))) (\<lambda>len.
       let out = push_header bo SYNC_SEND_V2 len out @ path;
           extra = replicate 12 0;
           extra = put 0 (write_u32 bo SYNC_SEND_V2) extra;
           extra = put 4 (write_u32 bo md) extra;
           extra = put 8 (write_u32 bo flags) extra
       in Ok (out @ extra)))"

definition build_recv_v2_req ::
  "byteorder \<Rightarrow> rstr \<Rightarrow> u32 \<Rightarrow> bytes \<Rightarrow> (bytes, SyncProtocolError) outcome" where
  "build_recv_v2_req bo path flags out =
     and_then (validate_path path True) (\<lambda>_.
     and_then (ok_or (try_u32 (length path)) (InvalidPath (str ''Path length exceeds u32::MAX''))) (\<lambda>len.
       let out = push_header bo SYNC_RECV_V2 len out @ path;
           extra = replicate 8 0;
           extra = put 0 (write_u32 bo SYNC_RECV_V2) extra;
           extra = put 4 (write_u32 bo flags) extra
       in Ok (out @ extra)))"

definition build_sync_data_block :: "byteorder \<Rightarrow> bytes \<Rightarrow> bytes \<Rightarrow> (bytes, SyncProtocolError) outcome" where
  "build_sync_data_block bo compressed_data out =
     and_then (ok_or (try_u32 (length compressed_data))
         (InvalidMessage (str ''Compressed data size exceeds u32::MAX''))) (\<lambda>len.
       Ok (push_header bo SYNC_DATA len out @ compressed_data))"

section \<open>Compressed transfers (sendrecv_v2)\<close>

definition count_ones :: "u32 \<Rightarrow> nat" where
  "count_ones w = length (filter (bit w) [0..<32])"

definition compression_from_v2_flags :: "u32 \<Rightarrow> (CompressionType, SyncProtocolError) outcome" where
  "compression_from_v2_flags flags =
     (let codec_flags = SYNC_FLAG_BROTLI OR SYNC_FLAG_LZ4 OR SYNC_FLAG_ZSTD;
          unknown = flags AND NOT (codec_flags OR SYNC_FLAG_DRY_RUN);
          selected = flags AND codec_flags
      in if unknown \<noteq> 0 \<or> count_ones selected > 1 then Err (UnsupportedCompression flags)
         else map_err (\<lambda>_. UnsupportedCompression flags) (from_flag selected))"

record SyncV2Encoder =
  enc_compression :: CompressionType
  enc_setup :: bytes

definition new_send :: "byteorder \<Rightarrow> rstr \<Rightarrow> u32 \<Rightarrow> u32 \<Rightarrow> (SyncV2Encoder, SyncProtocolError) outcome" where
  "new_send bo path md flags =
     and_then (compression_from_v2_flags flags) (\<lambda>c.
     and_then (build_send_v2_req bo path md flags []) (\<lambda>setup.
       Ok \<lparr>enc_compression = c, enc_setup = setup\<rparr>))"

definition new_recv :: "byteorder \<Rightarrow> rstr \<Rightarrow> u32 \<Rightarrow> (SyncV2Encoder, SyncProtocolError) outcome" where
  "new_recv bo path flags =
     and_then (compression_from_v2_flags flags) (\<lambda>c.
     and_then (build_recv_v2_req bo path flags []) (\<lambda>setup.
       Ok \<lparr>enc_compression = c, enc_setup = setup\<rparr>))"

definition encode_setup :: "SyncV2Encoder \<Rightarrow> bytes \<Rightarrow> (bytes, SyncProtocolError) outcome" where
  "encode_setup e out = Ok (out @ enc_setup e)"

fun encode_chunks ::
  "byteorder \<Rightarrow> codecs \<Rightarrow> CompressionType \<Rightarrow> bytes list \<Rightarrow> bytes \<Rightarrow> (bytes, SyncProtocolError) outcome" where
  "encode_chunks bo cs ct [] out = Ok out"
| "encode_chunks bo cs ct (chunk # rest) out =
     and_then (map_err (\<lambda>e. InvalidMessage (CompressionError_to_string e)) (compress cs ct chunk)) (\<lambda>compressed.
     and_then (build_sync_data_block bo compressed out) (\<lambda>out. encode_chunks bo cs ct rest out))"

definition encode_data ::
  "byteorder \<Rightarrow> codecs \<Rightarrow> SyncV2Encoder \<Rightarrow> bytes \<Rightarrow> bytes \<Rightarrow> (bytes, SyncProtocolError) outcome" where
  "encode_data bo cs e data out = encode_chunks bo cs (enc_compression e) (chunks SYNC_DATA_MAX data) out"

record SyncV2Decoder =
  dec_compression :: CompressionType

definition SyncV2Decoder_new :: "u32 \<Rightarrow> (SyncV2Decoder, SyncProtocolError) outcome" where
  "SyncV2Decoder_new flags =
     and_then (compression_from_v2_flags flags) (\<lambda>c. Ok \<lparr>dec_compression = c\<rparr>)"

definition decode_data_frame ::
  "byteorder \<Rightarrow> codecs \<Rightarrow> SyncV2Decoder \<Rightarrow> bytes \<Rightarrow> (bytes, SyncProtocolError) outcome" where
  "decode_data_frame bo cs d frame =
     and_then (SyncMessageHeader_decode bo frame) (\<lambda>header.
       if sm_id header \<noteq> SYNC_DATA then
         Err (InvalidMessage (str ''sendrecv_v2 frame is not SYNC_DATA''))
       else
         let len = unat (sm_length header) in
         if len > unat MAX_PAYLOAD_V2 \<or> length frame \<noteq> 8 + len then
           Err (InvalidMessage (str ''DATA frame length does not match its payload''))
         else
           and_then (slice_from frame 8) (\<lambda>body.
           and_then (map_err (\<lambda>e. InvalidMessage (CompressionError_to_string e))
               (decompress cs (dec_compression d) body)) (\<lambda>decoded.
             if length decoded > SYNC_DATA_MAX then
               Err (InvalidMessage (str ''decompressed DATA exceeds SYNC_DATA_MAX''))
             else Ok decoded)))"

section \<open>Directory entries\<close>

record SyncDentResponse =
  dent_id :: u32
  dent_mode :: u32
  dent_size :: u32
  dent_mtime :: u32
  dent_namelen :: u32
  dent_name :: rstr

definition SyncDentResponse_decode :: "byteorder \<Rightarrow> bytes \<Rightarrow> (SyncDentResponse, SyncProtocolError) outcome" where
  "SyncDentResponse_decode bo buf =
     (if length buf < 20 then Err (SyncHeaderTooShort 20 (length buf))
      else and_then (get_u32 bo buf 0) (\<lambda>i.
           and_then (get_u32 bo buf 4) (\<lambda>md.
           and_then (get_u32 bo buf 8) (\<lambda>sz.
           and_then (get_u32 bo buf 12) (\<lambda>mt.
           and_then (get_u32 bo buf 16) (\<lambda>nl.
           and_then (ok_or (checked_add_usize 20 (unat nl))
               (InvalidMessage (str ''Directory entry namelen addition overflowed''))) (\<lambda>total.
             if length buf < total then Err (SyncHeaderTooShort total (length buf))
             else and_then (slice buf 20 total) (\<lambda>nm.
               Ok \<lparr>dent_id = i, dent_mode = md, dent_size = sz, dent_mtime = mt, dent_namelen = nl,
                   dent_name = from_utf8_lossy nm\<rparr>))))))))"

definition SyncDentResponse_total_size :: "SyncDentResponse \<Rightarrow> nat" where
  "SyncDentResponse_total_size d = saturating_add_usize 20 (unat (dent_namelen d))"

definition SyncDentResponse_encode ::
  "byteorder \<Rightarrow> SyncDentResponse \<Rightarrow> bytes \<Rightarrow> (bytes, SyncProtocolError) outcome" where
  "SyncDentResponse_encode bo d out =
     and_then (ok_or (try_u32 (length (dent_name d)))
         (InvalidMessage (str ''Entry name length exceeds u32::MAX''))) (\<lambda>actual_namelen.
       let hdr = replicate 20 0;
           hdr = put 0 (write_u32 bo (dent_id d)) hdr;
           hdr = put 4 (write_u32 bo (dent_mode d)) hdr;
           hdr = put 8 (write_u32 bo (dent_size d)) hdr;
           hdr = put 12 (write_u32 bo (dent_mtime d)) hdr;
           hdr = put 16 (write_u32 bo actual_namelen) hdr
       in Ok (out @ hdr @ dent_name d))"

record SyncDentV2Response =
  d2_stat :: SyncStatV2Response
  d2_namelen :: u32
  d2_name :: rstr

definition SyncDentV2Response_decode :: "byteorder \<Rightarrow> bytes \<Rightarrow> (SyncDentV2Response, SyncProtocolError) outcome" where
  "SyncDentV2Response_decode bo buf =
     (if length buf < 76 then Err (SyncHeaderTooShort 76 (length buf))
      else and_then (slice buf 0 72) (\<lambda>s.
           and_then (SyncStatV2Response_decode bo s) (\<lambda>stat.
           and_then (get_u32 bo buf 72) (\<lambda>nl.
           and_then (ok_or (checked_add_usize 76 (unat nl))
               (InvalidMessage (str ''Directory entry V2 namelen addition overflowed''))) (\<lambda>total.
             if length buf < total then Err (SyncHeaderTooShort total (length buf))
             else and_then (slice buf 76 total) (\<lambda>nm.
               Ok \<lparr>d2_stat = stat, d2_namelen = nl, d2_name = from_utf8_lossy nm\<rparr>))))))"

definition SyncDentV2Response_total_size :: "SyncDentV2Response \<Rightarrow> nat" where
  "SyncDentV2Response_total_size d = saturating_add_usize 76 (unat (d2_namelen d))"

definition SyncDentV2Response_encode ::
  "byteorder \<Rightarrow> SyncDentV2Response \<Rightarrow> bytes \<Rightarrow> (bytes, SyncProtocolError) outcome" where
  "SyncDentV2Response_encode bo d out =
     and_then (ok_or (try_u32 (length (d2_name d)))
         (InvalidMessage (str ''Entry V2 name length exceeds u32::MAX''))) (\<lambda>actual_namelen.
       let stat_buf = SyncStatV2Response_encode bo (d2_stat d) (replicate 72 0);
           len_buf = put 0 (write_u32 bo actual_namelen) (replicate 4 0)
       in Ok (out @ stat_buf @ len_buf @ d2_name d))"

section \<open>Lemmas\<close>

lemma validate_path_Ok:
  "validate_path p ac = Ok () \<longleftrightarrow> p \<noteq> [] \<and> 0 \<notin> set p \<and> (ac \<or> 0x2C \<notin> set p) \<and> length p < 2 ^ 32"
  by (auto simp: validate_path_def try_u32_def)

lemma saturating_mtime_u32_value:
  "int (unat (saturating_mtime_u32 m)) = min (2 ^ 32 - 1) (max 0 (sint m))"
proof (cases "try_u32 (nat (sint m))")
  case None
  then have "2 ^ 32 \<le> nat (sint m)" by (simp add: try_u32_def split: if_splits)
  then have "2 ^ 32 \<le> sint m" by (simp add: le_nat_iff)
  with None show ?thesis by (simp add: saturating_mtime_u32_def)
next
  case (Some w)
  then have "unat w = nat (sint m)" and lt: "nat (sint m) < 2 ^ 32" by (simp_all add: try_u32_eq_Some)
  then have "int (unat w) = int (nat (sint m))" by (simp only:)
  with lt Some show ?thesis
    by (auto simp: saturating_mtime_u32_def)
qed

text \<open>The flags of a transfer: a known codec, alone or with the dry-run bit.\<close>

lemma count_ones_to_flag: "count_ones (to_flag ct) \<le> 1"
proof -
  have "list_all (\<lambda>ct. count_ones (to_flag ct) \<le> 1) [NoCompression, Brotli, LZ4, Zstd]"
    by code_simp
  then show ?thesis by (cases ct) simp_all
qed

lemma mask_split: "flags AND NOT SYNC_FLAG_DRY_RUN = (flags AND NOT 0x80000007) OR (flags AND 7)" for flags :: u32
proof -
  have "NOT SYNC_FLAG_DRY_RUN = (NOT 0x80000007 OR 7 :: u32)" by (simp add: sync_flag_defs)
  then show ?thesis by (simp only: bit.conj_disj_distrib)
qed

lemma v2_flags_Ok:
  "compression_from_v2_flags flags = Ok ct \<longleftrightarrow> flags AND NOT SYNC_FLAG_DRY_RUN = to_flag ct"
proof -
  let ?u = "flags AND NOT 0x80000007" and ?s = "flags AND 7"
  have eq: "compression_from_v2_flags flags = Ok ct \<longleftrightarrow> ?u = 0 \<and> ?s = to_flag ct"
    using count_ones_to_flag [of ct]
    by (auto simp: compression_from_v2_flags_def Let_def sync_flag_defs from_flag_eq_Ok)
  have t7: "to_flag ct AND 7 = to_flag ct" by (cases ct) (simp_all add: sync_flag_defs)
  have tu: "to_flag ct AND NOT 0x80000007 = 0" by (cases ct) (simp_all add: sync_flag_defs)
  have su: "(?u OR ?s) AND 7 = ?s" "(?u OR ?s) AND NOT 0x80000007 = ?u"
    by (simp_all add: bit.conj_disj_distrib2 and.assoc)
  show ?thesis
    unfolding eq mask_split using t7 tu su by (metis or.left_neutral)
qed

context little_endian
begin

lemma sync_header_layout:
  assumes "length out = 8"
  shows "SyncMessageHeader_encode bo h out = u32_to_le (sm_id h) @ u32_to_le (sm_length h)"
proof -
  have "SyncMessageHeader_encode bo h out = put_fields 0 [u32_to_le (sm_id h), u32_to_le (sm_length h)] out"
    by (simp add: SyncMessageHeader_encode_def)
  from put_fieldsD [OF this] assms show ?thesis by simp
qed

lemma push_header_layout: "push_header bo i len out = out @ u32_to_le i @ u32_to_le len"
  by (simp add: push_header_def sync_header_layout)

lemma sync_header_decode:
  "SyncMessageHeader_decode bo (u32_to_le i @ u32_to_le len @ rest) = Ok \<lparr>sm_id = i, sm_length = len\<rparr>"
  by (simp add: SyncMessageHeader_decode_def get_at)

lemma stat_layout:
  assumes "length out = 12"
  shows "SyncStatResponse_encode bo s out = u32_to_le (st_mode s) @ u32_to_le (st_size s) @ u32_to_le (st_mtime s)"
proof -
  have "SyncStatResponse_encode bo s out =
      put_fields 0 [u32_to_le (st_mode s), u32_to_le (st_size s), u32_to_le (st_mtime s)] out"
    by (simp add: SyncStatResponse_encode_def)
  from put_fieldsD [OF this] assms show ?thesis by simp
qed

lemma stat_v1_message:
  assumes "length out = 12"
  shows "decode_v1_message bo (str ''STAT'' @ SyncStatResponse_encode bo s out) = Ok s"
  using assms
  by (cases s) (simp add: decode_v1_message_def stat_layout slice_from_def SyncStatResponse_decode_def get_at)

lemma stat_v2_layout:
  assumes "length out = 72"
  shows "SyncStatV2Response_encode bo s out =
    u32_to_le (s2_id s) @ u32_to_le (s2_error s) @ u64_to_le (s2_dev s) @ u64_to_le (s2_ino s) @
    u32_to_le (s2_mode s) @ u32_to_le (s2_nlink s) @ u32_to_le (s2_uid s) @ u32_to_le (s2_gid s) @
    u64_to_le (s2_size s) @ u64_to_le (s2_atime s) @ u64_to_le (s2_mtime s) @ u64_to_le (s2_ctime s)"
proof -
  have "SyncStatV2Response_encode bo s out = put_fields 0
    [u32_to_le (s2_id s), u32_to_le (s2_error s), u64_to_le (s2_dev s), u64_to_le (s2_ino s),
     u32_to_le (s2_mode s), u32_to_le (s2_nlink s), u32_to_le (s2_uid s), u32_to_le (s2_gid s),
     u64_to_le (s2_size s), u64_to_le (s2_atime s), u64_to_le (s2_mtime s), u64_to_le (s2_ctime s)] out"
    by (simp add: SyncStatV2Response_encode_def)
  from put_fieldsD [OF this] assms show ?thesis by simp
qed

lemma length_stat_v2 [simp]: "length out = 72 \<Longrightarrow> length (SyncStatV2Response_encode bo s out) = 72"
  by (simp add: stat_v2_layout)

lemma stat_v2_decode_encode:
  "length out = 72 \<Longrightarrow> SyncStatV2Response_decode bo (SyncStatV2Response_encode bo s out @ rest) = Ok s"
  by (cases s) (simp add: SyncStatV2Response_decode_def stat_v2_layout get_at)

lemma dent_layout:
  assumes "SyncDentResponse_encode bo d out = Ok out'"
  shows "out' = out @ u32_to_le (dent_id d) @ u32_to_le (dent_mode d) @ u32_to_le (dent_size d) @
     u32_to_le (dent_mtime d) @ u32_to_le (as_u32 (length (dent_name d))) @ dent_name d"
    "length (dent_name d) < 2 ^ 32"
proof -
  let ?len = "as_u32 (length (dent_name d))"
  let ?hdr = "put 16 (u32_to_le ?len) (put 12 (u32_to_le (dent_mtime d)) (put 8 (u32_to_le (dent_size d))
    (put 4 (u32_to_le (dent_mode d)) (put 0 (u32_to_le (dent_id d)) (replicate 20 0)))))"
  have "?hdr = put_fields 0 [u32_to_le (dent_id d), u32_to_le (dent_mode d), u32_to_le (dent_size d),
      u32_to_le (dent_mtime d), u32_to_le ?len] (replicate 20 0)" by simp
  from put_fieldsD [OF this] assms
  show "out' = out @ u32_to_le (dent_id d) @ u32_to_le (dent_mode d) @ u32_to_le (dent_size d) @
     u32_to_le (dent_mtime d) @ u32_to_le ?len @ dent_name d" "length (dent_name d) < 2 ^ 32"
    by (auto simp: SyncDentResponse_encode_def try_u32_eq_Some Let_def)
qed

lemma dent_roundtrip:
  assumes "SyncDentResponse_encode bo d [] = Ok out" and "utf8_valid (dent_name d)"
    and "unat (dent_namelen d) = length (dent_name d)"
  shows "SyncDentResponse_decode bo (out @ rest) = Ok d \<and> SyncDentResponse_total_size d = length out"
proof -
  have nl: "as_u32 (length (dent_name d)) = dent_namelen d"
    using assms(3) by (metis as_u32_unat)
  have le: "length (dent_name d) < 4294967296" using dent_layout(2) [OF assms(1)] by simp
  show ?thesis
    using dent_layout(1) [OF assms(1)] assms(2,3) nl le
    by (cases d) (simp add: SyncDentResponse_decode_def SyncDentResponse_total_size_def get_at slice_def
        checked_add_usize_def saturating_add_usize_def usize_max_def from_utf8_lossy_valid)
qed

lemma dent_v2_roundtrip:
  assumes "SyncDentV2Response_encode bo d [] = Ok out" and "utf8_valid (d2_name d)"
    and "unat (d2_namelen d) = length (d2_name d)"
  shows "SyncDentV2Response_decode bo (out @ rest) = Ok d \<and> SyncDentV2Response_total_size d = length out"
proof -
  let ?stat = "SyncStatV2Response_encode bo (d2_stat d) (replicate 72 0)"
  have nl: "as_u32 (length (d2_name d)) = d2_namelen d"
    using assms(3) by (metis as_u32_unat)
  have le: "length (d2_name d) < 4294967296"
    and out: "out = ?stat @ u32_to_le (d2_namelen d) @ d2_name d"
    using assms(1) nl by (auto simp: SyncDentV2Response_encode_def try_u32_eq_Some Let_def put_def)
  then show ?thesis
    using assms(2,3) stat_v2_decode_encode [of "replicate 72 0" "d2_stat d" "[]"]
    by (cases d) (simp add: SyncDentV2Response_decode_def SyncDentV2Response_total_size_def get_at slice_def
        checked_add_usize_def saturating_add_usize_def usize_max_def from_utf8_lossy_valid)
qed

lemma data_block_layout:
  "build_sync_data_block bo c out = Ok out' \<longleftrightarrow>
     length c < 2 ^ 32 \<and> out' = out @ u32_to_le SYNC_DATA @ u32_to_le (as_u32 (length c)) @ c"
  by (auto simp: build_sync_data_block_def try_u32_eq_Some push_header_layout)

text \<open>One \<open>DATA\<close> frame, encoded and decoded.\<close>

lemma decode_frame:
  assumes "codecs_lossless cs" and "compress cs ct chunk = Ok c" and "length chunk \<le> SYNC_DATA_MAX"
  shows "decode_data_frame bo cs \<lparr>dec_compression = ct\<rparr>
    (u32_to_le SYNC_DATA @ u32_to_le (as_u32 (length c)) @ c) = Ok chunk"
proof -
  note dc = decompress_compress [OF assms(1,2)]
  have len: "length c \<le> unat MAX_PAYLOAD_V2"
    using dc(2) assms(3) by (simp add: SYNC_DATA_MAX_def MAX_PAYLOAD_V2_def)
  then have "unat (as_u32 (length c)) = length c"
    by (simp add: MAX_PAYLOAD_V2_def)
  then show ?thesis
    using dc(1) assms(3) len
    by (simp add: decode_data_frame_def sync_header_decode slice_from_def Let_def)
qed

lemma encode_chunks_frames:
  assumes "codecs_lossless cs" and "\<forall>c \<in> set cks. length c \<le> SYNC_DATA_MAX"
    and "encode_chunks bo cs ct cks out = Ok out'"
  shows "\<exists>frames. out' = out @ concat frames \<and>
    map (decode_data_frame bo cs \<lparr>dec_compression = ct\<rparr>) frames = map Ok cks"
  using assms(2,3)
proof (induction cks arbitrary: out)
  case Nil
  then show ?case by (intro exI [of _ "[]"]) simp
next
  case (Cons chunk cks)
  from Cons.prems(2) obtain c out1 where c: "compress cs ct chunk = Ok c"
    and b: "build_sync_data_block bo c out = Ok out1" and e: "encode_chunks bo cs ct cks out1 = Ok out'"
    by auto
  from Cons.IH [OF _ e] Cons.prems(1) obtain frames where f: "out' = out1 @ concat frames"
    "map (decode_data_frame bo cs \<lparr>dec_compression = ct\<rparr>) frames = map Ok cks" by auto
  let ?fr = "u32_to_le SYNC_DATA @ u32_to_le (as_u32 (length c)) @ c"
  have "decode_data_frame bo cs \<lparr>dec_compression = ct\<rparr> ?fr = Ok chunk"
    using Cons.prems(1) by (intro decode_frame [OF assms(1) c]) simp
  with f b show ?case by (intro exI [of _ "?fr # frames"]) (simp add: data_block_layout)
qed

end

text \<open>The four bytes a \<open>RECV_V2\<close> request starts with are not the ones of its documentation.\<close>

lemma recv_v2_id_bytes: "u32_to_le SYNC_RECV_V2 = str ''CVP2'' \<and> str ''CVP2'' \<noteq> str ''RCV2''"
  by (simp add: u32_to_le_def nat_le_eval SYNC_RECV_V2_def str_def)

section \<open>Properties\<close>

text \<open>
  C10: A compressed transfer is lossless. Whatever codec the flags select, the bytes that
  \<open>encode_data\<close> appends are a sequence of frames of which the decoder for the same flags returns the
  64 KiB pieces of the data in order, so that the receiver reassembles the data exactly.
\<close>

theorem sync_v2_data_roundtrip:
  assumes "little_endian bo" and "codecs_lossless cs"
    and "new_send bo path md flags = Ok e" and "SyncV2Decoder_new flags = Ok d"
    and "encode_data bo cs e data out = Ok out'"
  shows "\<exists>frames pieces. out' = out @ concat frames \<and>
    map (decode_data_frame bo cs d) frames = map Ok pieces \<and> concat pieces = data \<and>
    (\<forall>p \<in> set pieces. length p \<le> SYNC_DATA_MAX)"
proof -
  from assms(3,4) have d: "d = \<lparr>dec_compression = enc_compression e\<rparr>"
    by (auto simp: new_send_def SyncV2Decoder_new_def)
  have pieces: "\<forall>p \<in> set (chunks SYNC_DATA_MAX data). length p \<le> SYNC_DATA_MAX"
    using chunks_length by blast
  have "concat (chunks SYNC_DATA_MAX data) = data"
    by (rule concat_chunks) (simp add: SYNC_DATA_MAX_def)
  with little_endian.encode_chunks_frames [OF assms(1,2) pieces] assms(5) pieces d show ?thesis
    unfolding encode_data_def by metis
qed

theorem sync_v2_data_roundtrip_witness:
  "\<exists>e d out'. new_send std_byteorder (str ''/x'') 0x1A4 SYNC_FLAG_ZSTD = Ok e \<and>
    SyncV2Decoder_new SYNC_FLAG_ZSTD = Ok d \<and> encode_data std_byteorder stored_codecs e [1, 2, 3] [] = Ok out' \<and>
    (\<exists>frames pieces. out' = [] @ concat frames \<and>
       map (decode_data_frame std_byteorder stored_codecs d) frames = map Ok pieces \<and> concat pieces = [1, 2, 3] \<and>
       (\<forall>p \<in> set pieces. length p \<le> SYNC_DATA_MAX))"
proof -
  have fl: "compression_from_v2_flags SYNC_FLAG_ZSTD = Ok Zstd"
    by (simp add: v2_flags_Ok sync_flag_defs)
  obtain e where e: "new_send std_byteorder (str ''/x'') 0x1A4 SYNC_FLAG_ZSTD = Ok e" "enc_compression e = Zstd"
    using fl by (simp add: new_send_def build_send_v2_req_def validate_path_def str_def try_u32_def Let_def)
  have d: "SyncV2Decoder_new SYNC_FLAG_ZSTD = Ok \<lparr>dec_compression = Zstd\<rparr>"
    by (simp add: SyncV2Decoder_new_def fl)
  obtain out' where o: "encode_data std_byteorder stored_codecs e [1, 2, 3] [] = Ok out'"
    using e(2) by (simp add: encode_data_def chunks.simps SYNC_DATA_MAX_def stored_codecs_def
        std_le.data_block_layout)
  from sync_v2_data_roundtrip [OF std_byteorder_little_endian stored_codecs_lossless e(1) d o] e(1) d o
  show ?thesis by blast
qed

text \<open>
  The flags of a sendrecv_v2 transfer select a codec exactly when, apart from the dry-run bit,
  they are the flag of that codec; every other combination, two codecs at once or an unknown bit, is
  rejected with the offending flags.
\<close>

theorem sync_v2_flags:
  "(compression_from_v2_flags flags = Ok ct \<longleftrightarrow> flags AND NOT SYNC_FLAG_DRY_RUN = to_flag ct) \<and>
   ((\<exists>ct. compression_from_v2_flags flags = Ok ct) \<or>
    compression_from_v2_flags flags = Err (UnsupportedCompression flags))"
proof -
  have "(\<exists>ct. compression_from_v2_flags flags = Ok ct) \<or>
      compression_from_v2_flags flags = Err (UnsupportedCompression flags)"
    by (simp add: compression_from_v2_flags_def Let_def from_flag_def)
  with v2_flags_Ok show ?thesis by blast
qed

text \<open>
  A V1 \<open>SEND\<close> request is unambiguous. When the builder accepts a path, the packet is a \<open>SEND\<close>
  header with the exact length of the request string, and the receiver recovers the path and the mode
  by splitting that string at its comma.
\<close>

theorem send_req_unambiguous:
  assumes "little_endian bo" and "build_sync_send_req bo path md [] = Ok pkt"
  shows "\<exists>body. SyncMessageHeader_decode bo pkt = Ok \<lparr>sm_id = SYNC_SEND, sm_length = as_u32 (length body)\<rparr> \<and>
    unat (as_u32 (length body)) = length body \<and> drop 8 pkt = body \<and>
    split_once 0x2C body = Some (path, fmt_dec (unat md)) \<and>
    from_str_radix 10 (2 ^ 32) (fmt_dec (unat md)) = Some (unat md)"
proof -
  let ?body = "path @ [0x2C] @ fmt_dec (unat md)"
  from assms(2) have v: "validate_path path False = Ok ()" and len: "length ?body < 2 ^ 32"
    and pkt: "pkt = push_header bo SYNC_SEND (as_u32 (length ?body)) [] @ ?body"
    by (auto simp: build_sync_send_req_def Let_def try_u32_eq_Some)
  have "unat md < 2 ^ 32" using u32_less [of md] by simp
  from from_str_fmt_dec [OF this] have num: "from_str_radix 10 (2 ^ 32) (fmt_dec (unat md)) = Some (unat md)" .
  have body: "pkt = u32_to_le SYNC_SEND @ u32_to_le (as_u32 (length ?body)) @ ?body"
    using pkt by (simp add: little_endian.push_header_layout [OF assms(1)])
  have "split_once 0x2C ?body = Some (path, fmt_dec (unat md))"
    using v by (simp add: validate_path_Ok split_once_append)
  moreover have "drop 8 pkt = ?body" using body by simp
  ultimately show ?thesis
    using little_endian.sync_header_decode [OF assms(1), of SYNC_SEND "as_u32 (length ?body)" ?body] len num body
    by (intro exI [of _ ?body]) (simp only: unat_as_u32_small simp_thms)
qed

theorem send_req_unambiguous_witness:
  "\<exists>pkt body. build_sync_send_req std_byteorder (str ''/a'') 0x1FF [] = Ok pkt \<and>
    SyncMessageHeader_decode std_byteorder pkt = Ok \<lparr>sm_id = SYNC_SEND, sm_length = as_u32 (length body)\<rparr> \<and>
    split_once 0x2C body = Some (str ''/a'', fmt_dec (unat (0x1FF :: u32)))"
proof -
  have "length (str ''/a'' @ [0x2C] @ fmt_dec (unat (0x1FF :: u32))) = 6" by code_simp
  then obtain pkt where "build_sync_send_req std_byteorder (str ''/a'') 0x1FF [] = Ok pkt"
    by (simp add: build_sync_send_req_def validate_path_def str_def try_u32_def Let_def)
  from this send_req_unambiguous [OF std_byteorder_little_endian this] show ?thesis by blast
qed

text \<open>
  C33: Directory entries of both versions survive the wire. An entry with a valid UTF-8 name and a
  matching name length is decoded from its encoding, whatever follows it, and \<open>total_size\<close> is the
  number of bytes to skip to the next entry.
\<close>

theorem dents_roundtrip:
  assumes "little_endian bo"
    and "SyncDentResponse_encode bo d1 [] = Ok out1" and "utf8_valid (dent_name d1)"
    and "unat (dent_namelen d1) = length (dent_name d1)"
    and "SyncDentV2Response_encode bo d2 [] = Ok out2" and "utf8_valid (d2_name d2)"
    and "unat (d2_namelen d2) = length (d2_name d2)"
  shows "SyncDentResponse_decode bo (out1 @ rest) = Ok d1 \<and> SyncDentResponse_total_size d1 = length out1 \<and>
    SyncDentV2Response_decode bo (out2 @ rest) = Ok d2 \<and> SyncDentV2Response_total_size d2 = length out2"
  using little_endian.dent_roundtrip [OF assms(1-4)] little_endian.dent_v2_roundtrip [OF assms(1,5-7)]
  by blast

definition sample_dent :: SyncDentResponse where
  "sample_dent = \<lparr>dent_id = 0x544E4544, dent_mode = 0x1ED, dent_size = 7, dent_mtime = 9,
     dent_namelen = 2, dent_name = [0x61, 0x62]\<rparr>"

definition sample_dent_v2 :: SyncDentV2Response where
  "sample_dent_v2 = \<lparr>d2_stat = \<lparr>s2_id = 0x32544E44, s2_error = 0, s2_dev = 1, s2_ino = 2, s2_mode = 3, s2_nlink = 4,
     s2_uid = 5, s2_gid = 6, s2_size = 7, s2_atime = 8, s2_mtime = 9, s2_ctime = 10\<rparr>,
     d2_namelen = 2, d2_name = [0xC3, 0xA9]\<rparr>"

theorem dents_roundtrip_witness:
  "\<exists>out1 out2. SyncDentResponse_decode std_byteorder (out1 @ [0]) = Ok sample_dent \<and>
    SyncDentV2Response_decode std_byteorder (out2 @ [0]) = Ok sample_dent_v2"
proof -
  obtain o1 where o1: "SyncDentResponse_encode std_byteorder sample_dent [] = Ok o1"
    by (simp add: SyncDentResponse_encode_def sample_dent_def try_u32_def Let_def)
  obtain o2 where o2: "SyncDentV2Response_encode std_byteorder sample_dent_v2 [] = Ok o2"
    by (simp add: SyncDentV2Response_encode_def sample_dent_v2_def try_u32_def Let_def)
  have v1: "utf8_valid (dent_name sample_dent)" by (simp add: sample_dent_def)
  have v2: "utf8_valid (d2_name sample_dent_v2)"
    unfolding sample_dent_v2_def by code_simp
  have "unat (dent_namelen sample_dent) = length (dent_name sample_dent)"
    "unat (d2_namelen sample_dent_v2) = length (d2_name sample_dent_v2)"
    by (simp_all add: sample_dent_def sample_dent_v2_def)
  from dents_roundtrip [OF std_byteorder_little_endian o1 v1 this(1) o2 v2 this(2), of "[0]"]
  show ?thesis by blast
qed

end
