(* ===== verification/Sparse.thy ===== *)
theory Sparse
  imports Byteorder
begin

text \<open>
  Android sparse images, \<open>crates/fastboot-protocol/src/sparse.rs\<close>: the file and chunk headers, the
  chunk constructors, encoding and parsing of whole files, and the conversions from and to raw
  images. \<open>SparseFile::split\<close> is in the theory \<open>Sparse_Split\<close>.
\<close>

section \<open>Constants and errors\<close>

definition SPARSE_HEADER_MAGIC :: u32 where "SPARSE_HEADER_MAGIC = 0xED26FF3A"
definition CHUNK_TYPE_RAW :: u16 where "CHUNK_TYPE_RAW = 0xCAC1"
definition CHUNK_TYPE_FILL :: u16 where "CHUNK_TYPE_FILL = 0xCAC2"
definition CHUNK_TYPE_DONT_CARE :: u16 where "CHUNK_TYPE_DONT_CARE = 0xCAC3"
definition CHUNK_TYPE_CRC32 :: u16 where "CHUNK_TYPE_CRC32 = 0xCAC4"

lemmas chunk_type_defs = CHUNK_TYPE_RAW_def CHUNK_TYPE_FILL_def CHUNK_TYPE_DONT_CARE_def
  CHUNK_TYPE_CRC32_def

lemma chunk_type_distinct [simp]:
  "CHUNK_TYPE_RAW \<noteq> CHUNK_TYPE_FILL" "CHUNK_TYPE_RAW \<noteq> CHUNK_TYPE_DONT_CARE"
  "CHUNK_TYPE_RAW \<noteq> CHUNK_TYPE_CRC32" "CHUNK_TYPE_FILL \<noteq> CHUNK_TYPE_RAW"
  "CHUNK_TYPE_FILL \<noteq> CHUNK_TYPE_DONT_CARE" "CHUNK_TYPE_FILL \<noteq> CHUNK_TYPE_CRC32"
  "CHUNK_TYPE_DONT_CARE \<noteq> CHUNK_TYPE_RAW" "CHUNK_TYPE_DONT_CARE \<noteq> CHUNK_TYPE_FILL"
  "CHUNK_TYPE_DONT_CARE \<noteq> CHUNK_TYPE_CRC32" "CHUNK_TYPE_CRC32 \<noteq> CHUNK_TYPE_RAW"
  "CHUNK_TYPE_CRC32 \<noteq> CHUNK_TYPE_FILL" "CHUNK_TYPE_CRC32 \<noteq> CHUNK_TYPE_DONT_CARE"
  by (simp_all add: chunk_type_defs)

datatype SparseError =
    SparseHeaderTooShort nat
  | InvalidMagic u32
  | UnsupportedVersion (uv_major: u16) (uv_minor: u16)
  | InvalidFileHeaderSize u16
  | InvalidChunkHeaderSize u16
  | MaxDownloadSizeTooSmall (md_max_size: nat) (md_min_required: nat)
  | UnalignedChunkData (ua_len: nat) (ua_blk_sz: u32)
  | InvalidBlockSize u32
  | InvalidChunkSize u32
  | ChunkPayloadTooShort (cp_expected: nat) (cp_got: nat)
  | UnknownChunkType u16

section \<open>File header\<close>

record SparseHeader =
  sp_magic :: u32
  major_version :: u16
  minor_version :: u16
  file_hdr_sz :: u16
  chunk_hdr_sz :: u16
  blk_sz :: u32
  total_blks :: u32
  total_chunks :: u32
  image_checksum :: u32

definition SparseHeader_SIZE :: nat where "SparseHeader_SIZE = 28"
definition SparseChunkHeader_SIZE :: nat where "SparseChunkHeader_SIZE = 12"

lemmas sparse_sizes = SparseHeader_SIZE_def SparseChunkHeader_SIZE_def

definition SparseHeader_new :: "u32 \<Rightarrow> u32 \<Rightarrow> u32 \<Rightarrow> SparseHeader" where
  "SparseHeader_new bsz blks chks =
     \<lparr>sp_magic = SPARSE_HEADER_MAGIC, major_version = 1, minor_version = 0,
      file_hdr_sz = of_nat SparseHeader_SIZE, chunk_hdr_sz = of_nat SparseChunkHeader_SIZE,
      blk_sz = bsz, total_blks = blks, total_chunks = chks, image_checksum = 0\<rparr>"

definition SparseHeader_encode :: "byteorder \<Rightarrow> SparseHeader \<Rightarrow> bytes" where
  "SparseHeader_encode bo h =
     (let buf = replicate 28 0;
          buf = put 0 (write_u32 bo (sp_magic h)) buf;
          buf = put 4 (write_u16 bo (major_version h)) buf;
          buf = put 6 (write_u16 bo (minor_version h)) buf;
          buf = put 8 (write_u16 bo (file_hdr_sz h)) buf;
          buf = put 10 (write_u16 bo (chunk_hdr_sz h)) buf;
          buf = put 12 (write_u32 bo (blk_sz h)) buf;
          buf = put 16 (write_u32 bo (total_blks h)) buf;
          buf = put 20 (write_u32 bo (total_chunks h)) buf;
          buf = put 24 (write_u32 bo (image_checksum h)) buf
      in buf)"

definition SparseHeader_decode :: "byteorder \<Rightarrow> bytes \<Rightarrow> (SparseHeader, SparseError) outcome" where
  "SparseHeader_decode bo buf =
     (if length buf < SparseHeader_SIZE then Err (SparseHeaderTooShort (length buf))
      else and_then (get_u32 bo buf 0) (\<lambda>mgc.
        if mgc \<noteq> SPARSE_HEADER_MAGIC then Err (InvalidMagic mgc)
        else and_then (get_u16 bo buf 4) (\<lambda>major.
          and_then (get_u16 bo buf 6) (\<lambda>minor.
            if major \<noteq> 1 then Err (UnsupportedVersion major minor)
            else and_then (get_u16 bo buf 8) (\<lambda>fhs.
              if fhs < of_nat SparseHeader_SIZE then Err (InvalidFileHeaderSize fhs)
              else and_then (get_u16 bo buf 10) (\<lambda>chs.
                if chs < of_nat SparseChunkHeader_SIZE then Err (InvalidChunkHeaderSize chs)
                else and_then (get_u32 bo buf 12) (\<lambda>bsz.
                  and_then (get_u32 bo buf 16) (\<lambda>blks.
                  and_then (get_u32 bo buf 20) (\<lambda>chks.
                  and_then (get_u32 bo buf 24) (\<lambda>csum.
                    Ok \<lparr>sp_magic = mgc, major_version = major, minor_version = minor,
                        file_hdr_sz = fhs, chunk_hdr_sz = chs, blk_sz = bsz,
                        total_blks = blks, total_chunks = chks, image_checksum = csum\<rparr>))))))))))"

section \<open>Chunk header\<close>

record SparseChunkHeader =
  ch_chunk_type :: u16
  reserved1 :: u16
  chunk_sz :: u32
  total_sz :: u32

definition SparseChunkHeader_new :: "u16 \<Rightarrow> u32 \<Rightarrow> u32 \<Rightarrow> SparseChunkHeader" where
  "SparseChunkHeader_new ty csz tsz =
     \<lparr>ch_chunk_type = ty, reserved1 = 0, chunk_sz = csz, total_sz = tsz\<rparr>"

definition SparseChunkHeader_encode :: "byteorder \<Rightarrow> SparseChunkHeader \<Rightarrow> bytes" where
  "SparseChunkHeader_encode bo h =
     (let buf = replicate 12 0;
          buf = put 0 (write_u16 bo (ch_chunk_type h)) buf;
          buf = put 2 (write_u16 bo (reserved1 h)) buf;
          buf = put 4 (write_u32 bo (chunk_sz h)) buf;
          buf = put 8 (write_u32 bo (total_sz h)) buf
      in buf)"

definition SparseChunkHeader_decode ::
  "byteorder \<Rightarrow> bytes \<Rightarrow> (SparseChunkHeader, SparseError) outcome" where
  "SparseChunkHeader_decode bo buf =
     (if length buf < SparseChunkHeader_SIZE then Err (SparseHeaderTooShort (length buf))
      else and_then (get_u16 bo buf 0) (\<lambda>ty.
           and_then (get_u16 bo buf 2) (\<lambda>res.
           and_then (get_u32 bo buf 4) (\<lambda>csz.
           and_then (get_u32 bo buf 8) (\<lambda>tsz.
             Ok \<lparr>ch_chunk_type = ty, reserved1 = res, chunk_sz = csz, total_sz = tsz\<rparr>)))))"

section \<open>Chunks\<close>

record SparseChunk =
  chunk_type :: u16
  chunk_blocks :: u32
  payload :: bytes

definition SparseChunk_total_size :: "SparseChunk \<Rightarrow> nat" where
  "SparseChunk_total_size c = SparseChunkHeader_SIZE + length (payload c)"

definition SparseChunk_raw :: "bytes \<Rightarrow> u32 \<Rightarrow> (SparseChunk, SparseError) outcome" where
  "SparseChunk_raw data bsz =
     (if bsz = 0 then Err (InvalidBlockSize 0)
      else if data = [] then Err (InvalidChunkSize 0)
      else if length data mod unat bsz \<noteq> 0 then Err (UnalignedChunkData (length data) bsz)
      else Ok \<lparr>chunk_type = CHUNK_TYPE_RAW, chunk_blocks = as_u32 (length data div unat bsz),
               payload = data\<rparr>)"

definition SparseChunk_fill :: "byteorder \<Rightarrow> u32 \<Rightarrow> u32 \<Rightarrow> (SparseChunk, SparseError) outcome" where
  "SparseChunk_fill bo fill_val blocks =
     (if blocks = 0 then Err (InvalidChunkSize 0)
      else Ok \<lparr>chunk_type = CHUNK_TYPE_FILL, chunk_blocks = blocks,
               payload = put 0 (write_u32 bo fill_val) (replicate 4 0)\<rparr>)"

definition SparseChunk_dont_care :: "u32 \<Rightarrow> (SparseChunk, SparseError) outcome" where
  "SparseChunk_dont_care blocks =
     (if blocks = 0 then Err (InvalidChunkSize 0)
      else Ok \<lparr>chunk_type = CHUNK_TYPE_DONT_CARE, chunk_blocks = blocks, payload = []\<rparr>)"

definition SparseChunk_crc32 :: "byteorder \<Rightarrow> u32 \<Rightarrow> (SparseChunk, SparseError) outcome" where
  "SparseChunk_crc32 bo crc =
     Ok \<lparr>chunk_type = CHUNK_TYPE_CRC32, chunk_blocks = 0,
         payload = put 0 (write_u32 bo crc) (replicate 4 0)\<rparr>"

definition SparseChunk_fill_value :: "byteorder \<Rightarrow> SparseChunk \<Rightarrow> u32 option" where
  "SparseChunk_fill_value bo c =
     (if chunk_type c = CHUNK_TYPE_FILL \<and> length (payload c) = 4 then Some (read_u32 bo (payload c))
      else None)"

definition SparseChunk_encode :: "byteorder \<Rightarrow> SparseChunk \<Rightarrow> bytes" where
  "SparseChunk_encode bo c =
     (let hdr = SparseChunkHeader_new (chunk_type c) (chunk_blocks c) (as_u32 (SparseChunk_total_size c))
      in SparseChunkHeader_encode bo hdr @ payload c)"

record SparseChunkBuilder =
  block_size :: u32

definition SparseChunkBuilder_raw :: "SparseChunkBuilder \<Rightarrow> bytes \<Rightarrow> (SparseChunk, SparseError) outcome" where
  "SparseChunkBuilder_raw b data = SparseChunk_raw data (block_size b)"

definition SparseChunkBuilder_fill ::
  "byteorder \<Rightarrow> SparseChunkBuilder \<Rightarrow> u32 \<Rightarrow> u32 \<Rightarrow> (SparseChunk, SparseError) outcome" where
  "SparseChunkBuilder_fill bo b fill_val blocks = SparseChunk_fill bo fill_val blocks"

definition SparseChunkBuilder_dont_care ::
  "SparseChunkBuilder \<Rightarrow> u32 \<Rightarrow> (SparseChunk, SparseError) outcome" where
  "SparseChunkBuilder_dont_care b blocks = SparseChunk_dont_care blocks"

definition SparseChunkBuilder_crc32 ::
  "byteorder \<Rightarrow> SparseChunkBuilder \<Rightarrow> u32 \<Rightarrow> (SparseChunk, SparseError) outcome" where
  "SparseChunkBuilder_crc32 bo b crc = SparseChunk_crc32 bo crc"

section \<open>Files\<close>

record SparseFile =
  header :: SparseHeader
  chunks_of :: "SparseChunk list"

definition SparseFile_new :: "u32 \<Rightarrow> SparseFile" where
  "SparseFile_new bsz = \<lparr>header = SparseHeader_new bsz 0 0, chunks_of = []\<rparr>"

definition add_chunk :: "SparseFile \<Rightarrow> SparseChunk \<Rightarrow> SparseFile" where
  "add_chunk f c =
     (let h = (header f)\<lparr>total_blks := total_blks (header f) + chunk_blocks c\<rparr>;
          cs = chunks_of f @ [c]
      in \<lparr>header = h\<lparr>total_chunks := as_u32 (length cs)\<rparr>, chunks_of = cs\<rparr>)"

definition total_blocks :: "SparseFile \<Rightarrow> u32" where
  "total_blocks f = sum_list (map chunk_blocks (chunks_of f))"

definition SparseFile_total_size :: "SparseFile \<Rightarrow> nat" where
  "SparseFile_total_size f = SparseHeader_SIZE + sum_list (map SparseChunk_total_size (chunks_of f))"

definition SparseFile_encode :: "byteorder \<Rightarrow> SparseFile \<Rightarrow> bytes" where
  "SparseFile_encode bo f =
     (let hdr = (header f)\<lparr>total_blks := total_blocks f, total_chunks := as_u32 (length (chunks_of f))\<rparr>
      in foldl (\<lambda>buf c. buf @ SparseChunk_encode bo c) (SparseHeader_encode bo hdr) (chunks_of f))"

definition from_raw :: "bytes \<Rightarrow> u32 \<Rightarrow> SparseFile" where
  "from_raw raw_data bsz =
     (let bsz = (if bsz = 0 then 4096 else bsz);
          file = SparseFile_new bsz
      in if raw_data = [] then file
         else
           (let rem = length raw_data mod unat bsz;
                padded_len = (if rem = 0 then length raw_data else length raw_data + (unat bsz - rem));
                data = (if rem \<noteq> 0 then resize padded_len 0 raw_data else raw_data)
            in case SparseChunkBuilder_raw \<lparr>block_size = bsz\<rparr> data of
                 Ok chunk \<Rightarrow> add_chunk file chunk
               | _ \<Rightarrow> file))"

definition chunk_to_raw :: "byteorder \<Rightarrow> u32 \<Rightarrow> bytes \<Rightarrow> SparseChunk \<Rightarrow> bytes" where
  "chunk_to_raw bo bsz raw c =
     (if chunk_type c = CHUNK_TYPE_RAW then raw @ payload c
      else if chunk_type c = CHUNK_TYPE_FILL then
        (let fill_bytes = unat (chunk_blocks c) * unat bsz in
         if length (payload c) = 4 then
           (let pattern = u32_to_le (read_u32 bo (payload c))
            in raw @ concat (replicate (fill_bytes div 4) pattern))
         else resize (length raw + fill_bytes) 0 raw)
      else if chunk_type c = CHUNK_TYPE_DONT_CARE then
        (let dont_care_bytes = unat (chunk_blocks c) * unat bsz
         in resize (length raw + dont_care_bytes) 0 raw)
      else raw)"

definition to_raw :: "byteorder \<Rightarrow> SparseFile \<Rightarrow> bytes" where
  "to_raw bo f = foldl (chunk_to_raw bo (blk_sz (header f))) [] (chunks_of f)"

text \<open>The payload check of \<open>from_bytes\<close>: the \<open>match\<close> on the chunk type.\<close>

definition check_payload :: "u16 \<Rightarrow> u32 \<Rightarrow> u32 \<Rightarrow> nat \<Rightarrow> (unit, SparseError) outcome" where
  "check_payload ty csz bsz payload_len =
     (if ty = CHUNK_TYPE_RAW then
        (let expected_len = unat csz * unat bsz in
         if payload_len \<noteq> expected_len then Err (ChunkPayloadTooShort expected_len payload_len) else Ok ())
      else if ty = CHUNK_TYPE_FILL then
        (if payload_len \<noteq> 4 then Err (ChunkPayloadTooShort 4 payload_len) else Ok ())
      else if ty = CHUNK_TYPE_DONT_CARE then
        (if payload_len \<noteq> 0 then Err (ChunkPayloadTooShort 0 payload_len) else Ok ())
      else if ty = CHUNK_TYPE_CRC32 then
        (if payload_len \<noteq> 4 then Err (ChunkPayloadTooShort 4 payload_len) else Ok ())
      else Err (UnknownChunkType ty))"

text \<open>One round of the loop: the chunk at \<open>offset\<close> and the offset behind it.\<close>

definition from_bytes_step ::
  "byteorder \<Rightarrow> bytes \<Rightarrow> SparseHeader \<Rightarrow> nat \<Rightarrow> (SparseChunk \<times> nat, SparseError) outcome" where
  "from_bytes_step bo buf hdr offset =
     (if offset + unat (chunk_hdr_sz hdr) > length buf then Err (SparseHeaderTooShort (length buf))
      else and_then (slice_from buf offset) (\<lambda>rest.
        and_then (SparseChunkHeader_decode bo rest) (\<lambda>chunk_hdr.
          let payload_offset = offset + unat (chunk_hdr_sz hdr) in
          if unat (total_sz chunk_hdr) < unat (chunk_hdr_sz hdr) then
            Err (InvalidChunkHeaderSize (ucast (total_sz chunk_hdr)))
          else
            let payload_len = unat (total_sz chunk_hdr) - unat (chunk_hdr_sz hdr) in
            if payload_offset + payload_len > length buf then
              Err (ChunkPayloadTooShort (payload_offset + payload_len) (length buf))
            else
              and_then (check_payload (ch_chunk_type chunk_hdr) (chunk_sz chunk_hdr) (blk_sz hdr) payload_len) (\<lambda>_.
              and_then (slice buf payload_offset (payload_offset + payload_len)) (\<lambda>data.
                Ok (\<lparr>chunk_type = ch_chunk_type chunk_hdr, chunk_blocks = chunk_sz chunk_hdr, payload = data\<rparr>,
                    offset + unat (total_sz chunk_hdr)))))))"

fun from_bytes_loop ::
  "byteorder \<Rightarrow> bytes \<Rightarrow> SparseHeader \<Rightarrow> nat \<Rightarrow> nat \<Rightarrow> SparseChunk list \<Rightarrow>
   (SparseChunk list, SparseError) outcome" where
  "from_bytes_loop bo buf hdr 0 offset cs = Ok cs"
| "from_bytes_loop bo buf hdr (Suc n) offset cs =
     and_then (from_bytes_step bo buf hdr offset) (\<lambda>(chunk, offset').
       from_bytes_loop bo buf hdr n offset' (cs @ [chunk]))"

definition from_bytes :: "byteorder \<Rightarrow> bytes \<Rightarrow> (SparseFile, SparseError) outcome" where
  "from_bytes bo buf =
     and_then (SparseHeader_decode bo buf) (\<lambda>hdr.
     and_then (from_bytes_loop bo buf hdr (unat (total_chunks hdr)) (unat (file_hdr_sz hdr)) [])
       (\<lambda>cs. Ok \<lparr>header = hdr, chunks_of = cs\<rparr>))"

section \<open>Well-formed files\<close>

text \<open>
  What \<open>from_bytes\<close> checks of a chunk, and what every constructor gives: a payload of the size its
  type asks for, small enough for the 32-bit \<open>total_sz\<close>.
\<close>

definition chunk_ok :: "u32 \<Rightarrow> SparseChunk \<Rightarrow> bool" where
  "chunk_ok bsz c \<longleftrightarrow>
     check_payload (chunk_type c) (chunk_blocks c) bsz (length (payload c)) = Ok () \<and>
     SparseChunkHeader_SIZE + length (payload c) < 2 ^ 32"

definition header_ok :: "SparseHeader \<Rightarrow> bool" where
  "header_ok h \<longleftrightarrow> sp_magic h = SPARSE_HEADER_MAGIC \<and> major_version h = 1 \<and>
     unat (file_hdr_sz h) \<ge> 28 \<and> unat (chunk_hdr_sz h) \<ge> 12"

definition file_ok :: "SparseFile \<Rightarrow> bool" where
  "file_ok f \<longleftrightarrow> header_ok (header f) \<and> file_hdr_sz (header f) = 28 \<and> chunk_hdr_sz (header f) = 12 \<and>
     length (chunks_of f) < 2 ^ 32 \<and> list_all (chunk_ok (blk_sz (header f))) (chunks_of f)"

text \<open>The totals of the header agree with the chunks, as \<open>add_chunk\<close> keeps them.\<close>

definition totals_ok :: "SparseFile \<Rightarrow> bool" where
  "totals_ok f \<longleftrightarrow> total_blks (header f) = total_blocks f \<and>
     total_chunks (header f) = as_u32 (length (chunks_of f))"

definition fix_totals :: "SparseFile \<Rightarrow> SparseFile" where
  "fix_totals f = f\<lparr>header := (header f)\<lparr>total_blks := total_blocks f,
     total_chunks := as_u32 (length (chunks_of f))\<rparr>\<rparr>"

lemma fix_totals_id: "totals_ok f \<Longrightarrow> fix_totals f = f"
  by (cases f) (simp add: fix_totals_def totals_ok_def)

lemma add_chunk_simps [simp]:
  "chunks_of (add_chunk f c) = chunks_of f @ [c]"
  "blk_sz (header (add_chunk f c)) = blk_sz (header f)"
  "total_blks (header (add_chunk f c)) = total_blks (header f) + chunk_blocks c"
  "total_chunks (header (add_chunk f c)) = as_u32 (length (chunks_of f) + 1)"
  "file_hdr_sz (header (add_chunk f c)) = file_hdr_sz (header f)"
  "chunk_hdr_sz (header (add_chunk f c)) = chunk_hdr_sz (header f)"
  "header_ok (header (add_chunk f c)) = header_ok (header f)"
  by (simp_all add: add_chunk_def Let_def header_ok_def)

lemma SparseFile_new_simps [simp]:
  "chunks_of (SparseFile_new b) = []" "blk_sz (header (SparseFile_new b)) = b"
  "file_hdr_sz (header (SparseFile_new b)) = 28" "chunk_hdr_sz (header (SparseFile_new b)) = 12"
  "header_ok (header (SparseFile_new b))" "total_blks (header (SparseFile_new b)) = 0"
  "total_chunks (header (SparseFile_new b)) = 0"
  by (simp_all add: SparseFile_new_def SparseHeader_new_def header_ok_def sparse_sizes)

lemma totals_new [simp]: "totals_ok (SparseFile_new b)"
  by (simp add: totals_ok_def total_blocks_def as_u32_def)

lemma totals_add [simp]: "totals_ok f \<Longrightarrow> totals_ok (add_chunk f c)"
  by (simp add: totals_ok_def total_blocks_def)

lemma total_size_simps [simp]:
  "SparseFile_total_size (SparseFile_new b) = 28"
  "SparseFile_total_size (add_chunk f c) = SparseFile_total_size f + 12 + length (payload c)"
  by (simp_all add: SparseFile_total_size_def SparseChunk_total_size_def sparse_sizes)

lemma check_payload_noPanic [simp]: "check_payload ty csz bsz n \<noteq> Panic"
  by (simp add: check_payload_def Let_def)

text \<open>The raw image of a file is the concatenation of the images of its chunks.\<close>

definition chunk_image :: "byteorder \<Rightarrow> u32 \<Rightarrow> SparseChunk \<Rightarrow> bytes" where
  "chunk_image bo bsz c = chunk_to_raw bo bsz [] c"

lemma chunk_to_raw_append: "chunk_to_raw bo bsz raw c = raw @ chunk_image bo bsz c"
  by (simp add: chunk_image_def chunk_to_raw_def Let_def resize_extend)

lemma to_raw_concat: "to_raw bo f = concat (map (chunk_image bo (blk_sz (header f))) (chunks_of f))"
proof -
  have "foldl (chunk_to_raw bo b) raw cs = raw @ concat (map (chunk_image bo b) cs)" for b raw cs
    by (induction cs arbitrary: raw) (simp_all add: chunk_to_raw_append)
  then show ?thesis by (simp add: to_raw_def)
qed

section \<open>Codec lemmas\<close>

lemma SparseFile_encode_concat:
  "SparseFile_encode bo f =
     SparseHeader_encode bo (header (fix_totals f)) @ concat (map (SparseChunk_encode bo) (chunks_of f))"
proof -
  have "foldl (\<lambda>buf c. buf @ g c) acc cs = acc @ concat (map g cs)" for acc cs and g :: "SparseChunk \<Rightarrow> bytes"
    by (induction cs arbitrary: acc) simp_all
  then show ?thesis by (simp add: SparseFile_encode_def fix_totals_def Let_def)
qed

context little_endian
begin

lemma sparse_header_layout:
  "SparseHeader_encode bo h =
     u32_to_le (sp_magic h) @ u16_to_le (major_version h) @ u16_to_le (minor_version h) @
     u16_to_le (file_hdr_sz h) @ u16_to_le (chunk_hdr_sz h) @ u32_to_le (blk_sz h) @
     u32_to_le (total_blks h) @ u32_to_le (total_chunks h) @ u32_to_le (image_checksum h)"
proof -
  have "SparseHeader_encode bo h = put_fields 0
     [u32_to_le (sp_magic h), u16_to_le (major_version h), u16_to_le (minor_version h),
      u16_to_le (file_hdr_sz h), u16_to_le (chunk_hdr_sz h), u32_to_le (blk_sz h),
      u32_to_le (total_blks h), u32_to_le (total_chunks h), u32_to_le (image_checksum h)] (replicate 28 0)"
    by (simp add: SparseHeader_encode_def)
  from put_fieldsD [OF this] show ?thesis by simp
qed

lemma chunk_header_layout:
  "SparseChunkHeader_encode bo h =
     u16_to_le (ch_chunk_type h) @ u16_to_le (reserved1 h) @ u32_to_le (chunk_sz h) @ u32_to_le (total_sz h)"
proof -
  have "SparseChunkHeader_encode bo h = put_fields 0
     [u16_to_le (ch_chunk_type h), u16_to_le (reserved1 h), u32_to_le (chunk_sz h), u32_to_le (total_sz h)]
     (replicate 12 0)"
    by (simp add: SparseChunkHeader_encode_def del: add_2_eq_Suc add_2_eq_Suc')
  from put_fieldsD [OF this] show ?thesis by simp
qed

lemma sparse_header_decode_encode:
  "header_ok h \<Longrightarrow> SparseHeader_decode bo (SparseHeader_encode bo h @ rest) = Ok h"
  by (cases h) (simp add: SparseHeader_decode_def sparse_header_layout header_ok_def sparse_sizes
      get_at word_less_nat_alt)

lemma chunk_header_decode_encode:
  "SparseChunkHeader_decode bo (SparseChunkHeader_encode bo h @ rest) = Ok h"
  by (cases h) (simp add: SparseChunkHeader_decode_def chunk_header_layout sparse_sizes get_at)

lemma length_sparse_headers [simp]:
  "length (SparseHeader_encode bo h) = 28" "length (SparseChunkHeader_encode bo ch) = 12"
  by (simp_all add: sparse_header_layout chunk_header_layout)

lemma length_chunk_encode [simp]: "length (SparseChunk_encode bo c) = SparseChunk_total_size c"
  by (simp add: SparseChunk_encode_def SparseChunk_total_size_def sparse_sizes Let_def)

lemma length_SparseFile_encode: "length (SparseFile_encode bo f) = SparseFile_total_size f"
  by (simp add: SparseFile_encode_concat SparseFile_total_size_def sparse_sizes length_concat comp_def)

text \<open>Reading back one chunk that was written at \<open>offset\<close>.\<close>

lemma step_encode:
  assumes "chunk_ok (blk_sz hdr) c" and "chunk_hdr_sz hdr = 12" and "offset = length pre"
  shows "from_bytes_step bo (pre @ SparseChunk_encode bo c @ rest) hdr offset =
    Ok (c, offset + SparseChunk_total_size c)"
proof -
  let ?hdr = "SparseChunkHeader_new (chunk_type c) (chunk_blocks c) (as_u32 (SparseChunk_total_size c))"
  have enc: "SparseChunk_encode bo c = SparseChunkHeader_encode bo ?hdr @ payload c"
    by (simp add: SparseChunk_encode_def Let_def)
  have sz: "unat (total_sz ?hdr) = 12 + length (payload c)" "ch_chunk_type ?hdr = chunk_type c"
    "chunk_sz ?hdr = chunk_blocks c"
    using assms(1)
    by (simp_all add: chunk_ok_def SparseChunkHeader_new_def SparseChunk_total_size_def sparse_sizes)
  show ?thesis
    using assms sz
    by (simp add: from_bytes_step_def enc slice_from_def slice_def chunk_header_decode_encode Let_def
        chunk_ok_def SparseChunk_total_size_def sparse_sizes)
qed

lemma loop_encode:
  assumes "list_all (chunk_ok (blk_sz hdr)) cs" and "chunk_hdr_sz hdr = 12" and "offset = length pre"
  shows "from_bytes_loop bo (pre @ concat (map (SparseChunk_encode bo) cs) @ rest) hdr (length cs) offset acc =
    Ok (acc @ cs)"
  using assms
proof (induction cs arbitrary: pre offset acc)
  case (Cons c cs)
  let ?tail = "concat (map (SparseChunk_encode bo) cs) @ rest"
  have "from_bytes_step bo (pre @ SparseChunk_encode bo c @ ?tail) hdr offset =
      Ok (c, offset + SparseChunk_total_size c)"
    using Cons.prems by (intro step_encode) simp_all
  moreover have "from_bytes_loop bo ((pre @ SparseChunk_encode bo c) @ ?tail) hdr (length cs)
      (offset + SparseChunk_total_size c) (acc @ [c]) = Ok ((acc @ [c]) @ cs)"
    using Cons.prems by (intro Cons.IH) simp_all
  ultimately show ?case by simp
qed simp

lemma from_bytes_encode:
  assumes "file_ok f"
  shows "from_bytes bo (SparseFile_encode bo f @ rest) = Ok (fix_totals f)"
proof -
  let ?h = "header (fix_totals f)"
  have h: "header_ok ?h" "file_hdr_sz ?h = 28" "chunk_hdr_sz ?h = 12" "blk_sz ?h = blk_sz (header f)"
    "unat (total_chunks ?h) = length (chunks_of f)" "chunks_of (fix_totals f) = chunks_of f"
    using assms by (simp_all add: file_ok_def fix_totals_def header_ok_def)
  let ?body = "concat (map (SparseChunk_encode bo) (chunks_of f)) @ rest"
  have dec: "SparseHeader_decode bo (SparseHeader_encode bo ?h @ ?body) = Ok ?h"
    by (rule sparse_header_decode_encode [OF h(1)])
  have "from_bytes_loop bo (SparseHeader_encode bo ?h @ ?body) ?h (length (chunks_of f)) 28 [] =
      Ok ([] @ chunks_of f)"
    using assms h by (intro loop_encode) (simp_all add: file_ok_def)
  with dec h show ?thesis by (simp add: from_bytes_def SparseFile_encode_concat)
qed

text \<open>The other direction: what the parser accepts is well-formed.\<close>

lemma chunk_header_decode_OkD:
  "SparseChunkHeader_decode bo buf = Ok h \<Longrightarrow> 12 \<le> length buf"
  by (auto simp: SparseChunkHeader_decode_def sparse_sizes split: if_splits)

lemma sparse_decode_noPanic:
  "SparseChunkHeader_decode bo buf \<noteq> Panic" "SparseHeader_decode bo buf \<noteq> Panic"
  by (auto simp: SparseChunkHeader_decode_def SparseHeader_decode_def sparse_sizes
      and_then_eq_Panic get_noPanic)

lemma step_noPanic: "from_bytes_step bo buf hdr offset \<noteq> Panic"
  by (auto simp: from_bytes_step_def and_then_eq_Panic sparse_decode_noPanic slice_from_def
      slice_eq_Panic Let_def)

lemma loop_noPanic: "from_bytes_loop bo buf hdr n offset acc \<noteq> Panic"
  by (induction n arbitrary: offset acc) (auto simp: and_then_eq_Panic step_noPanic)

lemma from_bytes_noPanic: "from_bytes bo buf \<noteq> Panic"
  by (auto simp: from_bytes_def and_then_eq_Panic sparse_decode_noPanic loop_noPanic)

lemma step_OkD:
  assumes "from_bytes_step bo buf hdr offset = Ok (c, off')" and "12 \<le> unat (chunk_hdr_sz hdr)"
  shows "chunk_ok (blk_sz hdr) c"
proof -
  from assms(1) obtain h :: SparseChunkHeader where
    h: "\<not> unat (total_sz h) < unat (chunk_hdr_sz hdr)"
      "check_payload (ch_chunk_type h) (chunk_sz h) (blk_sz hdr) (unat (total_sz h) - unat (chunk_hdr_sz hdr)) = Ok ()"
    and c: "chunk_type c = ch_chunk_type h" "chunk_blocks c = chunk_sz h"
      "length (payload c) = unat (total_sz h) - unat (chunk_hdr_sz hdr)"
    by (auto simp: from_bytes_step_def slice_eq_Ok Let_def split: if_splits)
  with assms(2) u32_less [of "total_sz h"] show ?thesis
    by (simp add: chunk_ok_def sparse_sizes)
qed

lemma loop_OkD:
  assumes "from_bytes_loop bo buf hdr n offset acc = Ok cs" and "12 \<le> unat (chunk_hdr_sz hdr)"
    and "list_all (chunk_ok (blk_sz hdr)) acc"
  shows "list_all (chunk_ok (blk_sz hdr)) cs \<and> length cs = length acc + n"
  using assms
proof (induction n arbitrary: offset acc)
  case (Suc n)
  then obtain c off' where "from_bytes_step bo buf hdr offset = Ok (c, off')"
    and "from_bytes_loop bo buf hdr n off' (acc @ [c]) = Ok cs" by auto
  with Suc step_OkD show ?case by fastforce
qed simp

end

section \<open>Raw images\<close>

definition pad_to :: "nat \<Rightarrow> bytes \<Rightarrow> bytes" where
  "pad_to n xs = xs @ replicate ((n - length xs mod n) mod n) 0"

lemma pad_to_dvd: "0 < n \<Longrightarrow> length (pad_to n xs) mod n = 0"
proof -
  assume n: "0 < n"
  have "(length xs + (n - length xs mod n) mod n) mod n = (length xs mod n + (n - length xs mod n)) mod n"
    by (simp add: mod_simps)
  then show "length (pad_to n xs) mod n = 0"
    using n by (simp add: pad_to_def)
qed

lemma pad_to_cases:
  assumes "0 < n"
  shows "pad_to n xs = (if length xs mod n \<noteq> 0 then resize (length xs + (n - length xs mod n)) 0 xs else xs)"
proof (cases "length xs mod n = 0")
  case False
  then have "(n - length xs mod n) mod n = n - length xs mod n" by (intro mod_less) (use assms in auto)
  with False show ?thesis by (simp add: pad_to_def resize_extend)
qed (simp add: pad_to_def)

lemma pad_to_Nil [simp]: "pad_to n [] = []"
  by (simp add: pad_to_def)

lemma from_raw_chunk:
  assumes "bsz \<noteq> 0" and "raw \<noteq> []"
  shows "from_raw raw bsz = add_chunk (SparseFile_new bsz)
    \<lparr>chunk_type = CHUNK_TYPE_RAW, chunk_blocks = as_u32 (length (pad_to (unat bsz) raw) div unat bsz),
     payload = pad_to (unat bsz) raw\<rparr>"
proof -
  have b: "0 < unat bsz" using assms(1) by (simp add: unat_gt_0)
  have "pad_to (unat bsz) raw \<noteq> []" using assms(2) by (simp add: pad_to_def)
  then have "SparseChunk_raw (pad_to (unat bsz) raw) bsz = Ok
      \<lparr>chunk_type = CHUNK_TYPE_RAW, chunk_blocks = as_u32 (length (pad_to (unat bsz) raw) div unat bsz),
       payload = pad_to (unat bsz) raw\<rparr>"
    using assms(1) pad_to_dvd [OF b] by (simp add: SparseChunk_raw_def)
  then show ?thesis
    using assms pad_to_cases [OF b, of raw]
    by (cases "length raw mod unat bsz = 0") (simp_all add: from_raw_def SparseChunkBuilder_raw_def Let_def)
qed

lemma to_raw_from_raw:
  assumes "bsz \<noteq> 0"
  shows "to_raw bo (from_raw raw bsz) = pad_to (unat bsz) raw"
proof (cases "raw = []")
  case True
  with assms show ?thesis by (simp add: from_raw_def to_raw_concat)
next
  case False
  with assms show ?thesis by (simp add: from_raw_chunk to_raw_concat chunk_image_def chunk_to_raw_def)
qed

lemma file_ok_from_raw:
  assumes "bsz \<noteq> 0" and "length raw + unat bsz + 12 < 2 ^ 32"
  shows "file_ok (from_raw raw bsz) \<and> totals_ok (from_raw raw bsz)"
proof (cases "raw = []")
  case True
  with assms show ?thesis by (simp add: from_raw_def file_ok_def)
next
  case False
  let ?p = "pad_to (unat bsz) raw"
  have b: "0 < unat bsz" using assms(1) by (simp add: unat_gt_0)
  then have "(unat bsz - length raw mod unat bsz) mod unat bsz < unat bsz" by (rule mod_less_divisor)
  then have len: "length ?p + 12 < 2 ^ 32" using assms(2) by (simp add: pad_to_def)
  moreover have "length ?p div unat bsz \<le> length ?p" by (rule div_le_dividend)
  ultimately have "unat (as_u32 (length ?p div unat bsz)) = length ?p div unat bsz"
    by (intro unat_as_u32_small) linarith
  then have "chunk_ok bsz \<lparr>chunk_type = CHUNK_TYPE_RAW, chunk_blocks = as_u32 (length ?p div unat bsz), payload = ?p\<rparr>"
    using dvd_div_mult_self [OF mod_0_imp_dvd [OF pad_to_dvd [OF b, of raw]]] len
    by (simp add: chunk_ok_def check_payload_def sparse_sizes)
  then show ?thesis using assms(1) False by (simp add: from_raw_chunk file_ok_def)
qed

section \<open>Properties\<close>

text \<open>
  C17: Parsing is the inverse of encoding on well-formed sparse files: the bytes that \<open>encode\<close> writes,
  whatever follows them, are read back as the same chunks under the same header, with the block and
  chunk totals that \<open>encode\<close> recomputes.
\<close>

theorem sparse_roundtrip:
  assumes "little_endian bo" and "file_ok f"
  shows "from_bytes bo (SparseFile_encode bo f @ rest) = Ok (fix_totals f)"
  using assms by (rule little_endian.from_bytes_encode)

definition sample_sparse :: SparseFile where
  "sample_sparse = add_chunk (add_chunk (SparseFile_new 4)
     \<lparr>chunk_type = CHUNK_TYPE_RAW, chunk_blocks = 2, payload = [1, 2, 3, 4, 5, 6, 7, 8]\<rparr>)
     \<lparr>chunk_type = CHUNK_TYPE_FILL, chunk_blocks = 3, payload = [9, 9, 9, 9]\<rparr>"

lemma sample_sparse_ok: "file_ok sample_sparse" "totals_ok sample_sparse"
  by (simp_all add: sample_sparse_def file_ok_def chunk_ok_def check_payload_def sparse_sizes)

theorem sparse_roundtrip_witness:
  "from_bytes std_byteorder (SparseFile_encode std_byteorder sample_sparse @ [0]) =
     Ok (fix_totals sample_sparse)"
  by (rule sparse_roundtrip [OF std_byteorder_little_endian sample_sparse_ok(1)])



text \<open>
  Converting a raw image to a sparse file and back gives the image, padded with zeros to a
  multiple of the block size, whose size is not zero; and the sparse file is well-formed, so that it
  survives the wire, when it fits the format's 32-bit sizes.
\<close>

theorem raw_sparse_raw:
  assumes "bsz \<noteq> 0"
  shows "to_raw bo (from_raw raw bsz) = pad_to (unat bsz) raw \<and>
    (length raw + unat bsz + 12 < 2 ^ 32 \<longrightarrow> file_ok (from_raw raw bsz) \<and> totals_ok (from_raw raw bsz))"
  using assms to_raw_from_raw file_ok_from_raw by blast

theorem raw_sparse_raw_witness:
  "to_raw std_byteorder (from_raw [1, 2, 3, 4, 5] 4) = pad_to (unat (4 :: u32)) [1, 2, 3, 4, 5] \<and>
   pad_to (unat (4 :: u32)) [1, 2, 3, 4, 5] = [1, 2, 3, 4, 5, 0, 0, 0]"
proof
  show "to_raw std_byteorder (from_raw [1, 2, 3, 4, 5] 4) = pad_to (unat (4 :: u32)) [1, 2, 3, 4, 5]"
    by (rule raw_sparse_raw [THEN conjunct1]) simp
  show "pad_to (unat (4 :: u32)) [1, 2, 3, 4, 5] = [1, 2, 3, 4, 5, 0, 0, 0]"
    by code_simp
qed

end
