(* ===== verification/Sparse_Split.thy ===== *)
theory Sparse_Split
  imports Sparse
begin

text \<open>
  \<open>SparseFile::split\<close> of \<open>crates/fastboot-protocol/src/sparse.rs\<close>: cutting a sparse image into
  pieces that fit the download buffer of a device. The inner \<open>while\<close> loop is the function
  \<open>split_chunk\<close>, whose termination is part of the development: a round either consumes blocks,
  closes the current piece, or shrinks the room that is left in it.
\<close>

text \<open>
  The second component of the termination measure. A round on a \<open>RAW\<close> chunk takes no block only when
  \<open>blocks_that_fit as u32\<close> truncates to zero; then the empty chunk it adds uses up room.
\<close>

definition split_rank :: "nat \<Rightarrow> u32 \<Rightarrow> SparseChunk \<Rightarrow> SparseFile \<Rightarrow> nat" where
  "split_rank max_size bsz chunk current =
     (if chunk_type chunk \<noteq> CHUNK_TYPE_RAW then (if chunks_of current = [] then 0 else 1)
      else if (max_size - SparseFile_total_size current - SparseChunkHeader_SIZE) div unat bsz = 0
      then (if chunks_of current = [] then 0 else max_size + 1)
      else max_size - SparseFile_total_size current)"

function split_chunk ::
  "nat \<Rightarrow> u32 \<Rightarrow> SparseChunk \<Rightarrow> u32 \<Rightarrow> nat \<Rightarrow> SparseFile \<Rightarrow> SparseFile list \<Rightarrow>
   (SparseFile \<times> SparseFile list, SparseError) outcome" where
  "split_chunk max_size bsz chunk remaining_blocks raw_offset current_file splits =
     (if \<not> (remaining_blocks > 0 \<or> chunk_type chunk = CHUNK_TYPE_CRC32) then Ok (current_file, splits)
      else
        let current_len = SparseFile_total_size current_file;
            avail = max_size - current_len;
            min_required = SparseHeader_SIZE + SparseChunkHeader_SIZE + unat bsz
        in
        if chunk_type chunk = CHUNK_TYPE_RAW then
          let avail_payload = avail - SparseChunkHeader_SIZE;
              blocks_that_fit = avail_payload div unat bsz
          in
          if blocks_that_fit = 0 then
            (if chunks_of current_file \<noteq> [] then
               split_chunk max_size bsz chunk remaining_blocks raw_offset (SparseFile_new bsz)
                 (splits @ [current_file])
             else Err (MaxDownloadSizeTooSmall max_size min_required))
          else
            let take_blocks = min remaining_blocks (as_u32 blocks_that_fit);
                take_bytes = unat take_blocks * unat bsz
            in
            and_then (slice (payload chunk) raw_offset (raw_offset + take_bytes)) (\<lambda>slice_payload.
              split_chunk max_size bsz chunk (remaining_blocks - take_blocks) (raw_offset + take_bytes)
                (add_chunk current_file \<lparr>chunk_type = CHUNK_TYPE_RAW, chunk_blocks = take_blocks,
                   payload = slice_payload\<rparr>) splits)
        else if chunk_type chunk = CHUNK_TYPE_FILL then
          (if avail < SparseChunkHeader_SIZE + 4 then
             (if chunks_of current_file \<noteq> [] then
                split_chunk max_size bsz chunk remaining_blocks raw_offset (SparseFile_new bsz)
                  (splits @ [current_file])
              else Err (MaxDownloadSizeTooSmall max_size min_required))
           else
             split_chunk max_size bsz chunk 0 raw_offset
               (add_chunk current_file \<lparr>chunk_type = CHUNK_TYPE_FILL, chunk_blocks = remaining_blocks,
                  payload = payload chunk\<rparr>) splits)
        else if chunk_type chunk = CHUNK_TYPE_DONT_CARE then
          (if avail < SparseChunkHeader_SIZE then
             (if chunks_of current_file \<noteq> [] then
                split_chunk max_size bsz chunk remaining_blocks raw_offset (SparseFile_new bsz)
                  (splits @ [current_file])
              else Err (MaxDownloadSizeTooSmall max_size min_required))
           else
             split_chunk max_size bsz chunk 0 raw_offset
               (add_chunk current_file \<lparr>chunk_type = CHUNK_TYPE_DONT_CARE,
                  chunk_blocks = remaining_blocks, payload = []\<rparr>) splits)
        else if chunk_type chunk = CHUNK_TYPE_CRC32 then
          (if avail < SparseChunkHeader_SIZE + 4 then
             (if chunks_of current_file \<noteq> [] then
                split_chunk max_size bsz chunk remaining_blocks raw_offset (SparseFile_new bsz)
                  (splits @ [current_file])
              else Err (MaxDownloadSizeTooSmall max_size min_required))
           else
             Ok (add_chunk current_file \<lparr>chunk_type = CHUNK_TYPE_CRC32, chunk_blocks = 0,
                   payload = payload chunk\<rparr>, splits))
        else Err (UnknownChunkType (chunk_type chunk)))"
  by pat_completeness auto

text \<open>The case of the measure where truncation takes no block.\<close>

lemma div_minus_12:
  fixes x b :: nat
  assumes "13 \<le> x div b"
  shows "0 < (x - 12) div b"
proof -
  have b: "0 < b" using assms by (cases b) auto
  have "13 * b \<le> x div b * b" using assms by (rule mult_le_mono1)
  also have "\<dots> \<le> x" by (simp add: mult.commute)
  finally have "b \<le> x - 12" using b by linarith
  then show ?thesis using b by (simp add: div_greater_zero_iff)
qed

lemma truncated_take:
  assumes "min (r :: u32) (as_u32 bf) = 0" and "r > 0" and "bf \<noteq> 0"
  shows "13 \<le> bf"
proof -
  have "as_u32 bf = 0" using assms(1,2) by (auto simp: min_def split: if_splits)
  then have "bf mod 2 ^ 32 = 0" using unat_as_u32 [of bf] by simp
  then show ?thesis using assms(3) by (cases "bf < 2 ^ 32") auto
qed

lemma split_rank_raw_step:
  assumes ty: "chunk_type chunk = CHUNK_TYPE_RAW" and r: "r > 0"
    and bf_def: "bf = (max_size - SparseFile_total_size cur - SparseChunkHeader_SIZE) div unat bsz"
    and bf: "bf \<noteq> 0"
    and sl: "slice (payload chunk) off (off + unat (min r (as_u32 bf)) * unat bsz) = Ok s"
  shows "unat (r - min r (as_u32 bf)) < unat r \<or> unat (r - min r (as_u32 bf)) = unat r \<and> split_rank max_size bsz chunk (add_chunk cur \<lparr>chunk_type = CHUNK_TYPE_RAW,
      chunk_blocks = min r (as_u32 bf), payload = s\<rparr>) < split_rank max_size bsz chunk cur"
proof (cases "min r (as_u32 bf) = 0")
  case False
  moreover have "min r (as_u32 bf) \<le> r" by simp
  ultimately have "unat (r - min r (as_u32 bf)) < unat r"
    using r by (simp add: unat_sub word_le_nat_alt unat_gt_0)
  then show ?thesis ..
next
  case z: True
  from sl z have s: "s = []" by (simp add: slice_eq_Ok)
  have "13 \<le> bf" using truncated_take [OF z r bf] .
  from div_minus_12 [OF this [unfolded bf_def]]
  have "0 < (max_size - (SparseFile_total_size cur + 12) - SparseChunkHeader_SIZE) div unat bsz"
    by (simp add: sparse_sizes)
  moreover have "12 < max_size - SparseFile_total_size cur"
    using bf by (cases "12 < max_size - SparseFile_total_size cur") (auto simp: sparse_sizes bf_def)
  ultimately show ?thesis
    using ty bf s z by (simp add: split_rank_def bf_def)
qed

lemma split_rank_flush:
  assumes "chunks_of cur \<noteq> []"
    and "chunk_type chunk = CHUNK_TYPE_RAW \<Longrightarrow>
      (max_size - SparseFile_total_size cur - SparseChunkHeader_SIZE) div unat bsz = 0"
  shows "split_rank max_size bsz chunk (SparseFile_new bsz) < split_rank max_size bsz chunk cur"
  using assms by (auto simp: split_rank_def)

termination split_chunk
proof (relation "measures [\<lambda>(mx, bsz, chunk, r, off, cur, sp). unat r,
    \<lambda>(mx, bsz, chunk, r, off, cur, sp). split_rank mx bsz chunk cur]", goal_cases)
  case 1
  show ?case by simp
next
  case 3
  then show ?case
    by (simp only: in_measures case_prod_conv simp_thms) (rule split_rank_raw_step, simp_all)
qed (auto simp: unat_gt_0 intro: split_rank_flush)

declare split_chunk.simps [simp del]

fun split_chunks ::
  "nat \<Rightarrow> u32 \<Rightarrow> SparseChunk list \<Rightarrow> SparseFile \<Rightarrow> SparseFile list \<Rightarrow>
   (SparseFile \<times> SparseFile list, SparseError) outcome" where
  "split_chunks max_size bsz [] current_file splits = Ok (current_file, splits)"
| "split_chunks max_size bsz (chunk # cs) current_file splits =
     and_then (split_chunk max_size bsz chunk (chunk_blocks chunk) 0 current_file splits)
       (\<lambda>(current_file, splits). split_chunks max_size bsz cs current_file splits)"

definition split_file :: "SparseFile \<Rightarrow> nat \<Rightarrow> (SparseFile list, SparseError) outcome" where
  "split_file f max_size =
     (let bsz = unat (blk_sz (header f)) in
      if bsz = 0 then Err (InvalidBlockSize 0)
      else
        let min_required = SparseHeader_SIZE + SparseChunkHeader_SIZE + bsz in
        if max_size < min_required then Err (MaxDownloadSizeTooSmall max_size min_required)
        else
          and_then (split_chunks max_size (blk_sz (header f)) (chunks_of f)
              (SparseFile_new (blk_sz (header f))) [])
            (\<lambda>(current_file, splits).
              Ok (if chunks_of current_file \<noteq> [] then splits @ [current_file] else splits)))"

section \<open>The invariant of the loop\<close>

text \<open>Every piece has a header of its own, well-formed chunks, and fits \<open>max_size\<close>.\<close>

definition piece :: "nat \<Rightarrow> u32 \<Rightarrow> SparseFile \<Rightarrow> bool" where
  "piece max_size bsz f \<longleftrightarrow> header_ok (header f) \<and> file_hdr_sz (header f) = 28 \<and>
     chunk_hdr_sz (header f) = 12 \<and> blk_sz (header f) = bsz \<and> totals_ok f \<and>
     list_all (chunk_ok bsz) (chunks_of f) \<and> SparseFile_total_size f \<le> max_size"

definition split_inv :: "nat \<Rightarrow> u32 \<Rightarrow> SparseFile \<Rightarrow> SparseFile list \<Rightarrow> bool" where
  "split_inv max_size bsz cur sp \<longleftrightarrow> piece max_size bsz cur \<and>
     list_all (\<lambda>p. piece max_size bsz p \<and> chunks_of p \<noteq> []) sp"

text \<open>The raw bytes of the pieces made so far, and those a chunk still has to contribute.\<close>

definition images :: "byteorder \<Rightarrow> SparseFile \<Rightarrow> SparseFile list \<Rightarrow> bytes" where
  "images bo cur sp = concat (map (to_raw bo) sp) @ to_raw bo cur"

definition rest_image :: "byteorder \<Rightarrow> u32 \<Rightarrow> SparseChunk \<Rightarrow> u32 \<Rightarrow> nat \<Rightarrow> bytes" where
  "rest_image bo bsz chunk r off =
     (if chunk_type chunk = CHUNK_TYPE_RAW then drop off (payload chunk)
      else chunk_image bo bsz (chunk\<lparr>chunk_blocks := r\<rparr>))"

definition split_post ::
  "byteorder \<Rightarrow> nat \<Rightarrow> u32 \<Rightarrow> bytes \<Rightarrow> SparseFile \<Rightarrow> SparseFile list \<Rightarrow>
   (SparseFile \<times> SparseFile list, SparseError) outcome \<Rightarrow> bool" where
  "split_post bo max_size bsz img cur sp res \<longleftrightarrow>
     (\<exists>cur' sp'. res = Ok (cur', sp') \<and> split_inv max_size bsz cur' sp' \<and>
        images bo cur' sp' = images bo cur sp @ img)"

lemma piece_new: "28 \<le> max_size \<Longrightarrow> piece max_size bsz (SparseFile_new bsz)"
  by (simp add: piece_def)

lemma images_flush: "images bo (SparseFile_new bsz) (sp @ [cur]) = images bo cur sp"
  by (simp add: images_def to_raw_concat)

lemma images_add:
  "blk_sz (header cur) = bsz \<Longrightarrow> images bo (add_chunk cur c) sp = images bo cur sp @ chunk_image bo bsz c"
  by (simp add: images_def to_raw_concat)

lemma inv_flush:
  "split_inv max_size bsz cur sp \<Longrightarrow> chunks_of cur \<noteq> [] \<Longrightarrow> 28 \<le> max_size \<Longrightarrow>
   split_inv max_size bsz (SparseFile_new bsz) (sp @ [cur])"
  by (simp add: split_inv_def piece_new)

lemma inv_add:
  "split_inv max_size bsz cur sp \<Longrightarrow> chunk_ok bsz c \<Longrightarrow>
   SparseFile_total_size cur + 12 + length (payload c) \<le> max_size \<Longrightarrow>
   split_inv max_size bsz (add_chunk cur c) sp"
  by (simp add: split_inv_def piece_def)

lemma inv_sizes:
  assumes "split_inv max_size bsz cur sp"
  shows "SparseFile_total_size cur \<le> max_size" "blk_sz (header cur) = bsz"
    "chunks_of cur = [] \<Longrightarrow> SparseFile_total_size cur = 28"
  using assms by (simp_all add: split_inv_def piece_def SparseFile_total_size_def sparse_sizes)

text \<open>A round of the loop closes a piece or adds a chunk; then it goes on.\<close>

lemma post_flush:
  assumes "split_post bo max_size bsz img (SparseFile_new bsz) (sp @ [cur]) res"
  shows "split_post bo max_size bsz img cur sp res"
  using assms by (simp add: split_post_def images_flush)

lemma post_add:
  assumes "split_post bo max_size bsz img (add_chunk cur c) sp res"
    and "split_inv max_size bsz cur sp"
  shows "split_post bo max_size bsz (chunk_image bo bsz c @ img) cur sp res"
  using assms by (simp add: split_post_def images_add inv_sizes(2))

lemma post_done: "split_inv max_size bsz cur sp \<Longrightarrow> split_post bo max_size bsz [] cur sp (Ok (cur, sp))"
  by (simp add: split_post_def)

lemma post_add_done:
  assumes "split_inv max_size bsz cur sp" and "chunk_ok bsz c"
    and "SparseFile_total_size cur + 12 + length (payload c) \<le> max_size"
  shows "split_post bo max_size bsz (chunk_image bo bsz c) cur sp (Ok (add_chunk cur c, sp))"
  using post_add [OF post_done [OF inv_add [OF assms]] assms(1)] by simp

lemma split_chunk_zero:
  "chunk_type chunk \<noteq> CHUNK_TYPE_CRC32 \<Longrightarrow> split_chunk mx bsz chunk 0 off cur sp = Ok (cur, sp)"
  by (simp add: split_chunk.simps)

text \<open>The blocks a round takes from a \<open>RAW\<close> chunk.\<close>

lemma take_blocks_bounds:
  assumes "take_blocks = min r (as_u32 ((max_size - len - 12) div unat bsz))"
    and "(max_size - len - 12) div unat bsz \<noteq> 0"
  shows "unat take_blocks \<le> unat r" "len + 12 + unat take_blocks * unat bsz \<le> max_size"
    "unat (r - take_blocks) = unat r - unat take_blocks"
proof -
  let ?bf = "(max_size - len - 12) div unat bsz"
  have le: "take_blocks \<le> r" "take_blocks \<le> as_u32 ?bf" using assms(1) by simp_all
  then show "unat take_blocks \<le> unat r" "unat (r - take_blocks) = unat r - unat take_blocks"
    by (simp_all add: word_le_nat_alt unat_sub)
  have "unat take_blocks \<le> ?bf"
    using le(2) unat_as_u32 [of ?bf] by (simp add: word_le_nat_alt)
  then have "unat take_blocks * unat bsz \<le> ?bf * unat bsz" by (rule mult_le_mono1)
  also have "\<dots> \<le> max_size - len - 12" by (simp add: mult.commute)
  moreover have "12 < max_size - len" using assms(2) by (cases "12 < max_size - len") auto
  ultimately show "len + 12 + unat take_blocks * unat bsz \<le> max_size" by linarith
qed

text \<open>Chunks other than \<open>RAW\<close> are never cut: they go into the current piece or into a new one.\<close>

definition whole_chunk :: "SparseChunk \<Rightarrow> u32 \<Rightarrow> SparseChunk" where
  "whole_chunk chunk r = \<lparr>chunk_type = chunk_type chunk,
     chunk_blocks = (if chunk_type chunk = CHUNK_TYPE_CRC32 then 0 else r), payload = payload chunk\<rparr>"

lemma chunk_ok_cases:
  assumes "chunk_ok bsz chunk"
  obtains (raw) "chunk_type chunk = CHUNK_TYPE_RAW" "length (payload chunk) = unat (chunk_blocks chunk) * unat bsz"
  | (fill) "chunk_type chunk = CHUNK_TYPE_FILL" "length (payload chunk) = 4"
  | (dont_care) "chunk_type chunk = CHUNK_TYPE_DONT_CARE" "payload chunk = []"
  | (crc32) "chunk_type chunk = CHUNK_TYPE_CRC32" "length (payload chunk) = 4"
  using assms by (auto simp: chunk_ok_def check_payload_def Let_def split: if_splits)

lemma whole_chunk_ok:
  "chunk_ok bsz chunk \<Longrightarrow> chunk_type chunk \<noteq> CHUNK_TYPE_RAW \<Longrightarrow> chunk_ok bsz (whole_chunk chunk r)"
  by (auto simp: chunk_ok_def check_payload_def whole_chunk_def split: if_splits)

lemma whole_chunk_image:
  "chunk_type chunk \<noteq> CHUNK_TYPE_RAW \<Longrightarrow>
   chunk_image bo bsz (whole_chunk chunk r) = rest_image bo bsz chunk r off"
  by (simp add: rest_image_def chunk_image_def chunk_to_raw_def whole_chunk_def Let_def)

lemma rest_image_done:
  assumes "chunk_ok bsz chunk" and "chunk_type chunk \<noteq> CHUNK_TYPE_RAW"
  shows "rest_image bo bsz chunk 0 off = []"
  using assms by (simp add: rest_image_def chunk_image_def chunk_to_raw_def resize_def)

lemma split_whole_room:
  assumes ok: "chunk_ok bsz chunk" and ty: "chunk_type chunk \<noteq> CHUNK_TYPE_RAW"
    and inv: "split_inv max_size bsz cur sp" and r: "r > 0 \<or> chunk_type chunk = CHUNK_TYPE_CRC32"
    and room: "SparseFile_total_size cur + 12 + length (payload chunk) \<le> max_size"
  shows "split_post bo max_size bsz (rest_image bo bsz chunk r off) cur sp
    (split_chunk max_size bsz chunk r off cur sp)"
proof -
  have "split_chunk max_size bsz chunk r off cur sp = Ok (add_chunk cur (whole_chunk chunk r), sp)"
    using ok
  proof (cases rule: chunk_ok_cases)
    case raw
    with ty show ?thesis by simp
  qed (use r room in \<open>simp_all add: split_chunk.simps [of _ _ _ r] split_chunk_zero whole_chunk_def sparse_sizes\<close>)
  moreover have "payload (whole_chunk chunk r) = payload chunk" by (simp add: whole_chunk_def)
  ultimately show ?thesis
    using post_add_done [OF inv whole_chunk_ok [OF ok ty], of r bo] room whole_chunk_image [OF ty]
    by simp
qed

lemma split_whole:
  assumes ok: "chunk_ok bsz chunk" and ty: "chunk_type chunk \<noteq> CHUNK_TYPE_RAW"
    and inv: "split_inv max_size bsz cur sp" and sz: "4 \<le> unat bsz" "40 + unat bsz \<le> max_size"
  shows "split_post bo max_size bsz (rest_image bo bsz chunk r off) cur sp
    (split_chunk max_size bsz chunk r off cur sp)"
proof (cases "r > 0 \<or> chunk_type chunk = CHUNK_TYPE_CRC32")
  case False
  then have "r = 0" by (simp add: word_gt_0)
  with False show ?thesis
    using post_done [OF inv] rest_image_done [OF ok ty] by (simp add: split_chunk_zero)
next
  case True
  show ?thesis
  proof (cases "SparseFile_total_size cur + 12 + length (payload chunk) \<le> max_size")
    case room: True
    show ?thesis by (rule split_whole_room [OF ok ty inv True room])
  next
    case full: False
    have p: "length (payload chunk) \<le> 4" using ok ty by (cases rule: chunk_ok_cases) auto
    then have ne: "chunks_of cur \<noteq> []"
      using full sz inv_sizes(3) [OF inv] by auto
    have lt: "max_size - SparseFile_total_size cur < 12 + length (payload chunk)" using full by linarith
    have "split_chunk max_size bsz chunk r off cur sp =
        split_chunk max_size bsz chunk r off (SparseFile_new bsz) (sp @ [cur])"
      using ok
    proof (cases rule: chunk_ok_cases)
      case raw
      with ty show ?thesis by simp
    qed (use True lt ne in \<open>simp_all add: split_chunk.simps [of _ _ _ r _ cur] sparse_sizes\<close>)
    moreover have "split_inv max_size bsz (SparseFile_new bsz) (sp @ [cur])"
      using inv_flush [OF inv ne] sz by simp
    then have "split_post bo max_size bsz (rest_image bo bsz chunk r off) (SparseFile_new bsz) (sp @ [cur])
        (split_chunk max_size bsz chunk r off (SparseFile_new bsz) (sp @ [cur]))"
      using p sz by (intro split_whole_room [OF ok ty _ True]) simp_all
    ultimately show ?thesis by (simp only: post_flush)
  qed
qed

text \<open>\<open>RAW\<close> chunks are cut at block boundaries.\<close>

lemma split_chunk_raw_step:
  assumes "chunk_type chunk = CHUNK_TYPE_RAW" and "r > 0" and "bf \<noteq> 0"
    and "bf = (max_size - SparseFile_total_size cur - SparseChunkHeader_SIZE) div unat bsz"
    and "tk = min r (as_u32 bf)" and "n = unat tk * unat bsz"
    and "slice (payload chunk) off (off + n) = (Ok s :: (bytes, SparseError) outcome)"
  shows "split_chunk max_size bsz chunk r off cur sp =
    split_chunk max_size bsz chunk (r - tk) (off + n)
      (add_chunk cur \<lparr>chunk_type = CHUNK_TYPE_RAW, chunk_blocks = tk, payload = s\<rparr>) sp"
  using assms(1,2,3,7)
  by (subst split_chunk.simps) (simp only: Let_def assms(4) [symmetric] assms(5) [symmetric] assms(6) [symmetric]
      if_False if_True simp_thms and_then.simps)

lemma split_raw:
  assumes "chunk_type chunk = CHUNK_TYPE_RAW" and "chunk_ok bsz chunk"
    and "4 \<le> unat bsz" and "40 + unat bsz \<le> max_size"
    and "split_inv max_size bsz cur sp" and "length (payload chunk) = off + unat r * unat bsz"
  shows "split_post bo max_size bsz (drop off (payload chunk)) cur sp
    (split_chunk max_size bsz chunk r off cur sp)"
  using assms
proof (induction max_size bsz chunk r off cur sp rule: split_chunk.induct)
  case (1 max_size bsz chunk r off cur sp)
  note prems = "1.prems"
  let ?bf = "(max_size - SparseFile_total_size cur - SparseChunkHeader_SIZE) div unat bsz"
  let ?take = "min r (as_u32 ?bf)"
  show ?case
  proof (cases "r > 0")
    case False
    then have "r = 0" by (simp add: word_gt_0)
    then show ?thesis
      using prems post_done [OF prems(5)] by (simp add: split_chunk_zero)
  next
    case r: True
    show ?thesis
    proof (cases "?bf = 0")
      case full: True
      have "chunks_of cur \<noteq> []"
        using full prems(3,4) inv_sizes(3) [OF prems(5)] by (auto simp: div_eq_0_iff sparse_sizes)
      moreover from this have "split_post bo max_size bsz (drop off (payload chunk)) (SparseFile_new bsz) (sp @ [cur])
          (split_chunk max_size bsz chunk r off (SparseFile_new bsz) (sp @ [cur]))"
        using r full prems inv_flush [OF prems(5)] by (intro "1.IH"(1) [OF _ refl refl refl _ refl refl]) simp_all
      ultimately show ?thesis
        using r full prems(1) by (simp add: split_chunk.simps [of _ _ _ r _ cur] post_flush)
    next
      case False
      define tk where "tk = ?take"
      define n where "n = unat tk * unat bsz"
      define s where "s = take n (drop off (payload chunk))"
      let ?c = "\<lparr>chunk_type = CHUNK_TYPE_RAW, chunk_blocks = tk, payload = s\<rparr>"
      note b = take_blocks_bounds [OF tk_def [unfolded sparse_sizes] False [unfolded sparse_sizes]]
      have n: "off + n \<le> length (payload chunk)" using b(1) prems(6) by (simp add: n_def)
      then have s: "length s = n" by (simp add: s_def)
      have sl: "slice (payload chunk) off (off + n) = Ok s"
        using n by (simp add: slice_def s_def)
      have "SparseChunkHeader_SIZE + length (payload chunk) < 2 ^ 32"
        using prems(2) by (simp add: chunk_ok_def)
      then have ok: "chunk_ok bsz ?c"
        using n s by (simp add: chunk_ok_def check_payload_def n_def)
      have inv: "split_inv max_size bsz (add_chunk cur ?c) sp"
        using inv_add [OF prems(5) ok] b(2) s by (simp add: n_def)
      have "unat r * unat bsz = n + unat (r - tk) * unat bsz"
        using b(1,3) by (simp add: n_def add_mult_distrib [symmetric])
      then have "split_post bo max_size bsz (drop (off + n) (payload chunk)) (add_chunk cur ?c) sp
          (split_chunk max_size bsz chunk (r - tk) (off + n) (add_chunk cur ?c) sp)"
        unfolding n_def tk_def
        using r False prems(1-4,6) sl [unfolded n_def tk_def] inv [unfolded tk_def]
        by (intro "1.IH"(2) [OF _ refl refl refl _ refl refl _ refl refl]) simp_all
      from post_add [OF this prems(5)]
      have "split_post bo max_size bsz (drop off (payload chunk)) cur sp
          (split_chunk max_size bsz chunk (r - tk) (off + n) (add_chunk cur ?c) sp)"
        by (simp add: chunk_image_def chunk_to_raw_def s_def add.commute [of off] drop_drop [symmetric] del: drop_drop)
      then show ?thesis
        using split_chunk_raw_step [OF prems(1) r False refl tk_def n_def sl] by (simp only:)
    qed
  qed
qed

lemma rest_image_start: "rest_image bo bsz chunk (chunk_blocks chunk) 0 = chunk_image bo bsz chunk"
  by (simp add: rest_image_def chunk_image_def chunk_to_raw_def)

lemma split_chunk_post:
  assumes "chunk_ok bsz chunk" and "4 \<le> unat bsz" and "40 + unat bsz \<le> max_size"
    and "split_inv max_size bsz cur sp"
  shows "split_post bo max_size bsz (chunk_image bo bsz chunk) cur sp
    (split_chunk max_size bsz chunk (chunk_blocks chunk) 0 cur sp)"
proof (cases "chunk_type chunk = CHUNK_TYPE_RAW")
  case True
  have "length (payload chunk) = 0 + unat (chunk_blocks chunk) * unat bsz"
    using assms(1) by (cases rule: chunk_ok_cases) (use True in auto)
  from split_raw [OF True assms this] True show ?thesis
    by (simp add: chunk_image_def chunk_to_raw_def)
next
  case False
  from split_whole [OF assms(1) False assms(4,2,3)] show ?thesis
    by (simp only: rest_image_start [symmetric])
qed

lemma split_chunks_post:
  assumes "list_all (chunk_ok bsz) cs" and "4 \<le> unat bsz" and "40 + unat bsz \<le> max_size"
    and "split_inv max_size bsz cur sp"
  shows "split_post bo max_size bsz (concat (map (chunk_image bo bsz) cs)) cur sp
    (split_chunks max_size bsz cs cur sp)"
  using assms
proof (induction cs arbitrary: cur sp)
  case Nil
  then show ?case by (simp add: post_done)
next
  case (Cons c cs)
  then obtain cur1 sp1 where step: "split_chunk max_size bsz c (chunk_blocks c) 0 cur sp = Ok (cur1, sp1)"
    and inv: "split_inv max_size bsz cur1 sp1"
    and img: "images bo cur1 sp1 = images bo cur sp @ chunk_image bo bsz c"
    using split_chunk_post [of bsz c max_size cur sp bo] by (auto simp: split_post_def)
  with Cons.IH [OF _ Cons.prems(2,3) inv] Cons.prems(1) show ?case
    by (auto simp: split_post_def)
qed

lemma split_file_post:
  assumes "list_all (chunk_ok (blk_sz (header f))) (chunks_of f)" and "4 \<le> unat (blk_sz (header f))"
    and "40 + unat (blk_sz (header f)) \<le> max_size"
  shows "\<exists>fs. split_file f max_size = Ok fs \<and>
    (\<forall>p \<in> set fs. piece max_size (blk_sz (header f)) p \<and> chunks_of p \<noteq> []) \<and>
    concat (map (to_raw bo) fs) = to_raw bo f"
proof -
  let ?b = "blk_sz (header f)"
  have "split_inv max_size ?b (SparseFile_new ?b) []"
    using assms(3) by (simp add: split_inv_def piece_new)
  from split_chunks_post [OF assms this, of bo] obtain cur sp where
    res: "split_chunks max_size ?b (chunks_of f) (SparseFile_new ?b) [] = Ok (cur, sp)"
    and inv: "split_inv max_size ?b cur sp" and img: "images bo cur sp = to_raw bo f"
    by (auto simp: split_post_def images_def to_raw_concat)
  let ?fs = "if chunks_of cur \<noteq> [] then sp @ [cur] else sp"
  have "split_file f max_size = Ok ?fs"
    using assms(2,3) res by (simp add: split_file_def Let_def sparse_sizes)
  moreover have "\<forall>p \<in> set ?fs. piece max_size ?b p \<and> chunks_of p \<noteq> []"
    using inv by (auto simp: split_inv_def list_all_iff)
  moreover have "concat (map (to_raw bo) ?fs) = to_raw bo f"
    using img by (auto simp: images_def to_raw_concat)
  ultimately show ?thesis by blast
qed

lemma piece_file_ok:
  assumes "piece max_size bsz p" and "max_size < 2 ^ 32"
  shows "file_ok p"
proof -
  have "12 * length cs \<le> sum_list (map SparseChunk_total_size cs)" for cs
    by (induction cs) (simp_all add: SparseChunk_total_size_def sparse_sizes)
  from this [of "chunks_of p"] have "length (chunks_of p) \<le> SparseFile_total_size p"
    by (simp add: SparseFile_total_size_def)
  with assms show ?thesis by (simp add: piece_def file_ok_def)
qed

section \<open>Properties\<close>

text \<open>
  C1: Splitting a sparse image is correct. For a file with well-formed chunks, blocks of at least 4
  bytes and a buffer with room for the two headers and one block, \<open>split\<close> terminates without error;
  every piece is a well-formed, non-empty sparse file of at most \<open>max_size\<close> bytes with consistent
  totals; and the raw contents of the pieces, one after the other, are those of the whole file.
\<close>

theorem split_correct:
  assumes "list_all (chunk_ok (blk_sz (header f))) (chunks_of f)" and "4 \<le> unat (blk_sz (header f))"
    and "SparseHeader_SIZE + SparseChunkHeader_SIZE + unat (blk_sz (header f)) \<le> max_size"
  shows "\<exists>fs. split_file f max_size = Ok fs \<and>
    (\<forall>p \<in> set fs. piece max_size (blk_sz (header f)) p \<and> chunks_of p \<noteq> []) \<and>
    concat (map (to_raw bo) fs) = to_raw bo f"
  using assms by (intro split_file_post) (simp_all add: sparse_sizes)

lemma sample_split_pre:
  "list_all (chunk_ok (blk_sz (header sample_sparse))) (chunks_of sample_sparse)"
  "4 \<le> unat (blk_sz (header sample_sparse))"
  "SparseHeader_SIZE + SparseChunkHeader_SIZE + unat (blk_sz (header sample_sparse)) \<le> 50"
  using sample_sparse_ok(1) by (simp_all add: sample_sparse_def file_ok_def sparse_sizes)

theorem split_correct_witness:
  "\<exists>fs. split_file sample_sparse 50 = Ok fs \<and>
    (\<forall>p \<in> set fs. piece 50 (blk_sz (header sample_sparse)) p \<and> chunks_of p \<noteq> []) \<and>
    concat (map (to_raw std_byteorder) fs) = to_raw std_byteorder sample_sparse"
  by (rule split_correct [OF sample_split_pre])

text \<open>
  C5: The pieces survive the download. With a buffer below 4 GiB every piece that \<open>split\<close> returns
  encodes to at most \<open>max_size\<close> bytes, and the device that parses them gets back exactly that piece,
  so that the images it writes add up to the original raw image.
\<close>

theorem split_pieces_on_wire:
  assumes "little_endian bo" and "list_all (chunk_ok (blk_sz (header f))) (chunks_of f)"
    and "4 \<le> unat (blk_sz (header f))" and "40 + unat (blk_sz (header f)) \<le> max_size"
    and "max_size < 2 ^ 32"
  shows "\<exists>fs. split_file f max_size = Ok fs \<and>
    (\<forall>p \<in> set fs. length (SparseFile_encode bo p) \<le> max_size \<and>
       from_bytes bo (SparseFile_encode bo p) = Ok p) \<and>
    concat (map (to_raw bo) fs) = to_raw bo f"
proof -
  from split_file_post [OF assms(2-4)] obtain fs where fs: "split_file f max_size = Ok fs"
    "\<forall>p \<in> set fs. piece max_size (blk_sz (header f)) p" "concat (map (to_raw bo) fs) = to_raw bo f"
    by blast
  have "length (SparseFile_encode bo p) \<le> max_size \<and> from_bytes bo (SparseFile_encode bo p) = Ok p"
    if "p \<in> set fs" for p
  proof -
    from fs(2) that have "piece max_size (blk_sz (header f)) p" by blast
    moreover from this have "file_ok p" using assms(5) by (rule piece_file_ok)
    ultimately show ?thesis
      using little_endian.from_bytes_encode [OF assms(1), of p "[]"]
        little_endian.length_SparseFile_encode [OF assms(1), of p]
      by (simp add: piece_def fix_totals_id)
  qed
  with fs show ?thesis by blast
qed

theorem split_pieces_on_wire_witness:
  "\<exists>fs. split_file sample_sparse 50 = Ok fs \<and>
    (\<forall>p \<in> set fs. length (SparseFile_encode std_byteorder p) \<le> 50 \<and>
       from_bytes std_byteorder (SparseFile_encode std_byteorder p) = Ok p) \<and>
    concat (map (to_raw std_byteorder) fs) = to_raw std_byteorder sample_sparse"
  using sample_split_pre
  by (intro split_pieces_on_wire [OF std_byteorder_little_endian]) (simp_all add: sparse_sizes)

end
