(* ===== verification/Fastboot_Command.thy ===== *)
theory Fastboot_Command
  imports Rust_Str
begin

text \<open>
  The text layer of fastboot: responses (\<open>response.rs\<close>), commands (\<open>command.rs\<close>), slot selection
  (\<open>slot.rs\<close>) and the choice of image files (\<open>image.rs\<close>) of \<open>crates/fastboot-protocol/src\<close>.
\<close>

section \<open>Responses\<close>

datatype FastbootResponseError = TooShort | UnknownPrefix rstr | InvalidDataSize rstr

datatype FastbootResponse = Okay rstr | Fail rstr | Data u32 | Info rstr | Text rstr

text \<open>\<open>format!("{:?}", bytes)\<close>\<close>

fun fmt_debug_items :: "bytes \<Rightarrow> rstr" where
  "fmt_debug_items [] = []"
| "fmt_debug_items [b] = fmt_dec (unat b)"
| "fmt_debug_items (b # bs) = fmt_dec (unat b) @ str '', '' @ fmt_debug_items bs"

definition fmt_debug_bytes :: "bytes \<Rightarrow> rstr" where
  "fmt_debug_bytes bs = str ''['' @ fmt_debug_items bs @ str '']''"

definition FastbootResponse_parse :: "bytes \<Rightarrow> (FastbootResponse, FastbootResponseError) outcome" where
  "FastbootResponse_parse buf =
     (if length buf < 4 then Err TooShort
      else and_then (slice buf 0 4) (\<lambda>head.
        case from_utf8 head of
          None \<Rightarrow> Err (UnknownPrefix (fmt_debug_bytes head))
        | Some pfx \<Rightarrow>
            and_then (slice_from buf 4) (\<lambda>payload.
              if pfx = str ''OKAY'' then Ok (Okay (from_utf8_lossy payload))
              else if pfx = str ''FAIL'' then Ok (Fail (from_utf8_lossy payload))
              else if pfx = str ''INFO'' then Ok (Info (from_utf8_lossy payload))
              else if pfx = str ''TEXT'' then Ok (Text (from_utf8_lossy payload))
              else if pfx = str ''DATA'' then
                (if length payload \<noteq> 8 then Err (InvalidDataSize (from_utf8_lossy payload))
                 else case from_utf8 payload of
                   None \<Rightarrow> Err (InvalidDataSize (from_utf8_lossy payload))
                 | Some hex_str \<Rightarrow>
                     (case from_str_radix 16 (2 ^ 32) hex_str of
                        None \<Rightarrow> Err (InvalidDataSize hex_str)
                      | Some n \<Rightarrow> Ok (Data (of_nat n))))
              else Err (UnknownPrefix pfx))))"

section \<open>Commands\<close>

definition getvar :: "rstr \<Rightarrow> rstr" where "getvar variable = str ''getvar:'' @ variable"
definition flash :: "rstr \<Rightarrow> rstr" where "flash part = str ''flash:'' @ part"
definition erase :: "rstr \<Rightarrow> rstr" where "erase part = str ''erase:'' @ part"

definition reboot :: "rstr option \<Rightarrow> rstr" where
  "reboot target =
     (case target of
        Some t \<Rightarrow>
          (if trim t \<noteq> [] then
             (let trimmed = trim t in
              if starts_with trimmed (str ''reboot-'') then trimmed else str ''reboot-'' @ trimmed)
           else str ''reboot'')
      | None \<Rightarrow> str ''reboot'')"

definition download :: "u32 \<Rightarrow> rstr" where
  "download sz = str ''download:'' @ fmt_hex 8 (unat sz)"

definition create_logical_partition :: "rstr \<Rightarrow> u64 \<Rightarrow> rstr" where
  "create_logical_partition part sz =
     str ''create-logical-partition:'' @ part @ str '':'' @ fmt_dec (unat sz)"

definition delete_logical_partition :: "rstr \<Rightarrow> rstr" where
  "delete_logical_partition part = str ''delete-logical-partition:'' @ part"

definition resize_logical_partition :: "rstr \<Rightarrow> u64 \<Rightarrow> rstr" where
  "resize_logical_partition part sz =
     str ''resize-logical-partition:'' @ part @ str '':'' @ fmt_dec (unat sz)"

definition signature :: rstr where "signature = str ''signature''"

definition snapshot_update :: "rstr option \<Rightarrow> rstr" where
  "snapshot_update command =
     str ''snapshot-update:'' @ (case command of Some c \<Rightarrow> c | None \<Rightarrow> [])"

definition boot :: rstr where "boot = str ''boot''"

definition fetch :: "rstr \<Rightarrow> u64 option \<Rightarrow> u64 option \<Rightarrow> rstr" where
  "fetch part offset size_opt =
     (let command = str ''fetch:'' @ part in
      case offset of
        None \<Rightarrow> command
      | Some off \<Rightarrow>
          (let command = command @ str '':0x'' @ fmt_hex 8 (unat off) in
           case size_opt of
             None \<Rightarrow> command
           | Some sz \<Rightarrow> command @ str '':0x'' @ fmt_hex 8 (unat sz)))"

section \<open>Slots\<close>

datatype SlotSelection = Current | Named rstr | All | Other

datatype SlotError = InvalidSlot rstr | RequiresDeviceResolution rstr

definition is_ascii_lowercase :: "u8 \<Rightarrow> bool" where
  "is_ascii_lowercase b \<longleftrightarrow> 0x61 \<le> b \<and> b \<le> 0x7A"

definition SlotSelection_parse :: "rstr option \<Rightarrow> (SlotSelection, SlotError) outcome" where
  "SlotSelection_parse value =
     (case value of
        None \<Rightarrow> Ok Current
      | Some v \<Rightarrow>
          (if v = str ''all'' then Ok All
           else if v = str ''other'' then Ok Other
           else if v \<noteq> [] \<and> length v = 1 \<and> is_ascii_lowercase (hd v) then Ok (Named v)
           else Err (InvalidSlot v)))"

fun partition_base_name :: "SlotSelection \<Rightarrow> rstr \<Rightarrow> (rstr, SlotError) outcome" where
  "partition_base_name Current part = Ok part"
| "partition_base_name (Named slot) part =
     (let sfx = str ''_'' @ slot in
      if ends_with part sfx then Ok part else Ok (part @ sfx))"
| "partition_base_name All part = Err (RequiresDeviceResolution (str ''all''))"
| "partition_base_name Other part = Err (RequiresDeviceResolution (str ''other''))"

definition partition_name :: "SlotSelection \<Rightarrow> rstr \<Rightarrow> (rstr, SlotError) outcome" where
  "partition_name sel part =
     (case split_once 0x3A part of
        None \<Rightarrow> partition_base_name sel part
      | Some (base, rest) \<Rightarrow>
          and_then (partition_base_name sel base) (\<lambda>name. Ok (name @ str '':'' @ rest)))"

section \<open>Image files\<close>

definition AOSP_IMAGE_MAPPINGS :: "(rstr \<times> rstr) list" where
  "AOSP_IMAGE_MAPPINGS = map (\<lambda>(a, b). (str a, str b))
     [(''boot'', ''boot.img''), (''bootloader'', ''bootloader.img''), (''init_boot'', ''init_boot.img''),
      (''dtbo'', ''dtbo.img''), (''dts'', ''dt.img''), (''odm'', ''odm.img''), (''odm_dlkm'', ''odm_dlkm.img''),
      (''product'', ''product.img''), (''pvmfw'', ''pvmfw.img''), (''radio'', ''radio.img''),
      (''recovery'', ''recovery.img''), (''super'', ''super.img''), (''system'', ''system.img''),
      (''system_dlkm'', ''system_dlkm.img''), (''system_ext'', ''system_ext.img''),
      (''userdata'', ''userdata.img''), (''vbmeta'', ''vbmeta.img''), (''vbmeta_system'', ''vbmeta_system.img''),
      (''vbmeta_vendor'', ''vbmeta_vendor.img''), (''vendor'', ''vendor.img''),
      (''vendor_boot'', ''vendor_boot.img''), (''vendor_dlkm'', ''vendor_dlkm.img''),
      (''vendor_kernel_boot'', ''vendor_kernel_boot.img''), (''cache'', ''cache.img'')]"

text \<open>\<open>PathBuf::push\<close> on a Unix target.\<close>

definition path_push :: "rstr \<Rightarrow> rstr \<Rightarrow> rstr" where
  "path_push base p =
     (if p \<noteq> [] \<and> hd p = 0x2F then p
      else if base = [] \<or> last base = 0x2F then base @ p
      else base @ [0x2F] @ p)"

definition resolve_image_path :: "rstr \<Rightarrow> rstr option \<Rightarrow> rstr option \<Rightarrow> (rstr, rstr) outcome" where
  "resolve_image_path part file product_out =
     (case (case file of Some f \<Rightarrow> if trim f \<noteq> [] then Some (trim f) else None | None \<Rightarrow> None) of
        Some path \<Rightarrow> Ok path
      | None \<Rightarrow>
          (case (case product_out of Some dir \<Rightarrow> if trim dir \<noteq> [] then Some (trim dir) else None
                 | None \<Rightarrow> None) of
             None \<Rightarrow> Err (str ''cannot determine image filename for '' @ [0x27] @ part @ [0x27] @
               str '': ANDROID_PRODUCT_OUT is not set and no file was specified'')
           | Some out_dir \<Rightarrow>
               (let base_partition = (case strip_suffix part (str ''_a'') of
                      Some b \<Rightarrow> b
                    | None \<Rightarrow> (case strip_suffix part (str ''_b'') of Some b \<Rightarrow> b | None \<Rightarrow> part));
                    img_name = (case find (\<lambda>(nickname, _). nickname = part \<or> nickname = base_partition)
                        AOSP_IMAGE_MAPPINGS of
                      Some (_, filename) \<Rightarrow> filename
                    | None \<Rightarrow> part @ str ''.img'')
                in Ok (path_push out_dir img_name))))"

definition resolve_super_empty_path :: "rstr option \<Rightarrow> rstr option \<Rightarrow> (rstr, rstr) outcome" where
  "resolve_super_empty_path img product_out =
     (case (case img of Some f \<Rightarrow> if trim f \<noteq> [] then Some (trim f) else None | None \<Rightarrow> None) of
        Some path \<Rightarrow> Ok path
      | None \<Rightarrow>
          (case (case product_out of Some dir \<Rightarrow> if trim dir \<noteq> [] then Some (trim dir) else None
                 | None \<Rightarrow> None) of
             None \<Rightarrow> Err (str ''cannot determine super_empty image filename: ANDROID_PRODUCT_OUT is not set and no image was specified'')
           | Some out_dir \<Rightarrow> Ok (path_push out_dir (str ''super_empty.img''))))"

section \<open>Lemmas\<close>

text \<open>The bytes a device sends for a response.\<close>

fun response_bytes :: "FastbootResponse \<Rightarrow> bytes" where
  "response_bytes (Okay s) = str ''OKAY'' @ s"
| "response_bytes (Fail s) = str ''FAIL'' @ s"
| "response_bytes (Data n) = str ''DATA'' @ fmt_hex 8 (unat n)"
| "response_bytes (Info s) = str ''INFO'' @ s"
| "response_bytes (Text s) = str ''TEXT'' @ s"

fun response_text_ok :: "FastbootResponse \<Rightarrow> bool" where
  "response_text_ok (Okay s) = utf8_valid s"
| "response_text_ok (Fail s) = utf8_valid s"
| "response_text_ok (Data n) = True"
| "response_text_ok (Info s) = utf8_valid s"
| "response_text_ok (Text s) = utf8_valid s"

lemma response_prefixes:
  "str ''OKAY'' = [0x4F, 0x4B, 0x41, 0x59]" "str ''FAIL'' = [0x46, 0x41, 0x49, 0x4C]"
  "str ''INFO'' = [0x49, 0x4E, 0x46, 0x4F]" "str ''TEXT'' = [0x54, 0x45, 0x58, 0x54]"
  "str ''DATA'' = [0x44, 0x41, 0x54, 0x41]"
  by (simp_all add: str_def)

lemma from_utf8_valid [simp]: "utf8_valid s \<Longrightarrow> from_utf8 s = Some s"
  by (simp add: from_utf8_def)

lemma parse_response_bytes:
  "response_text_ok r \<Longrightarrow> FastbootResponse_parse (response_bytes r) = Ok r"
proof (cases r)
  case (Data n)
  have "unat n < 2 ^ 32" using u32_less [of n] by simp
  from from_str_fmt_hex [OF this, of 8]
  have num: "from_str_radix 16 4294967296 (fmt_hex 8 (unat n)) = Some (unat n)" by simp
  have len: "length (fmt_hex 8 (unat n)) = 8" using u32_less [of n] by (simp add: length_fmt_hex)
  have "utf8_valid (fmt_hex 8 (unat n))" by (rule utf8_valid_ascii [OF fmt_hex_ascii])
  with num len Data show ?thesis
    by (simp add: FastbootResponse_parse_def slice_def slice_from_def response_prefixes)
qed (simp_all add: response_prefixes FastbootResponse_parse_def slice_def slice_from_def from_utf8_lossy_valid)

lemma response_parse_noPanic: "FastbootResponse_parse buf \<noteq> Panic"
  by (auto simp: FastbootResponse_parse_def slice_def slice_from_def split: option.splits)

lemma lowercase_not_colon: "is_ascii_lowercase b \<Longrightarrow> b \<noteq> 0x3A"
  by (auto simp: is_ascii_lowercase_def)

lemma base_name_idem:
  "partition_base_name sel p = Ok q \<Longrightarrow> partition_base_name sel q = Ok q"
  by (cases sel) (auto simp: Let_def split: if_splits)

lemma base_name_no_colon:
  assumes "SlotSelection_parse v = Ok sel" and "0x3A \<notin> set p" and "partition_base_name sel p = Ok q"
  shows "0x3A \<notin> set q"
proof (cases sel)
  case (Named s)
  with assms(1) have "length s = 1" "is_ascii_lowercase (hd s)"
    by (auto simp: SlotSelection_parse_def split: option.splits if_splits)
  then have "0x3A \<notin> set s" by (cases s) (auto simp: lowercase_not_colon)
  with Named assms(2,3) show ?thesis by (auto simp: Let_def str_def split: if_splits)
qed (use assms in auto)

section \<open>Properties\<close>

text \<open>
  Response parsing is total and inverts what a device prints: it never panics, and the bytes of
  any response with valid UTF-8 text, or with a 32-bit data size in eight hexadecimal digits, parse to
  that response.
\<close>

theorem response_parse_print:
  "FastbootResponse_parse buf \<noteq> Panic \<and>
   (response_text_ok r \<longrightarrow> FastbootResponse_parse (response_bytes r) = Ok r)"
  using response_parse_noPanic parse_response_bytes by blast

theorem response_parse_print_witness:
  "FastbootResponse_parse (response_bytes (Data 0x1000)) = Ok (Data 0x1000)"
  using response_parse_print [of "[]" "Data 0x1000"] by simp

text \<open>
  The download handshake is consistent: the size argument of the host's \<open>download\<close> command is
  always eight digits, and a device that echoes it in a \<open>DATA\<close> response makes the host read exactly
  the size it announced.
\<close>

theorem download_size_echo:
  "length (download sz) = 17 \<and>
   FastbootResponse_parse (str ''DATA'' @ drop 9 (download sz)) = Ok (Data sz)"
proof -
  have "length (fmt_hex 8 (unat sz)) = 8" using u32_less [of sz] by (simp add: length_fmt_hex)
  then show ?thesis using parse_response_bytes [of "Data sz"] by (simp add: download_def)
qed

text \<open>
  Slot suffixing is idempotent and only touches the partition token: for a slot selection that the
  command line accepts, applying it to its own result changes nothing, and what follows the first colon
  of the partition argument stays as it is.
\<close>

theorem partition_name_idempotent:
  assumes "SlotSelection_parse v = Ok sel" and "partition_name sel p = Ok q"
  shows "partition_name sel q = Ok q \<and>
    map_option snd (split_once 0x3A q) = map_option snd (split_once 0x3A p)"
proof (cases "split_once 0x3A p")
  case None
  then have p: "0x3A \<notin> set p" by (simp add: split_once_eq_None)
  from None assms(2) have q: "partition_base_name sel p = Ok q" by (simp add: partition_name_def)
  then have "split_once 0x3A q = None"
    using base_name_no_colon [OF assms(1) p] by (simp add: split_once_eq_None)
  with None base_name_idem [OF q] show ?thesis by (simp add: partition_name_def)
next
  case (Some br)
  obtain b r where br: "br = (b, r)" by (cases br)
  with Some have b: "0x3A \<notin> set b" "p = b @ 0x3A # r" by (simp_all add: split_once_eq_Some)
  from assms(2) Some br obtain n where n: "partition_base_name sel b = Ok n" and q: "q = n @ 0x3A # r"
    by (auto simp: partition_name_def str_def)
  have "split_once 0x3A q = Some (n, r)"
    using base_name_no_colon [OF assms(1) b(1) n] q by (simp add: split_once_append)
  with Some br q base_name_idem [OF n] show ?thesis by (simp add: partition_name_def str_def)
qed

theorem partition_name_idempotent_witness:
  "partition_name (Named (str ''b'')) (str ''vendor_boot_b:default'') = Ok (str ''vendor_boot_b:default'') \<and>
   map_option snd (split_once 0x3A (str ''vendor_boot_b:default'')) =
     map_option snd (split_once 0x3A (str ''vendor_boot:default''))"
  by (rule partition_name_idempotent [of "Some (str ''b'')"]) code_simp+

end
