(* ===== verification/Fastboot_Stream.thy ===== *)
theory Fastboot_Stream
  imports Fastboot_Command Rust_Io
begin

text \<open>
  The fastboot transport over byte streams, \<open>crates/fastboot-protocol/src/transport.rs\<close>: scanning
  responses out of an unframed stream (\<open>parse_one_response\<close> and the receive loop that the trait and the
  TCP transport share), the length-prefixed mode, the \<open>FB01\<close> handshake, and \<open>Read\<close> and \<open>Write\<close> of the
  TCP transport. The socket is the event list of \<open>Rust_Io\<close>.
\<close>

section \<open>Response prefixes\<close>

definition MAX_LENGTH_PREFIXED_PAYLOAD :: nat where
  "MAX_LENGTH_PREFIXED_PAYLOAD = 1024 * 1024 * 1024"

datatype FbMode = Raw | LengthPrefixed

datatype FastbootTransportError =
    FbIo IoError
  | FbResponse FastbootResponseError
  | FbConnectFailed rstr IoError
  | FbProtocol rstr

definition FB_PREFIXES :: "bytes list" where
  "FB_PREFIXES = [str ''OKAY'', str ''FAIL'', str ''DATA'', str ''INFO'', str ''TEXT'']"

definition is_fb_prefix :: "bytes \<Rightarrow> bool" where
  "is_fb_prefix buf = (if length buf < 4 then False else list_ex (\<lambda>p. take 4 buf = p) FB_PREFIXES)"

definition is_partial_prefix :: "bytes \<Rightarrow> bool" where
  "is_partial_prefix buf =
     (if buf = [] \<or> length buf \<ge> 4 then False else list_ex (\<lambda>p. starts_with p buf) FB_PREFIXES)"

definition scan_body_end :: "bytes \<Rightarrow> nat" where
  "scan_body_end body =
     (case find (\<lambda>i. is_fb_prefix (drop i body)) [0..<length body - 3] of
        Some i \<Rightarrow> i
      | None \<Rightarrow>
          (case find (\<lambda>j. is_partial_prefix (drop j body)) [length body - 3..<length body] of
             Some j \<Rightarrow> j
           | None \<Rightarrow> length body))"

definition parse_one_response :: "bytes \<Rightarrow> (FastbootResponse \<times> nat, FastbootResponseError) outcome" where
  "parse_one_response buf =
     (if length buf < 4 then Err TooShort
      else and_then (slice buf 0 4) (\<lambda>head.
        case from_utf8 head of
          None \<Rightarrow> Err (UnknownPrefix (fmt_debug_bytes head))
        | Some pfx \<Rightarrow>
            if pfx = str ''DATA'' then
              (if length buf < 12 then Err TooShort
               else and_then (slice buf 0 12) (\<lambda>msg.
                    and_then (FastbootResponse_parse msg) (\<lambda>resp. Ok (resp, 12))))
            else if pfx = str ''OKAY'' \<or> pfx = str ''FAIL'' \<or> pfx = str ''INFO'' \<or> pfx = str ''TEXT'' then
              and_then (slice_from buf 4) (\<lambda>body.
                let total = 4 + scan_body_end body in
                and_then (slice buf 0 total) (\<lambda>msg.
                and_then (FastbootResponse_parse msg) (\<lambda>resp. Ok (resp, total))))
            else Err (UnknownPrefix pfx)))"

section \<open>The receive loop on an unframed stream\<close>

text \<open>
  Resynchronisation: the accumulator from the next prefix on and whether there is one, else the tail that
  may still become a prefix.
\<close>

definition resync :: "bytes \<Rightarrow> bool \<times> bytes" where
  "resync accum =
     (if is_fb_prefix accum then (True, accum)
      else case find (\<lambda>i. is_fb_prefix (drop i accum)) [1..<length accum] of
        Some pos \<Rightarrow> (True, drop pos accum)
      | None \<Rightarrow>
          (case find (\<lambda>j. length accum - j < 4 \<and> is_partial_prefix (drop j accum)) [0..<length accum] of
             Some pos \<Rightarrow> (False, drop pos accum)
           | None \<Rightarrow> (False, [])))"

text \<open>The inner loop ends with a final response, or needs more input.\<close>

datatype scan_result =
    Final FastbootResponse bytes "rstr list"
  | More bytes "rstr list"
  | Crash

lemma resync_length: "resync accum = (found, rest) \<Longrightarrow> length rest \<le> length accum"
  by (auto simp: resync_def split: if_splits option.splits)

lemma parse_one_response_unfold:
  assumes "4 \<le> length buf"
  shows "parse_one_response buf =
     (case from_utf8 (take 4 buf) of
        None \<Rightarrow> Err (UnknownPrefix (fmt_debug_bytes (take 4 buf)))
      | Some pfx \<Rightarrow>
          if pfx = str ''DATA'' then
            (if length buf < 12 then Err TooShort
             else and_then (FastbootResponse_parse (take 12 buf)) (\<lambda>resp. Ok (resp, 12)))
          else if pfx = str ''OKAY'' \<or> pfx = str ''FAIL'' \<or> pfx = str ''INFO'' \<or> pfx = str ''TEXT'' then
            and_then (slice buf 0 (4 + scan_body_end (drop 4 buf))) (\<lambda>msg.
            and_then (FastbootResponse_parse msg) (\<lambda>resp. Ok (resp, 4 + scan_body_end (drop 4 buf))))
          else Err (UnknownPrefix pfx))"
  using assms by (simp add: parse_one_response_def slice_Ok slice_from_Ok Let_def cong: option.case_cong if_cong)

lemma parse_one_response_pos:
  assumes "parse_one_response buf = Ok (r, n)"
  shows "4 \<le> n" "4 \<le> length buf"
proof -
  show len: "4 \<le> length buf"
  proof (rule ccontr)
    assume "\<not> 4 \<le> length buf"
    then have "parse_one_response buf = Err TooShort" by (simp add: parse_one_response_def)
    with assms show False by simp
  qed
  from assms show "4 \<le> n"
    by (simp add: parse_one_response_unfold [OF len] split: option.split_asm if_split_asm)
      (elim exE conjE, simp)
qed

lemma parse_one_response_posD: "parse_one_response buf = Ok (r, n) \<Longrightarrow> 4 \<le> n \<and> 4 \<le> length buf"
  using parse_one_response_pos by blast

lemma parse_one_response_err:
  assumes "parse_one_response buf = Err e" and "e \<noteq> TooShort"
  shows "4 \<le> length buf"
proof (rule ccontr)
  assume "\<not> 4 \<le> length buf"
  then have "parse_one_response buf = Err TooShort" by (simp add: parse_one_response_def)
  with assms show False by simp
qed

function scan :: "bytes \<Rightarrow> rstr list \<Rightarrow> scan_result" where
  "scan accum info_logs =
     (if accum = [] then More [] info_logs
      else case resync accum of
        (False, accum') \<Rightarrow> More accum' info_logs
      | (True, accum') \<Rightarrow>
          (case parse_one_response accum' of
             Ok (resp, consumed) \<Rightarrow>
               (let rest = drop consumed accum' in
                case resp of
                  Info msg \<Rightarrow> scan rest (info_logs @ [msg])
                | Text msg \<Rightarrow> scan rest (info_logs @ [msg])
                | final_resp \<Rightarrow> Final final_resp rest info_logs)
           | Err e \<Rightarrow> (if e = TooShort then More accum' info_logs else scan (drop 1 accum') info_logs)
           | Panic \<Rightarrow> Crash))"
  by pat_completeness auto
termination
proof (relation "measure (\<lambda>(accum, logs). length accum)", goal_cases)
  case 1
  show ?case by simp
qed (auto dest!: resync_length parse_one_response_posD parse_one_response_err
    simp: eq_commute [of _ "resync _"])

declare scan.simps [simp del]

text \<open>
  \<open>FastbootTransport::recv_response_with_info\<close>: read until the scanner has a final response. A read of no
  bytes means that the target closed the connection.
\<close>

function recv_loop :: "net \<Rightarrow> bytes \<Rightarrow> rstr list \<Rightarrow>
  ((FastbootResponse \<times> bytes \<times> rstr list) \<times> net, FastbootTransportError) outcome" where
  "recv_loop net accum info_logs =
     (case scan accum info_logs of
        Final resp rest logs \<Rightarrow> Ok ((resp, rest, logs), net)
      | Crash \<Rightarrow> Panic
      | More accum' logs \<Rightarrow>
          (case stream_read 4096 net of
             (Ok bs, net') \<Rightarrow>
               (if bs = [] then Err (FbProtocol (str ''Connection closed by target''))
                else recv_loop net' (accum' @ bs) logs)
           | (Err e, net') \<Rightarrow> Err (FbIo e)
           | (Panic, net') \<Rightarrow> Panic))"
  by pat_completeness auto
termination
  by (relation "measure (\<lambda>(net, accum, logs). net_size net)") (auto dest: stream_read_shrinks)

declare recv_loop.simps [simp del]

definition recv_response_with_info ::
  "net \<Rightarrow> rstr list \<Rightarrow> ((FastbootResponse \<times> rstr list) \<times> net, FastbootTransportError) outcome" where
  "recv_response_with_info net info_logs =
     and_then (recv_loop net [] info_logs) (\<lambda>((resp, _, logs), net'). Ok ((resp, logs), net'))"

definition send_cmd :: "bytes \<Rightarrow> rstr \<Rightarrow> (bytes, FastbootTransportError) outcome" where
  "send_cmd written cmd =
     (if length cmd > 4096 then
        Err (FbProtocol (str ''Command too long: '' @ fmt_dec (length cmd) @ str '' bytes (max 4096)''))
      else Ok (written @ cmd))"

section \<open>The TCP transport\<close>

record FastbootTcpTransport =
  stream :: net
  tcp_mode :: FbMode
  read_buf :: bytes
  read_pos :: nat

text \<open>Serving a \<open>read\<close> of \<open>n\<close> bytes from the internal buffer.\<close>

definition serve_buffer :: "nat \<Rightarrow> FastbootTcpTransport \<Rightarrow> bytes \<times> FastbootTcpTransport" where
  "serve_buffer n t =
     (let k = min n (length (read_buf t) - read_pos t);
          bs = take k (drop (read_pos t) (read_buf t));
          t = t\<lparr>read_pos := read_pos t + k\<rparr>
      in (bs, if read_pos t \<ge> length (read_buf t) then t\<lparr>read_buf := [], read_pos := 0\<rparr> else t))"

definition read_raw :: "nat \<Rightarrow> FastbootTcpTransport \<Rightarrow> (bytes \<times> FastbootTcpTransport, IoError) outcome" where
  "read_raw n t =
     (if read_pos t < length (read_buf t) then Ok (serve_buffer n t)
      else case stream_read n (stream t) of
        (r, net') \<Rightarrow> and_then r (\<lambda>bs. Ok (bs, t\<lparr>stream := net'\<rparr>)))"

definition read_length_prefixed ::
  "nat \<Rightarrow> FastbootTcpTransport \<Rightarrow> (bytes \<times> FastbootTcpTransport, IoError) outcome" where
  "read_length_prefixed n t =
     (if read_pos t < length (read_buf t) then Ok (serve_buffer n t)
      else and_then (read_exact 8 (stream t)) (\<lambda>(len_buf, net).
        let msg_len = unat (u64_from_be len_buf) in
        if msg_len > MAX_LENGTH_PREFIXED_PAYLOAD then
          Err (InvalidData (str ''LengthPrefixed payload size '' @ fmt_dec msg_len @
            str '' exceeds maximum allowed limit ('' @ fmt_dec MAX_LENGTH_PREFIXED_PAYLOAD @ str '')''))
        else and_then (read_exact msg_len net) (\<lambda>(buf, net).
          let k = min n msg_len in
          Ok (take k buf, t\<lparr>stream := net, read_buf := buf, read_pos := k\<rparr>))))"

definition tcp_read :: "nat \<Rightarrow> FastbootTcpTransport \<Rightarrow> (bytes \<times> FastbootTcpTransport, IoError) outcome" where
  "tcp_read n t =
     (if n = 0 then Ok ([], t)
      else case tcp_mode t of Raw \<Rightarrow> read_raw n t | LengthPrefixed \<Rightarrow> read_length_prefixed n t)"

text \<open>\<open>write\<close>: what goes onto the socket.\<close>

definition tcp_write :: "FbMode \<Rightarrow> bytes \<Rightarrow> bytes \<Rightarrow> bytes" where
  "tcp_write md written buf =
     (case md of
        Raw \<Rightarrow> written @ buf
      | LengthPrefixed \<Rightarrow> written @ u64_to_be (of_nat (length buf)) @ buf)"

text \<open>The framed receive loop.\<close>

function recv_length_prefixed_response_with_info ::
  "net \<Rightarrow> rstr list \<Rightarrow> ((FastbootResponse \<times> rstr list) \<times> net, FastbootTransportError) outcome" where
  "recv_length_prefixed_response_with_info net info_logs =
     and_then (map_err FbIo (read_exact 8 net)) (\<lambda>(len_buf, net1).
       let message_len = unat (u64_from_be len_buf) in
       if message_len > MAX_LENGTH_PREFIXED_PAYLOAD then
         Err (FbProtocol (str ''LengthPrefixed payload size '' @ fmt_dec message_len @
           str '' exceeds maximum allowed limit ('' @ fmt_dec MAX_LENGTH_PREFIXED_PAYLOAD @ str '')''))
       else and_then (map_err FbIo (read_exact message_len net1)) (\<lambda>(message, net2).
         and_then (map_err FbResponse (FastbootResponse_parse message)) (\<lambda>resp.
           case resp of
             Info msg \<Rightarrow> recv_length_prefixed_response_with_info net2 (info_logs @ [msg])
           | Text msg \<Rightarrow> recv_length_prefixed_response_with_info net2 (info_logs @ [msg])
           | response \<Rightarrow> Ok ((response, info_logs), net2))))"
  by pat_completeness auto
termination
  by (relation "measure (\<lambda>(net, logs). net_size net)") (auto dest!: read_exact_net_size)

declare recv_length_prefixed_response_with_info.simps [simp del]

text \<open>
  \<open>FastbootTcpTransport::recv_response_with_info\<close>: in raw mode buffered bytes come first, and bytes
  behind the final response are kept for the next call.
\<close>

definition tcp_recv_response_with_info ::
  "FastbootTcpTransport \<Rightarrow> rstr list \<Rightarrow>
   ((FastbootResponse \<times> rstr list) \<times> FastbootTcpTransport, FastbootTransportError) outcome" where
  "tcp_recv_response_with_info t info_logs =
     (if tcp_mode t = LengthPrefixed then
        and_then (recv_length_prefixed_response_with_info (stream t) info_logs) (\<lambda>(r, net).
          Ok (r, t\<lparr>stream := net\<rparr>))
      else
        let (accum, t) = (if read_pos t < length (read_buf t)
              then (drop (read_pos t) (read_buf t), t\<lparr>read_buf := [], read_pos := 0\<rparr>) else ([], t))
        in and_then (recv_loop (stream t) accum info_logs) (\<lambda>((resp, rest, logs), net).
             let t = t\<lparr>stream := net\<rparr> in
             Ok ((resp, logs), if rest \<noteq> [] then t\<lparr>read_buf := rest, read_pos := 0\<rparr> else t)))"

definition tcp_recv_response ::
  "FastbootTcpTransport \<Rightarrow> (FastbootResponse \<times> FastbootTcpTransport, FastbootTransportError) outcome" where
  "tcp_recv_response t =
     and_then (tcp_recv_response_with_info t []) (\<lambda>((resp, _), t'). Ok (resp, t'))"

text \<open>The \<open>FB01\<close> handshake: reading up to four bytes, then what else has arrived.\<close>

function handshake_read :: "net \<Rightarrow> bytes \<Rightarrow> bytes \<times> net" where
  "handshake_read net acc =
     (if length acc \<ge> 4 then (acc, net)
      else case stream_read (4 - length acc) net of
        (Ok bs, net') \<Rightarrow> (if bs = [] then (acc, net') else handshake_read net' (acc @ bs))
      | (Err e, net') \<Rightarrow> (if e = Interrupted then handshake_read net' acc else (acc, net'))
      | (Panic, net') \<Rightarrow> (acc, net'))"
  by pat_completeness auto
termination
  by (relation "measure (\<lambda>(net, acc). net_size net)") (auto dest: stream_read_shrinks)

function drain_extra :: "net \<Rightarrow> bytes \<Rightarrow> bytes \<times> net" where
  "drain_extra net acc =
     (case stream_read 4096 net of
        (Ok bs, net') \<Rightarrow> (if bs = [] then (acc, net') else drain_extra net' (acc @ bs))
      | (Err e, net') \<Rightarrow> (acc, net')
      | (Panic, net') \<Rightarrow> (acc, net'))"
  by pat_completeness auto
termination
  by (relation "measure (\<lambda>(net, acc). net_size net)") (auto dest: stream_read_shrinks)

declare handshake_read.simps [simp del] drain_extra.simps [simp del]

definition perform_handshake :: "bool \<Rightarrow> net \<Rightarrow> (FbMode \<times> bytes) \<times> net" where
  "perform_handshake write_ok net =
     (if \<not> write_ok then ((Raw, []), net)
      else
        let (handshake_buf, net) = handshake_read net []; bytes_read = length handshake_buf in
        if bytes_read \<ge> 2 \<and> take 2 handshake_buf = str ''FB'' then ((LengthPrefixed, []), net)
        else if bytes_read \<ge> 4 \<and> is_fb_prefix handshake_buf then
          (let (extra, net) = drain_extra net [] in ((Raw, handshake_buf @ extra), net))
        else if bytes_read > 0 then ((Raw, handshake_buf), net)
        else ((Raw, []), net))"

definition new_internal :: "net \<Rightarrow> bool \<Rightarrow> bool \<Rightarrow> FastbootTcpTransport" where
  "new_internal net with_handshake write_ok =
     (if with_handshake then
        (let ((md, leftover), net) = perform_handshake write_ok net
         in \<lparr>stream = net, tcp_mode = md, read_buf = leftover, read_pos = 0\<rparr>)
      else \<lparr>stream = net, tcp_mode = Raw, read_buf = [], read_pos = 0\<rparr>)"

section \<open>Lemmas\<close>

lemma handshake_read_delivers:
  "delivers net bs \<Longrightarrow> length acc \<le> 4 \<Longrightarrow>
   \<exists>net'. handshake_read net acc = (acc @ take (4 - length acc) bs, net') \<and>
     delivers net' (drop (4 - length acc) bs)"
proof (induction net acc arbitrary: bs rule: handshake_read.induct)
  case (1 net acc)
  show ?case
  proof (cases "length acc \<ge> 4 \<or> bs = []")
    case True
    then show ?thesis
      using "1.prems" by (auto simp: handshake_read.simps [of net] delivers_Nil)
  next
    case False
    then have ne: "bs \<noteq> []" "0 < 4 - length acc" by auto
    from stream_read_delivers [OF "1.prems"(1) ne] obtain s net1 rest where
      sr: "stream_read (4 - length acc) net = (Ok s, net1)" "s \<noteq> []" "length s \<le> 4 - length acc"
      "bs = s @ rest" "delivers net1 rest" .
    have "\<exists>net'. handshake_read net1 (acc @ s) = ((acc @ s) @ take (4 - length (acc @ s)) rest, net') \<and>
        delivers net' (drop (4 - length (acc @ s)) rest)"
      using False sr by (intro "1.IH"(1)) auto
    with False sr show ?thesis
      by (auto simp: handshake_read.simps [of net])
  qed
qed

lemma drain_extra_delivers: "delivers net bs \<Longrightarrow> drain_extra net acc = (acc @ bs, [])"
proof (induction net acc arbitrary: bs rule: drain_extra.induct)
  case (1 net acc)
  show ?case
  proof (cases "bs = []")
    case True
    with "1.prems" show ?thesis by (simp add: delivers_Nil drain_extra.simps)
  next
    case False
    obtain s net1 rest where sr: "stream_read 4096 net = (Ok s, net1)" "s \<noteq> []"
      "bs = s @ rest" "delivers net1 rest"
      using stream_read_delivers [OF "1.prems" False, of 4096] by (metis zero_less_numeral)
    have "drain_extra net1 (acc @ s) = ((acc @ s) @ rest, [])"
      by (rule "1.IH") (use sr in simp_all)
    with sr show ?thesis by (simp add: drain_extra.simps [of net])
  qed
qed

text \<open>A message as the framed mode sends it.\<close>

definition framed :: "bytes \<Rightarrow> bytes" where
  "framed m = tcp_write LengthPrefixed [] m"

lemma recv_framed:
  assumes "delivers net (framed (response_bytes r) @ rest)" and "response_text_ok r"
    and "length (response_bytes r) \<le> MAX_LENGTH_PREFIXED_PAYLOAD"
  obtains net' where "delivers net' rest"
    and "recv_length_prefixed_response_with_info net logs =
      (case r of
         Info msg \<Rightarrow> recv_length_prefixed_response_with_info net' (logs @ [msg])
       | Text msg \<Rightarrow> recv_length_prefixed_response_with_info net' (logs @ [msg])
       | response \<Rightarrow> Ok ((response, logs), net'))"
proof -
  let ?m = "response_bytes r" and ?w = "of_nat (length (response_bytes r)) :: u64"
  have d: "delivers net (u64_to_be ?w @ ?m @ rest)"
    using assms(1) by (simp add: framed_def tcp_write_def)
  then obtain net1 where r1: "read_exact 8 net = Ok (u64_to_be ?w, net1)" and d1: "delivers net1 (?m @ rest)"
    by (rule read_exact_delivers) simp
  have "length ?m < 2 ^ 64" using assms(3) by (simp add: MAX_LENGTH_PREFIXED_PAYLOAD_def)
  then have w: "unat ?w = length ?m" by (simp add: unat_of_nat)
  from read_exact_delivers [OF d1 refl] obtain net2 where
    r2: "read_exact (length ?m) net1 = Ok (?m, net2)" and d2: "delivers net2 rest" .
  have "recv_length_prefixed_response_with_info net logs =
      (case r of
         Info msg \<Rightarrow> recv_length_prefixed_response_with_info net2 (logs @ [msg])
       | Text msg \<Rightarrow> recv_length_prefixed_response_with_info net2 (logs @ [msg])
       | response \<Rightarrow> Ok ((response, logs), net2))"
    using assms(2,3) r1 r2 w
    by (subst recv_length_prefixed_response_with_info.simps)
      (simp add: Let_def parse_response_bytes split: FastbootResponse.splits)
  with d2 show thesis by (rule that)
qed

fun log_text :: "FastbootResponse \<Rightarrow> rstr option" where
  "log_text (Info s) = Some s"
| "log_text (Text s) = Some s"
| "log_text r = None"

definition framable :: "FastbootResponse \<Rightarrow> bool" where
  "framable r \<longleftrightarrow> response_text_ok r \<and> length (response_bytes r) \<le> MAX_LENGTH_PREFIXED_PAYLOAD"

lemma recv_framed_all:
  assumes "delivers net (concat (map (framed \<circ> response_bytes) rs) @ framed (response_bytes final) @ rest)"
    and "\<forall>r \<in> set (final # rs). framable r" and "\<forall>r \<in> set rs. log_text r \<noteq> None" and "log_text final = None"
  shows "\<exists>net'. recv_length_prefixed_response_with_info net logs =
      Ok ((final, logs @ map (the \<circ> log_text) rs), net') \<and> delivers net' rest"
  using assms
proof (induction rs arbitrary: net logs)
  case Nil
  then have "delivers net (framed (response_bytes final) @ rest)" "response_text_ok final"
    "length (response_bytes final) \<le> MAX_LENGTH_PREFIXED_PAYLOAD" by (simp_all add: framable_def)
  from recv_framed [OF this, of logs] obtain net' where "delivers net' rest"
    "recv_length_prefixed_response_with_info net logs =
      (case final of
         Info msg \<Rightarrow> recv_length_prefixed_response_with_info net' (logs @ [msg])
       | Text msg \<Rightarrow> recv_length_prefixed_response_with_info net' (logs @ [msg])
       | response \<Rightarrow> Ok ((response, logs), net'))" .
  with Nil.prems(4) show ?case by (cases final) auto
next
  case (Cons r rs)
  let ?tail = "concat (map (framed \<circ> response_bytes) rs) @ framed (response_bytes final) @ rest"
  from Cons.prems have "delivers net (framed (response_bytes r) @ ?tail)" "response_text_ok r"
    "length (response_bytes r) \<le> MAX_LENGTH_PREFIXED_PAYLOAD" by (simp_all add: framable_def comp_def)
  from recv_framed [OF this, of logs] obtain net' where d: "delivers net' ?tail"
    and e: "recv_length_prefixed_response_with_info net logs =
      (case r of
         Info msg \<Rightarrow> recv_length_prefixed_response_with_info net' (logs @ [msg])
       | Text msg \<Rightarrow> recv_length_prefixed_response_with_info net' (logs @ [msg])
       | response \<Rightarrow> Ok ((response, logs), net'))" .
  from Cons.prems(3) have "log_text r \<noteq> None" by simp
  then obtain msg where "log_text r = Some msg"
    "recv_length_prefixed_response_with_info net logs = recv_length_prefixed_response_with_info net' (logs @ [msg])"
    using e by (cases r) auto
  with Cons.IH [OF d, of "logs @ [msg]"] Cons.prems show ?case by auto
qed

text \<open>
  Responses on an unframed stream are separated when no text of one of them, followed by what comes next,
  contains a response prefix, and the last text does not end in the beginning of one.
\<close>

fun response_text :: "FastbootResponse \<Rightarrow> rstr" where
  "response_text (Okay s) = s"
| "response_text (Fail s) = s"
| "response_text (Data n) = fmt_hex 8 (unat n)"
| "response_text (Info s) = s"
| "response_text (Text s) = s"

fun separated :: "FastbootResponse list \<Rightarrow> bool" where
  "separated [] = True"
| "separated (r # rs) =
     ((case r of Data n \<Rightarrow> True
       | _ \<Rightarrow> scan_body_end (response_text r @ concat (map response_bytes rs)) = length (response_text r)) \<and>
      separated rs)"

lemma is_fb_prefix_response: "is_fb_prefix (response_bytes r @ tail)"
  by (cases r) (simp_all add: is_fb_prefix_def FB_PREFIXES_def response_prefixes)

lemma resync_response: "resync (response_bytes r @ tail) = (True, response_bytes r @ tail)"
  using is_fb_prefix_response by (simp add: resync_def)

lemma response_bytes_ne [simp]: "response_bytes r \<noteq> []"
  by (cases r) (simp_all add: response_prefixes)

lemma length_response_bytes [simp]: "length (response_bytes (Data n)) = 12"
  using u32_less [of n] by (simp add: length_fmt_hex)

lemma prefix_utf8: "from_utf8 (str ''OKAY'') = Some (str ''OKAY'')" "from_utf8 (str ''FAIL'') = Some (str ''FAIL'')"
  "from_utf8 (str ''INFO'') = Some (str ''INFO'')" "from_utf8 (str ''TEXT'') = Some (str ''TEXT'')"
  "from_utf8 (str ''DATA'') = Some (str ''DATA'')"
  by (simp_all add: response_prefixes)

lemma prefix_neq: "str ''OKAY'' \<noteq> str ''DATA''" "str ''FAIL'' \<noteq> str ''DATA''" "str ''INFO'' \<noteq> str ''DATA''"
  "str ''TEXT'' \<noteq> str ''DATA''"
  by (simp_all add: response_prefixes)

lemma parse_one_response_bytes:
  assumes "response_text_ok r" and "separated (r # rs)"
  shows "parse_one_response (response_bytes r @ concat (map response_bytes rs)) =
    Ok (r, length (response_bytes r))"
proof -
  let ?tail = "concat (map response_bytes rs)"
  have p: "FastbootResponse_parse (response_bytes r) = Ok r" using parse_response_bytes [OF assms(1)] .
  have len: "4 \<le> length (response_bytes r @ ?tail)" by (cases r) simp_all
  show ?thesis
  proof (cases r)
    case (Data n)
    have l8: "length (fmt_hex 8 (unat n)) = 8" using length_response_bytes [of n] by simp
    show ?thesis
      using p l8 unfolding parse_one_response_unfold [OF len] by (simp add: Data prefix_utf8)
  qed (use p assms(2) in \<open>unfold parse_one_response_unfold [OF len], simp_all add: prefix_utf8 prefix_neq slice_def\<close>)
qed

lemma str_eq_Nil [simp]: "str s = [] \<longleftrightarrow> s = []"
  by (simp add: str_def)

lemma scan_separated:
  assumes "separated (rs @ [final])" and "\<forall>r \<in> set (final # rs). response_text_ok r"
    and "\<forall>r \<in> set rs. log_text r \<noteq> None" and "log_text final = None"
  shows "scan (concat (map response_bytes (rs @ [final]))) logs = Final final [] (logs @ map (the \<circ> log_text) rs)"
  using assms
proof (induction rs arbitrary: logs)
  case Nil
  then have "parse_one_response (response_bytes final) = Ok (final, length (response_bytes final))"
    using parse_one_response_bytes [of final "[]"] by simp
  with Nil.prems(4) resync_response [of final "[]"] show ?case
    by (subst scan.simps) (cases final; simp)
next
  case (Cons r rs)
  let ?tail = "concat (map response_bytes (rs @ [final]))"
  have one: "parse_one_response (response_bytes r @ ?tail) = Ok (r, length (response_bytes r))"
    using Cons.prems by (intro parse_one_response_bytes) simp_all
  from Cons.prems(3) obtain msg where msg: "log_text r = Some msg" by auto
  have "scan (response_bytes r @ ?tail) logs = scan ?tail (logs @ [msg])"
    using one msg resync_response [of r ?tail]
    by (subst scan.simps) (cases r; simp)
  with Cons msg show ?case by simp
qed

text \<open>What an unframed receive returns depends on how the network cut the response.\<close>

lemma raw_fragmentation:
  "recv_response_with_info [Seg (str ''OKAYab'')] [] = Ok ((Okay (str ''ab''), []), []) \<and>
   recv_response_with_info [Seg (str ''OKAY''), Seg (str ''ab'')] [] = Ok ((Okay [], []), [Seg (str ''ab'')])"
  by code_simp

section \<open>Properties\<close>

text \<open>
  C13: The framed mode delivers responses intact. When the device sends any number of \<open>INFO\<close> and
  \<open>TEXT\<close> messages and then a final response, each behind the 8-byte length that \<open>write\<close> prepends, the
  receive loop returns the final response and the log lines in order, however TCP cuts the stream, and
  leaves what follows unread. No message text can be mistaken for another response.
\<close>

theorem framed_responses_intact:
  assumes "delivers net (concat (map (framed \<circ> response_bytes) rs) @ framed (response_bytes final) @ rest)"
    and "\<forall>r \<in> set (final # rs). framable r" and "\<forall>r \<in> set rs. log_text r \<noteq> None" and "log_text final = None"
  shows "\<exists>net'. recv_length_prefixed_response_with_info net [] =
      Ok ((final, map (the \<circ> log_text) rs), net') \<and> delivers net' rest"
  using recv_framed_all [OF assms, of "[]"] by simp

theorem framed_responses_intact_witness:
  "\<exists>net'. recv_length_prefixed_response_with_info
      (segs [concat (map (framed \<circ> response_bytes) [Info (str ''OKAY'')]) @ framed (response_bytes (Data 16)) @ [7]]) [] =
    Ok ((Data 16, map (the \<circ> log_text) [Info (str ''OKAY'')]), net') \<and> delivers net' [7]"
proof (rule framed_responses_intact)
  show "delivers (segs [concat (map (framed \<circ> response_bytes) [Info (str ''OKAY'')]) @ framed (response_bytes (Data 16)) @ [7]])
    (concat (map (framed \<circ> response_bytes) [Info (str ''OKAY'')]) @ framed (response_bytes (Data 16)) @ [7])"
    using delivers_segs [of "[concat (map (framed \<circ> response_bytes) [Info (str ''OKAY'')]) @ framed (response_bytes (Data 16)) @ [7]]"]
    by simp
  have "length (fmt_hex 8 (unat (16 :: u32))) = 8" by (rule length_fmt_hex) simp_all
  then show "\<forall>r \<in> set [Data 16, Info (str ''OKAY'')]. framable r"
    by (simp add: framable_def MAX_LENGTH_PREFIXED_PAYLOAD_def response_prefixes)
qed simp_all

text \<open>
  C34: The \<open>FB01\<close> handshake loses no data. If the peer answers in the framed protocol, the mode is
  length-prefixed and only the four-byte greeting is consumed; otherwise the mode is raw and the bytes
  that were read during detection, followed by those still in the stream, are all that the peer sent.
\<close>

theorem handshake_keeps_bytes:
  assumes "delivers net bs" and "perform_handshake True net = ((md, leftover), net')"
  shows "if 2 \<le> length bs \<and> take 2 bs = str ''FB''
    then md = LengthPrefixed \<and> leftover = [] \<and> delivers net' (drop 4 bs)
    else md = Raw \<and> (\<exists>rest. delivers net' rest \<and> leftover @ rest = bs)"
proof -
  from handshake_read_delivers [OF assms(1), of "[]"] obtain net1 where
    h: "handshake_read net [] = (take 4 bs, net1)" "delivers net1 (drop 4 bs)" by auto
  have t2: "take 2 (take 4 bs) = take 2 bs" by simp
  show ?thesis
  proof (cases "2 \<le> length bs \<and> take 2 bs = str ''FB''")
    case True
    with h assms(2) show ?thesis by (simp add: perform_handshake_def)
  next
    case False
    have "md = Raw \<and> (\<exists>rest. delivers net' rest \<and> leftover @ rest = bs)"
    proof (cases "4 \<le> length bs \<and> is_fb_prefix (take 4 bs)")
      case True
      with False h assms(2) drain_extra_delivers [OF h(2), of "[]"]
      show ?thesis by (auto simp: perform_handshake_def)
    next
      case nofb: False
      with False h assms(2) have "md = Raw \<and> leftover = take 4 bs \<and> net' = net1"
        by (auto simp: perform_handshake_def split: if_splits)
      with h(2) show ?thesis by (auto intro: exI [of _ "drop 4 bs"])
    qed
    with False show ?thesis by simp
  qed
qed

theorem handshake_keeps_bytes_witness:
  "\<exists>md leftover net'. perform_handshake True [Seg (str ''OKA''), Seg (str ''Yhi'')] = ((md, leftover), net') \<and>
     md = Raw \<and> (\<exists>rest. delivers net' rest \<and> leftover @ rest = str ''OKAYhi'')"
proof -
  obtain md leftover net' where p: "perform_handshake True [Seg (str ''OKA''), Seg (str ''Yhi'')] = ((md, leftover), net')"
    by (metis surj_pair)
  have d: "delivers [Seg (str ''OKA''), Seg (str ''Yhi'')] (str ''OKAYhi'')"
    by (simp add: delivers_Cons str_def)
  from handshake_keeps_bytes [OF d p] p show ?thesis by (auto simp: str_def)
qed

text \<open>
  On an unframed stream the scanner is correct for separated responses that arrive together: any
  number of \<open>INFO\<close> and \<open>TEXT\<close> messages and a final response in one segment are returned as the log lines in
  order and that response, provided no message text contains a response prefix.
\<close>

theorem raw_responses_together:
  assumes "separated (rs @ [final])" and "\<forall>r \<in> set (final # rs). response_text_ok r"
    and "\<forall>r \<in> set rs. log_text r \<noteq> None" and "log_text final = None"
    and "length (concat (map response_bytes (rs @ [final]))) \<le> 4096"
  shows "recv_response_with_info [Seg (concat (map response_bytes (rs @ [final])))] [] =
    Ok ((final, map (the \<circ> log_text) rs), [])"
proof -
  let ?b = "concat (map response_bytes (rs @ [final]))"
  have "scan [] [] = More [] []" by (simp add: scan.simps)
  moreover have "?b \<noteq> []" by simp
  ultimately have "recv_loop [Seg ?b] [] [] = recv_loop [] ?b []"
    using assms(5) by (subst recv_loop.simps) simp
  also have "\<dots> = Ok ((final, [], map (the \<circ> log_text) rs), [])"
    using scan_separated [OF assms(1-4), of "[]"] by (subst recv_loop.simps) simp
  finally show ?thesis by (simp add: recv_response_with_info_def)
qed

theorem raw_responses_together_witness:
  "recv_response_with_info [Seg (concat (map response_bytes ([Info (str ''erasing'')] @ [Okay []])))] [] =
    Ok ((Okay [], map (the \<circ> log_text) [Info (str ''erasing'')]), [])"
proof (rule raw_responses_together)
  show "separated ([Info (str ''erasing'')] @ [Okay []])" by code_simp
  show "\<forall>r \<in> set [Okay [], Info (str ''erasing'')]. response_text_ok r"
    by (simp add: str_def)
qed (simp_all add: response_prefixes)

end
