(* ===== verification/Fastboot_Udp.thy ===== *)
theory Fastboot_Udp
  imports Fastboot_Stream
begin

text \<open>
  The UDP transport, \<open>crates/fastboot-protocol/src/udp.rs\<close>: packet headers, stop-and-wait sending with
  retransmission and continuation, the query and init handshake, and \<open>Read\<close> and \<open>Write\<close>. The socket is
  a parameter: a function from its state and the packet sent to what the next \<open>recv\<close> gives. The last
  part puts a device behind a lossy network at the other end.
\<close>

section \<open>Headers\<close>

definition UDP_HEADER_LEN :: nat where "UDP_HEADER_LEN = 4"
definition UDP_ID_ERROR :: u8 where "UDP_ID_ERROR = 0"
definition UDP_ID_QUERY :: u8 where "UDP_ID_QUERY = 1"
definition UDP_ID_INIT :: u8 where "UDP_ID_INIT = 2"
definition UDP_ID_FASTBOOT :: u8 where "UDP_ID_FASTBOOT = 3"
definition UDP_FLAG_NONE :: u8 where "UDP_FLAG_NONE = 0"
definition UDP_FLAG_CONTINUATION :: u8 where "UDP_FLAG_CONTINUATION = 1"
definition MIN_UDP_PACKET_SIZE :: nat where "MIN_UDP_PACKET_SIZE = 512"
definition HOST_MAX_UDP_PACKET_SIZE :: nat where "HOST_MAX_UDP_PACKET_SIZE = 8192"
definition DEFAULT_UDP_PACKET_SIZE :: nat where "DEFAULT_UDP_PACKET_SIZE = MIN_UDP_PACKET_SIZE"
definition DEFAULT_UDP_MAX_RETRIES :: nat where "DEFAULT_UDP_MAX_RETRIES = 120"

lemmas udp_ids = UDP_ID_ERROR_def UDP_ID_QUERY_def UDP_ID_INIT_def UDP_ID_FASTBOOT_def
  UDP_FLAG_NONE_def UDP_FLAG_CONTINUATION_def

record UdpHeader =
  uh_id :: u8
  uh_flags :: u8
  uh_seq :: u16

definition encode_4byte :: "UdpHeader \<Rightarrow> bytes" where
  "encode_4byte h = [uh_id h, uh_flags h, u16_to_be (uh_seq h) ! 0, u16_to_be (uh_seq h) ! 1]"

definition encode_2byte :: "UdpHeader \<Rightarrow> bytes" where
  "encode_2byte h = [uh_flags h, ucast (uh_seq h AND 0xff)]"

definition UdpHeader_decode :: "bytes \<Rightarrow> (UdpHeader \<times> nat, FastbootTransportError) outcome" where
  "UdpHeader_decode buf =
     (if length buf \<ge> 4 then
        Ok (\<lparr>uh_id = buf ! 0, uh_flags = buf ! 1, uh_seq = u16_from_be [buf ! 2, buf ! 3]\<rparr>, 4)
      else if length buf \<ge> 2 then
        Ok (\<lparr>uh_id = UDP_ID_FASTBOOT, uh_flags = buf ! 0, uh_seq = ucast (buf ! 1)\<rparr>, 2)
      else Err (FbProtocol (str ''UDP header too short'')))"

section \<open>The transport\<close>

record FastbootUdpTransport =
  u_seq :: u16
  max_packet_size :: nat
  max_retries :: nat
  u_read_buf :: bytes
  u_read_pos :: nat

text \<open>
  What follows a \<open>send\<close> of one packet: the send fails, a datagram arrives, the \<open>recv\<close> times out (\<open>TimedOut\<close> or
  \<open>WouldBlock\<close>), or it fails.
\<close>

datatype udp_event = SendFailed IoError | Datagram bytes | NoReply IoError | RecvFailed IoError

type_synonym 'n udp_socket = "'n \<Rightarrow> bytes \<Rightarrow> udp_event \<times> 'n"

definition from_socket :: FastbootUdpTransport where
  "from_socket = \<lparr>u_seq = 0, max_packet_size = DEFAULT_UDP_PACKET_SIZE,
     max_retries = DEFAULT_UDP_MAX_RETRIES, u_read_buf = [], u_read_pos = 0\<rparr>"

text \<open>The retransmission loop for one packet, with the attempts that are left.\<close>

fun transmit ::
  "'n udp_socket \<Rightarrow> nat \<Rightarrow> bytes \<Rightarrow> u8 \<Rightarrow> u16 \<Rightarrow> IoError option \<Rightarrow> 'n \<Rightarrow>
   ((UdpHeader \<times> bytes) option \<times> IoError option, FastbootTransportError) outcome \<times> 'n" where
  "transmit sock 0 packet tx_id expected_seq last_err s = (Ok (None, last_err), s)"
| "transmit sock (Suc n) packet tx_id expected_seq last_err s =
     (case sock s packet of
        (SendFailed e, s') \<Rightarrow> (Err (FbIo e), s')
      | (Datagram d, s') \<Rightarrow>
          (let recv = take HOST_MAX_UDP_PACKET_SIZE d in
           case UdpHeader_decode recv of
             Ok (resp, hlen) \<Rightarrow>
               (if uh_seq resp \<noteq> expected_seq \<or> (uh_id resp \<noteq> tx_id \<and> uh_id resp \<noteq> UDP_ID_ERROR)
                then transmit sock n packet tx_id expected_seq last_err s'
                else (Ok (Some (resp, drop hlen recv), last_err), s'))
           | Err e \<Rightarrow> (Err e, s')
           | Panic \<Rightarrow> (Panic, s'))
      | (NoReply e, s') \<Rightarrow> transmit sock n packet tx_id expected_seq (Some e) s'
      | (RecvFailed e, s') \<Rightarrow> (Err (FbIo e), s'))"

text \<open>
  The loop of \<open>send_packet_with_ack\<close>: as long as the target answers with the continuation flag, empty
  packets ask for the rest. It ends when the target stops setting that flag; \<open>None\<close> is the loop that never
  ends.
\<close>

partial_function (option) send_loop ::
  "'n udp_socket \<Rightarrow> nat \<Rightarrow> u8 \<Rightarrow> u8 \<Rightarrow> bytes \<Rightarrow> bytes \<Rightarrow> bytes \<Rightarrow> u16 \<Rightarrow> 'n \<Rightarrow>
   ((bytes, FastbootTransportError) outcome \<times> u16 \<times> 'n) option" where
  "send_loop sock retries tx_id tx_flags tx result error_data sq s =
     (let packet = encode_4byte \<lparr>uh_id = tx_id, uh_flags = tx_flags, uh_seq = sq\<rparr> @ tx;
          (r, s') = transmit sock (retries + 1) packet tx_id sq None s
      in case r of
           Panic \<Rightarrow> Some (Panic, sq, s')
         | Err e \<Rightarrow> Some (Err e, sq, s')
         | Ok (None, last_err) \<Rightarrow>
             Some (Err (FbIo (case last_err of Some e \<Rightarrow> e | None \<Rightarrow> TimedOut)), sq, s')
         | Ok (Some (resp, data), _) \<Rightarrow>
             (let error_data = (if uh_id resp = UDP_ID_ERROR then error_data @ data else error_data);
                  result = (if uh_id resp = UDP_ID_ERROR then result else result @ data)
              in if uh_flags resp AND UDP_FLAG_CONTINUATION = 0 then
                   Some (if error_data \<noteq> [] then
                           Err (FbProtocol (str ''UDP Error response from target: '' @ from_utf8_lossy error_data))
                         else Ok result, sq + 1, s')
                 else send_loop sock retries (uh_id resp) UDP_FLAG_NONE [] result error_data (sq + 1) s'))"

definition send_packet_with_ack ::
  "'n udp_socket \<Rightarrow> FastbootUdpTransport \<Rightarrow> u8 \<Rightarrow> u8 \<Rightarrow> bytes \<Rightarrow> 'n \<Rightarrow>
   ((bytes, FastbootTransportError) outcome \<times> FastbootUdpTransport \<times> 'n) option" where
  "send_packet_with_ack sock u i flags payload s =
     map_option (\<lambda>(r, sq, s'). (r, u\<lparr>u_seq := sq\<rparr>, s'))
       (send_loop sock (max_retries u) i flags payload [] [] (u_seq u) s)"

definition udp_perform_handshake ::
  "'n udp_socket \<Rightarrow> FastbootUdpTransport \<Rightarrow> 'n \<Rightarrow>
   ((unit, FastbootTransportError) outcome \<times> FastbootUdpTransport \<times> 'n) option" where
  "udp_perform_handshake sock u s =
     Option.bind (send_packet_with_ack sock u UDP_ID_QUERY UDP_FLAG_NONE [] s) (\<lambda>(r, u, s).
       case r of
         Panic \<Rightarrow> Some (Panic, u, s)
       | Err e \<Rightarrow> Some (Err e, u, s)
       | Ok query \<Rightarrow>
           if length query < 2 then Some (Err (FbProtocol (str ''invalid query response from target'')), u, s)
           else
             let u = u\<lparr>u_seq := u16_from_be [query ! 0, query ! 1]\<rparr>;
                 init = [0, 1, of_nat (HOST_MAX_UDP_PACKET_SIZE div 256), of_nat HOST_MAX_UDP_PACKET_SIZE]
             in Option.bind (send_packet_with_ack sock u UDP_ID_INIT UDP_FLAG_NONE init s) (\<lambda>(r, u, s).
                case r of
                  Panic \<Rightarrow> Some (Panic, u, s)
                | Err e \<Rightarrow> Some (Err e, u, s)
                | Ok response \<Rightarrow>
                    if length response < 4 then
                      Some (Err (FbProtocol (str ''invalid initialization response from target'')), u, s)
                    else
                      let version = u16_from_be [response ! 0, response ! 1];
                          remote = unat (u16_from_be [response ! 2, response ! 3])
                      in if version < 1 then
                           Some (Err (FbProtocol (str ''target reported invalid protocol version '' @
                             fmt_dec (unat version))), u, s)
                         else if remote < MIN_UDP_PACKET_SIZE then
                           Some (Err (FbProtocol (str ''target reported invalid packet size '' @ fmt_dec remote)), u, s)
                         else Some (Ok (), u\<lparr>max_packet_size := min HOST_MAX_UDP_PACKET_SIZE remote\<rparr>, s)))"

text \<open>\<open>write\<close>: one packet per chunk, all but the last with the continuation flag.\<close>

fun write_chunks ::
  "'n udp_socket \<Rightarrow> bytes list \<Rightarrow> FastbootUdpTransport \<Rightarrow> 'n \<Rightarrow>
   ((unit, FastbootTransportError) outcome \<times> FastbootUdpTransport \<times> 'n) option" where
  "write_chunks sock [] u s = Some (Ok (), u, s)"
| "write_chunks sock (chunk # cs) u s =
     (let flags = (if cs = [] then UDP_FLAG_NONE else UDP_FLAG_CONTINUATION) in
      Option.bind (send_packet_with_ack sock u UDP_ID_FASTBOOT flags chunk s) (\<lambda>(r, u, s).
        case r of
          Ok _ \<Rightarrow> write_chunks sock cs u s
        | Err e \<Rightarrow> Some (Err e, u, s)
        | Panic \<Rightarrow> Some (Panic, u, s)))"

text \<open>
  The error of \<open>send_packet_with_ack\<close> is passed on; the source wraps its message into an \<open>io::Error\<close>.
\<close>

definition udp_write ::
  "'n udp_socket \<Rightarrow> FastbootUdpTransport \<Rightarrow> bytes \<Rightarrow> 'n \<Rightarrow>
   ((nat, FastbootTransportError) outcome \<times> FastbootUdpTransport \<times> 'n) option" where
  "udp_write sock u buf s =
     (let max_payload = max (max_packet_size u - UDP_HEADER_LEN) 1;
          cs = (if buf = [] then [[]] else chunks max_payload buf)
      in map_option (\<lambda>(r, u, s). (and_then r (\<lambda>_. Ok (length buf)), u, s)) (write_chunks sock cs u s))"

definition udp_read ::
  "'n udp_socket \<Rightarrow> FastbootUdpTransport \<Rightarrow> nat \<Rightarrow> 'n \<Rightarrow>
   ((bytes, FastbootTransportError) outcome \<times> FastbootUdpTransport \<times> 'n) option" where
  "udp_read sock u n s =
     (if u_read_pos u < length (u_read_buf u) then
        (let k = min n (length (u_read_buf u) - u_read_pos u);
             bs = take k (drop (u_read_pos u) (u_read_buf u));
             u = u\<lparr>u_read_pos := u_read_pos u + k\<rparr>;
             u = (if u_read_pos u \<ge> length (u_read_buf u) then u\<lparr>u_read_buf := [], u_read_pos := 0\<rparr> else u)
         in Some (Ok bs, u, s))
      else
        map_option (\<lambda>(r, u, s). (and_then r (\<lambda>payload.
            if length payload > n then
              Err (FbIo (InvalidData (str ''UDP target sent more fastboot data than requested buffer'')))
            else Ok payload), u, s))
          (send_packet_with_ack sock u UDP_ID_FASTBOOT UDP_FLAG_NONE [] s))"

section \<open>A device behind a lossy network\<close>

text \<open>
  The receiving side of the AOSP protocol: a packet with the expected sequence number is taken and
  acknowledged, a repetition of the previous one is acknowledged again, anything else is dropped. The
  network loses requests and replies as a list of decisions says, and nothing once the list is used up.
\<close>

record device =
  dv_next :: u16
  dv_ack :: bytes
  dv_data :: bytes

definition ack_of :: "UdpHeader \<Rightarrow> bytes" where
  "ack_of h = encode_4byte \<lparr>uh_id = uh_id h, uh_flags = UDP_FLAG_NONE, uh_seq = uh_seq h\<rparr>"

definition device_receive :: "device \<Rightarrow> bytes \<Rightarrow> udp_event \<times> device" where
  "device_receive d pkt =
     (case UdpHeader_decode pkt of
        Ok (h, n) \<Rightarrow>
          (if uh_seq h = dv_next d then
             (Datagram (ack_of h), d\<lparr>dv_next := dv_next d + 1, dv_ack := ack_of h, dv_data := dv_data d @ drop n pkt\<rparr>)
           else if uh_seq h + 1 = dv_next d then (Datagram (dv_ack d), d)
           else (NoReply TimedOut, d))
      | _ \<Rightarrow> (NoReply TimedOut, d))"

definition lossy :: "(device \<times> (bool \<times> bool) list) udp_socket" where
  "lossy st pkt =
     (case st of
        (d, []) \<Rightarrow> (case device_receive d pkt of (ev, d') \<Rightarrow> (ev, (d', [])))
      | (d, (request_lost, reply_lost) # ls) \<Rightarrow>
          if request_lost then (NoReply TimedOut, (d, ls))
          else (case device_receive d pkt of
                  (ev, d') \<Rightarrow> (if reply_lost then NoReply WouldBlock else ev, (d', ls))))"

lemma lossy_simps:
  "lossy (d, []) pkt = (case device_receive d pkt of (ev, d') \<Rightarrow> (ev, (d', [])))"
  "lossy (d, (True, b) # ls) pkt = (NoReply TimedOut, (d, ls))"
  "lossy (d, (False, b) # ls) pkt =
     (case device_receive d pkt of (ev, d') \<Rightarrow> (if b then NoReply WouldBlock else ev, (d', ls)))"
  by (simp_all add: lossy_def)

lemma length_2D: "length xs = 2 \<Longrightarrow> \<exists>a b. xs = [a, b]"
  by (auto simp: numeral_2_eq_2 length_Suc_conv)

lemma decode_encode_4byte: "UdpHeader_decode (encode_4byte h @ rest) = Ok (h, 4)"
proof (cases h)
  case (fields i fl sq)
  obtain a b where ab: "u16_to_be sq = [a, b]" using length_2D [OF length_to_le(4)] by blast
  then have "u16_from_be [a, b] = sq" using from_to_be(1) [of sq] by simp
  then show ?thesis by (simp add: fields UdpHeader_decode_def encode_4byte_def ab)
qed

lemma length_encode_4byte [simp]: "length (encode_4byte h) = 4"
  by (simp add: encode_4byte_def)

text \<open>The device after it has taken a packet of the transport.\<close>

definition taken :: "device \<Rightarrow> u8 \<Rightarrow> u16 \<Rightarrow> bytes \<Rightarrow> device" where
  "taken d i sq tx = d\<lparr>dv_next := sq + 1,
     dv_ack := encode_4byte \<lparr>uh_id = i, uh_flags = UDP_FLAG_NONE, uh_seq = sq\<rparr>, dv_data := dv_data d @ tx\<rparr>"

definition packet :: "u8 \<Rightarrow> u8 \<Rightarrow> u16 \<Rightarrow> bytes \<Rightarrow> bytes" where
  "packet i fl sq tx = encode_4byte \<lparr>uh_id = i, uh_flags = fl, uh_seq = sq\<rparr> @ tx"

lemma receive_fresh:
  "dv_next d = sq \<Longrightarrow> device_receive d (packet i fl sq tx) =
     (Datagram (encode_4byte \<lparr>uh_id = i, uh_flags = UDP_FLAG_NONE, uh_seq = sq\<rparr>), taken d i sq tx)"
  by (simp add: device_receive_def packet_def decode_encode_4byte ack_of_def taken_def)

lemma receive_again:
  "device_receive (taken d i sq tx) (packet i fl sq tx) =
     (Datagram (encode_4byte \<lparr>uh_id = i, uh_flags = UDP_FLAG_NONE, uh_seq = sq\<rparr>), taken d i sq tx)"
  by (simp add: device_receive_def packet_def decode_encode_4byte taken_def)

lemma transmit_ack:
  "sock s pkt = (Datagram (encode_4byte \<lparr>uh_id = i, uh_flags = UDP_FLAG_NONE, uh_seq = sq\<rparr>), s') \<Longrightarrow>
   transmit sock (Suc n) pkt i sq le s =
     (Ok (Some (\<lparr>uh_id = i, uh_flags = UDP_FLAG_NONE, uh_seq = sq\<rparr>, []), le), s')"
  using decode_encode_4byte [of "\<lparr>uh_id = i, uh_flags = UDP_FLAG_NONE, uh_seq = sq\<rparr>" "[]"]
  by (simp add: HOST_MAX_UDP_PACKET_SIZE_def)

text \<open>
  One packet: either an acknowledgement arrives and the device has taken the packet, once; or the attempts
  run out, and then at least as many of them met a loss.
\<close>

definition sent_or_lost ::
  "device \<Rightarrow> u8 \<Rightarrow> u16 \<Rightarrow> bytes \<Rightarrow> nat \<Rightarrow> (bool \<times> bool) list \<Rightarrow>
   ((UdpHeader \<times> bytes) option \<times> IoError option, FastbootTransportError) outcome \<times>
     device \<times> (bool \<times> bool) list \<Rightarrow> bool" where
  "sent_or_lost d0 i sq tx n ls res \<longleftrightarrow>
     (\<exists>le ls'. res = (Ok (Some (\<lparr>uh_id = i, uh_flags = UDP_FLAG_NONE, uh_seq = sq\<rparr>, []), le),
          (taken d0 i sq tx, ls')) \<and> length ls' \<le> length ls) \<or>
     (\<exists>le d' ls'. res = (Ok (None, le), (d', ls')) \<and>
        (d' = d0 \<and> dv_next d0 = sq \<or> d' = taken d0 i sq tx) \<and> n \<le> length ls)"

lemma sent_or_lost_mono:
  "sent_or_lost d0 i sq tx n ls res \<Longrightarrow> sent_or_lost d0 i sq tx (Suc n) (l # ls) res"
  unfolding sent_or_lost_def by fastforce

lemma transmit_lossy:
  assumes "d = d0 \<and> dv_next d0 = sq \<or> d = taken d0 i sq tx"
  shows "sent_or_lost d0 i sq tx n ls (transmit lossy n (packet i fl sq tx) i sq le (d, ls))"
  using assms
proof (induction n arbitrary: d ls le)
  case 0
  then show ?case by (auto simp: sent_or_lost_def)
next
  case (Suc n)
  let ?ack = "encode_4byte \<lparr>uh_id = i, uh_flags = UDP_FLAG_NONE, uh_seq = sq\<rparr>"
  let ?p = "packet i fl sq tx"
  have rcv: "device_receive d ?p = (Datagram ?ack, taken d0 i sq tx)"
    using Suc.prems receive_fresh receive_again by auto
  have got: "sent_or_lost d0 i sq tx (Suc n) ls (transmit lossy (Suc n) ?p i sq le (d, ls))"
    if "lossy (d, ls) ?p = (Datagram ?ack, (taken d0 i sq tx, ls1))" "length ls1 \<le> length ls" for ls1
    using transmit_ack [of lossy, OF that(1)] that(2) by (simp add: sent_or_lost_def del: transmit.simps)
  consider (none) "ls = []" | (request) b ls1 where "ls = (True, b) # ls1"
    | (reply) ls1 where "ls = (False, True) # ls1" | (both) ls1 where "ls = (False, False) # ls1"
    by (cases ls) auto
  then show ?case
  proof cases
    case none
    then show ?thesis by (intro got [of "[]"]) (simp_all add: lossy_simps rcv)
  next
    case both
    then show ?thesis by (intro got [of ls1]) (simp_all add: lossy_simps rcv)
  next
    case request
    have "sent_or_lost d0 i sq tx n ls1 (transmit lossy n ?p i sq (Some TimedOut) (d, ls1))"
      by (rule Suc.IH [OF Suc.prems])
    from sent_or_lost_mono [OF this] request show ?thesis by (simp add: lossy_simps)
  next
    case reply
    have "sent_or_lost d0 i sq tx n ls1 (transmit lossy n ?p i sq (Some WouldBlock) (taken d0 i sq tx, ls1))"
      by (rule Suc.IH) simp
    from sent_or_lost_mono [OF this] reply show ?thesis by (simp add: lossy_simps rcv)
  qed
qed

text \<open>One call of \<open>send_packet_with_ack\<close> against the device.\<close>

lemma send_packet_lossy:
  assumes "u_seq u = dv_next d" and "i \<noteq> UDP_ID_ERROR"
  shows "(\<exists>ls'. send_packet_with_ack lossy u i fl tx (d, ls) =
        Some (Ok [], u\<lparr>u_seq := u_seq u + 1\<rparr>, (taken d i (u_seq u) tx, ls')) \<and> length ls' \<le> length ls) \<or>
    (\<exists>e d' ls'. send_packet_with_ack lossy u i fl tx (d, ls) = Some (Err e, u, (d', ls')) \<and>
        (d' = d \<or> d' = taken d i (u_seq u) tx) \<and> max_retries u < length ls)"
proof -
  let ?r = "transmit lossy (max_retries u + 1) (packet i fl (u_seq u) tx) i (u_seq u) None (d, ls)"
  have "sent_or_lost d i (u_seq u) tx (max_retries u + 1) ls ?r"
    using assms(1) by (intro transmit_lossy) simp
  then consider
    (sent) le ls' where "?r = (Ok (Some (\<lparr>uh_id = i, uh_flags = UDP_FLAG_NONE, uh_seq = u_seq u\<rparr>, []), le),
        (taken d i (u_seq u) tx, ls'))" "length ls' \<le> length ls"
    | (lost) le d' ls' where "?r = (Ok (None, le), (d', ls'))" "d' = d \<or> d' = taken d i (u_seq u) tx"
      "max_retries u < length ls"
    by (auto simp: sent_or_lost_def)
  then show ?thesis
  proof cases
    case sent
    then have "send_packet_with_ack lossy u i fl tx (d, ls) =
        Some (Ok [], u\<lparr>u_seq := u_seq u + 1\<rparr>, (taken d i (u_seq u) tx, ls'))"
      using assms(2) unfolding send_packet_with_ack_def
      by (subst send_loop.simps) (simp add: packet_def [symmetric] UDP_FLAG_NONE_def del: transmit.simps)
    with sent(2) show ?thesis by blast
  next
    case lost
    then have "\<exists>e. send_packet_with_ack lossy u i fl tx (d, ls) = Some (Err e, u, (d', ls'))"
      unfolding send_packet_with_ack_def
      by (subst send_loop.simps) (simp add: packet_def [symmetric] del: transmit.simps)
    with lost(2,3) show ?thesis by blast
  qed
qed

definition written_or_lost ::
  "bytes list \<Rightarrow> FastbootUdpTransport \<Rightarrow> device \<Rightarrow> (bool \<times> bool) list \<Rightarrow>
   ((unit, FastbootTransportError) outcome \<times> FastbootUdpTransport \<times> device \<times> (bool \<times> bool) list) option \<Rightarrow> bool" where
  "written_or_lost cs u d ls res \<longleftrightarrow>
     (\<exists>u' d' ls'. res = Some (Ok (), u', (d', ls')) \<and> dv_data d' = dv_data d @ concat cs \<and>
        u_seq u' = dv_next d' \<and> u_seq u' = u_seq u + of_nat (length cs)) \<or>
     (\<exists>e u' d' ls' k. res = Some (Err e, u', (d', ls')) \<and> dv_data d' = dv_data d @ concat (take k cs) \<and>
        max_retries u < length ls)"

lemma taken_simps [simp]:
  "dv_next (taken d i sq tx) = sq + 1" "dv_data (taken d i sq tx) = dv_data d @ tx"
  by (simp_all add: taken_def)

lemma write_chunks_lossy:
  "u_seq u = dv_next d \<Longrightarrow> written_or_lost cs u d ls (write_chunks lossy cs u (d, ls))"
proof (induction cs arbitrary: u d ls)
  case Nil
  then show ?case by (simp add: written_or_lost_def)
next
  case (Cons c cs)
  let ?fl = "if cs = [] then UDP_FLAG_NONE else UDP_FLAG_CONTINUATION"
  let ?u = "u\<lparr>u_seq := u_seq u + 1\<rparr>" and ?d = "taken d UDP_ID_FASTBOOT (u_seq u) c"
  have "UDP_ID_FASTBOOT \<noteq> UDP_ID_ERROR" by (simp add: udp_ids)
  from send_packet_lossy [OF Cons.prems this, of ?fl c ls]
  consider (sent) ls' where "send_packet_with_ack lossy u UDP_ID_FASTBOOT ?fl c (d, ls) = Some (Ok [], ?u, (?d, ls'))"
      "length ls' \<le> length ls"
    | (lost) e d' ls' where "send_packet_with_ack lossy u UDP_ID_FASTBOOT ?fl c (d, ls) = Some (Err e, u, (d', ls'))"
      "d' = d \<or> d' = ?d" "max_retries u < length ls"
    by blast
  then show ?case
  proof cases
    case sent
    then have step: "write_chunks lossy (c # cs) u (d, ls) = write_chunks lossy cs ?u (?d, ls')" by simp
    have "written_or_lost cs ?u ?d ls' (write_chunks lossy cs ?u (?d, ls'))"
      by (rule Cons.IH) simp
    then consider (ok) u' d' ls2 where "write_chunks lossy cs ?u (?d, ls') = Some (Ok (), u', (d', ls2))"
        "dv_data d' = dv_data ?d @ concat cs" "u_seq u' = dv_next d'" "u_seq u' = u_seq ?u + of_nat (length cs)"
      | (err) e u' d' ls2 k where "write_chunks lossy cs ?u (?d, ls') = Some (Err e, u', (d', ls2))"
        "dv_data d' = dv_data ?d @ concat (take k cs)" "max_retries u < length ls'"
      by (auto simp: written_or_lost_def)
    then show ?thesis
    proof cases
      case ok
      then show ?thesis unfolding step written_or_lost_def by (intro disjI1) (simp add: ac_simps)
    next
      case err
      then have "dv_data d' = dv_data d @ concat (take (Suc k) (c # cs))" by simp
      with err sent(2) show ?thesis unfolding step written_or_lost_def
        by (intro disjI2) (auto intro!: exI [of _ "Suc k"])
    qed
  next
    case lost
    then have "write_chunks lossy (c # cs) u (d, ls) = Some (Err e, u, (d', ls'))" by simp
    moreover have "\<exists>k. dv_data d' = dv_data d @ concat (take k (c # cs))"
      using lost(2) by (auto intro: exI [of _ 0] exI [of _ 1])
    ultimately show ?thesis using lost(3) by (auto simp: written_or_lost_def simp del: write_chunks.simps)
  qed
qed

lemma concat_take_prefix: "\<exists>m. concat (take k cs) = take m (concat cs)"
proof -
  have "concat cs = concat (take k cs) @ concat (drop k cs)"
    by (metis append_take_drop_id concat_append)
  then show ?thesis by (metis append_eq_conv_conj)
qed

section \<open>Properties\<close>



end
