(* ===== verification/Boot_Image.thy ===== *)
theory Boot_Image
  imports Byteorder Rust_Str
begin

text \<open>
  Android boot images of header versions 0 to 4, \<open>crates/fastboot-protocol/src/boot_image.rs\<close>: the
  header codec, building an image from its sections and parsing it back.
\<close>

section \<open>Constants and helpers\<close>

definition BOOT_MAGIC :: bytes where "BOOT_MAGIC = str ''ANDROID!''"
definition BOOT_NAME_SIZE :: nat where "BOOT_NAME_SIZE = 16"
definition BOOT_ARGS_SIZE :: nat where "BOOT_ARGS_SIZE = 512"
definition BOOT_EXTRA_ARGS_SIZE :: nat where "BOOT_EXTRA_ARGS_SIZE = 1024"
definition BOOT_ID_SIZE :: nat where "BOOT_ID_SIZE = 32"
definition BOOT_IMAGE_HEADER_V0_SIZE :: nat where "BOOT_IMAGE_HEADER_V0_SIZE = 1632"
definition BOOT_IMAGE_HEADER_V1_SIZE :: nat where "BOOT_IMAGE_HEADER_V1_SIZE = 1648"
definition BOOT_IMAGE_HEADER_V2_SIZE :: nat where "BOOT_IMAGE_HEADER_V2_SIZE = 1664"
definition BOOT_IMAGE_HEADER_V3_SIZE :: nat where "BOOT_IMAGE_HEADER_V3_SIZE = 4096"
definition BOOT_IMAGE_HEADER_V4_SIZE :: nat where "BOOT_IMAGE_HEADER_V4_SIZE = 4096"
definition DEFAULT_KERNEL_ADDR :: u32 where "DEFAULT_KERNEL_ADDR = 0x00008000"
definition DEFAULT_RAMDISK_ADDR :: u32 where "DEFAULT_RAMDISK_ADDR = 0x01000000"
definition DEFAULT_SECOND_ADDR :: u32 where "DEFAULT_SECOND_ADDR = 0x00F00000"
definition DEFAULT_TAGS_ADDR :: u32 where "DEFAULT_TAGS_ADDR = 0x00000100"
definition DEFAULT_PAGE_SIZE :: u32 where "DEFAULT_PAGE_SIZE = 2048"

lemmas boot_sizes = BOOT_NAME_SIZE_def BOOT_ARGS_SIZE_def BOOT_EXTRA_ARGS_SIZE_def BOOT_ID_SIZE_def
  BOOT_IMAGE_HEADER_V0_SIZE_def BOOT_IMAGE_HEADER_V1_SIZE_def BOOT_IMAGE_HEADER_V2_SIZE_def
  BOOT_IMAGE_HEADER_V3_SIZE_def BOOT_IMAGE_HEADER_V4_SIZE_def

datatype BootImageError =
    BootBufferTooShort (bt_expected: nat) (bt_got: nat)
  | BootInvalidMagic rstr
  | BootUnsupportedVersion u32
  | InvalidPageSize u32
  | InvalidOsVersion u32
  | SectionBounds (sb_section: rstr) (sb_offset: nat) (sb_size: nat) (sb_len: nat)
  | InvalidSectionOffset (so_section: rstr) (so_offset: nat) (so_minimum: nat)
  | CmdlineTooLong nat nat
  | NameTooLong nat nat

text \<open>\<open>is_power_of_two\<close> of the unsigned types, and the \<open>usize\<close> arithmetic of \<open>align_up\<close>.\<close>

definition is_power_of_two :: "nat \<Rightarrow> bool" where
  "is_power_of_two n = list_ex (\<lambda>k. n = 2 ^ k) [0..<64]"

definition align_up :: "nat \<Rightarrow> nat \<Rightarrow> nat" where
  "align_up n align = unat ((of_nat n + of_nat align - 1 :: u64) AND NOT (of_nat align - 1))"

text \<open>\<open>bytes.iter().map(|&b| b as char).collect()\<close>: every byte as the code point of that number.\<close>

definition latin1_string :: "bytes \<Rightarrow> rstr" where
  "latin1_string bs = concat (map (\<lambda>b. if b < 0x80 then [b]
     else [0xC0 OR drop_bit 6 b, 0x80 OR (b AND 0x3F)]) bs)"

definition write_fixed_string :: "rstr \<Rightarrow> nat \<Rightarrow> bytes" where
  "write_fixed_string s len =
     (let copy_len = min (length s) len in
      take copy_len s @ (if copy_len < len then replicate (len - copy_len) 0 else []))"

definition read_fixed_string :: "bytes \<Rightarrow> nat \<Rightarrow> nat \<Rightarrow> (rstr, 'e) outcome" where
  "read_fixed_string data off len =
     and_then (slice data off (off + len)) (\<lambda>w.
       let e = length (takeWhile (\<lambda>b. b \<noteq> 0) w) in
       and_then (slice data off (off + e)) (\<lambda>s. Ok (from_utf8_lossy s)))"

section \<open>Versions\<close>

record OsVersion =
  os_major :: u8
  os_minor :: u8
  os_patch :: u8
  year_since_2000 :: u8
  os_month :: u8
  os_day :: u8

definition OsVersion_encode :: "OsVersion \<Rightarrow> u32" where
  "OsVersion_encode v =
     push_bit 16 (ucast (os_major v)) OR push_bit 24 (ucast (os_minor v)) OR
     push_bit 28 (ucast (os_patch v)) OR ucast (year_since_2000 v) OR
     push_bit 8 (ucast (os_month v)) OR push_bit 12 (ucast (os_day v))"

definition OsVersion_decode :: "u32 \<Rightarrow> OsVersion" where
  "OsVersion_decode raw =
     \<lparr>os_major = ucast (drop_bit 16 raw AND 0xFF), os_minor = ucast (drop_bit 24 raw AND 0x0F),
      os_patch = ucast (drop_bit 28 raw AND 0x0F), year_since_2000 = ucast (raw AND 0xFF),
      os_month = ucast (drop_bit 8 raw AND 0x0F), os_day = ucast (drop_bit 12 raw AND 0x0F)\<rparr>"

datatype BootImageVersion = V0 | V1 | V2 | V3 | V4

definition BootImageVersion_from_u32 :: "u32 \<Rightarrow> (BootImageVersion, BootImageError) outcome" where
  "BootImageVersion_from_u32 v =
     (if v = 0 then Ok V0 else if v = 1 then Ok V1 else if v = 2 then Ok V2
      else if v = 3 then Ok V3 else if v = 4 then Ok V4 else Err (BootUnsupportedVersion v))"

fun BootImageVersion_as_u32 :: "BootImageVersion \<Rightarrow> u32" where
  "BootImageVersion_as_u32 V0 = 0"
| "BootImageVersion_as_u32 V1 = 1"
| "BootImageVersion_as_u32 V2 = 2"
| "BootImageVersion_as_u32 V3 = 3"
| "BootImageVersion_as_u32 V4 = 4"

fun header_size :: "BootImageVersion \<Rightarrow> nat" where
  "header_size V0 = BOOT_IMAGE_HEADER_V0_SIZE"
| "header_size V1 = BOOT_IMAGE_HEADER_V1_SIZE"
| "header_size V2 = BOOT_IMAGE_HEADER_V2_SIZE"
| "header_size V3 = BOOT_IMAGE_HEADER_V4_SIZE"
| "header_size V4 = BOOT_IMAGE_HEADER_V4_SIZE"

section \<open>Headers\<close>

record BootImageHeader =
  header_version :: u32
  kernel_size :: u32
  kernel_addr :: u32
  ramdisk_size :: u32
  ramdisk_addr :: u32
  os_version :: u32
  second_size :: u32
  second_addr :: u32
  tags_addr :: u32
  page_size :: u32
  bh_name :: rstr
  cmdline :: rstr
  bh_id :: bytes
  extra_cmdline :: rstr
  recovery_dtbo_size :: u32
  recovery_dtbo_offset :: u64
  boot_header_size :: u32
  dtb_size :: u32
  dtb_addr :: u64

definition new_v0 :: BootImageHeader where
  "new_v0 = \<lparr>header_version = 0, kernel_size = 0, kernel_addr = DEFAULT_KERNEL_ADDR, ramdisk_size = 0,
     ramdisk_addr = DEFAULT_RAMDISK_ADDR, os_version = 0, second_size = 0,
     second_addr = DEFAULT_SECOND_ADDR, tags_addr = DEFAULT_TAGS_ADDR, page_size = DEFAULT_PAGE_SIZE,
     bh_name = [], cmdline = [], bh_id = replicate BOOT_ID_SIZE 0, extra_cmdline = [],
     recovery_dtbo_size = 0, recovery_dtbo_offset = 0, boot_header_size = 0, dtb_size = 0, dtb_addr = 0\<rparr>"

definition new_v3 :: BootImageHeader where
  "new_v3 = \<lparr>header_version = 3, kernel_size = 0, kernel_addr = 0, ramdisk_size = 0,
     ramdisk_addr = 0, os_version = 0, second_size = 0,
     second_addr = 0, tags_addr = 0, page_size = 4096,
     bh_name = [], cmdline = [], bh_id = replicate BOOT_ID_SIZE 0, extra_cmdline = [],
     recovery_dtbo_size = 0, recovery_dtbo_offset = 0,
     boot_header_size = of_nat BOOT_IMAGE_HEADER_V3_SIZE, dtb_size = 0, dtb_addr = 0\<rparr>"

text \<open>\<open>write_u32(buf, v)\<close> and \<open>write_u64(buf, v)\<close> of the file append the bytes of the integer.\<close>

definition pad_to_size :: "nat \<Rightarrow> bytes \<Rightarrow> bytes" where
  "pad_to_size n buf = buf @ replicate (n - length buf) 0"

definition native_header_size :: "BootImageHeader \<Rightarrow> nat" where
  "native_header_size h = (case BootImageVersion_from_u32 (header_version h) of Ok v \<Rightarrow> header_size v | _ \<Rightarrow> 0)"

definition encode_v0_v1_v2 :: "byteorder \<Rightarrow> BootImageHeader \<Rightarrow> bytes \<Rightarrow> bytes" where
  "encode_v0_v1_v2 bo h buf =
     (let version = header_version h;
          hdr_sz = (case BootImageVersion_from_u32 version of Ok v \<Rightarrow> header_size v | _ \<Rightarrow> 0);
          buf = buf @ write_u32 bo (kernel_size h) @ write_u32 bo (kernel_addr h) @
            write_u32 bo (ramdisk_size h) @ write_u32 bo (ramdisk_addr h) @ write_u32 bo (second_size h) @
            write_u32 bo (second_addr h) @ write_u32 bo (tags_addr h) @ write_u32 bo (page_size h);
          buf = buf @ write_u32 bo (header_version h);
          buf = buf @ write_u32 bo (os_version h);
          buf = buf @ write_fixed_string (bh_name h) BOOT_NAME_SIZE;
          buf = buf @ write_fixed_string (cmdline h) BOOT_ARGS_SIZE;
          buf = buf @ bh_id h;
          buf = buf @ write_fixed_string (extra_cmdline h) BOOT_EXTRA_ARGS_SIZE;
          buf = (if version \<ge> 1 then buf @ write_u32 bo (recovery_dtbo_size h) @
                   write_u64 bo (recovery_dtbo_offset h) @ write_u32 bo (boot_header_size h)
                 else buf);
          buf = (if version \<ge> 2 then buf @ write_u32 bo (dtb_size h) @ write_u64 bo (dtb_addr h) else buf)
      in pad_to_size hdr_sz buf)"

definition encode_v3_v4 :: "byteorder \<Rightarrow> BootImageHeader \<Rightarrow> bytes \<Rightarrow> bytes" where
  "encode_v3_v4 bo h buf =
     (let buf = buf @ write_u32 bo (header_version h) @ write_u32 bo (kernel_size h) @
            write_u32 bo (ramdisk_size h) @ write_u32 bo (os_version h) @
            write_u32 bo (of_nat BOOT_IMAGE_HEADER_V3_SIZE);
          buf = buf @ concat (replicate 4 (write_u32 bo 0))
      in pad_to_size BOOT_IMAGE_HEADER_V3_SIZE buf)"

definition BootImageHeader_encode :: "byteorder \<Rightarrow> BootImageHeader \<Rightarrow> bytes" where
  "BootImageHeader_encode bo h =
     (let version = header_version h; buf = BOOT_MAGIC in
      if version = 0 \<or> version = 1 \<or> version = 2 then encode_v0_v1_v2 bo h buf
      else if version = 3 \<or> version = 4 then encode_v3_v4 bo h buf
      else buf)"

definition decode_v0_v1_v2 :: "byteorder \<Rightarrow> bytes \<Rightarrow> u32 \<Rightarrow> (BootImageHeader, BootImageError) outcome" where
  "decode_v0_v1_v2 bo data version =
     (case BootImageVersion_from_u32 version of
        Err e \<Rightarrow> Panic
      | Panic \<Rightarrow> Panic
      | Ok v \<Rightarrow>
          (let hdr_sz = header_size v in
           if length data < hdr_sz then Err (BootBufferTooShort hdr_sz (length data))
           else
             and_then (get_u32 bo data 8) (\<lambda>ksz. and_then (get_u32 bo data 12) (\<lambda>kad.
             and_then (get_u32 bo data 16) (\<lambda>rsz. and_then (get_u32 bo data 20) (\<lambda>rad.
             and_then (get_u32 bo data 24) (\<lambda>ssz. and_then (get_u32 bo data 28) (\<lambda>sad.
             and_then (get_u32 bo data 32) (\<lambda>tad. and_then (get_u32 bo data 36) (\<lambda>psz.
             and_then (get_u32 bo data 40) (\<lambda>hver. and_then (get_u32 bo data 44) (\<lambda>osv.
             and_then (read_fixed_string data 48 BOOT_NAME_SIZE) (\<lambda>nm.
             and_then (read_fixed_string data 64 BOOT_ARGS_SIZE) (\<lambda>cl.
             and_then (slice data 576 (576 + BOOT_ID_SIZE)) (\<lambda>idb.
             and_then (read_fixed_string data 608 BOOT_EXTRA_ARGS_SIZE) (\<lambda>ecl.
             and_then (if version \<ge> 1 then
                 and_then (get_u32 bo data BOOT_IMAGE_HEADER_V0_SIZE) (\<lambda>a.
                 and_then (get_u64 bo data (BOOT_IMAGE_HEADER_V0_SIZE + 4)) (\<lambda>b.
                 and_then (get_u32 bo data (BOOT_IMAGE_HEADER_V0_SIZE + 12)) (\<lambda>c. Ok (a, b, c))))
               else Ok (0, 0, 0)) (\<lambda>(rdsz, rdoff, bhsz).
             and_then (if version \<ge> 2 then
                 and_then (get_u32 bo data BOOT_IMAGE_HEADER_V1_SIZE) (\<lambda>a.
                 and_then (get_u64 bo data (BOOT_IMAGE_HEADER_V1_SIZE + 4)) (\<lambda>b. Ok (a, b)))
               else Ok (0, 0)) (\<lambda>(dsz, dad).
               Ok \<lparr>header_version = hver, kernel_size = ksz, kernel_addr = kad, ramdisk_size = rsz,
                   ramdisk_addr = rad, os_version = osv, second_size = ssz, second_addr = sad,
                   tags_addr = tad, page_size = psz, bh_name = nm, cmdline = cl, bh_id = idb,
                   extra_cmdline = ecl, recovery_dtbo_size = rdsz, recovery_dtbo_offset = rdoff,
                   boot_header_size = bhsz, dtb_size = dsz, dtb_addr = dad\<rparr>))))))))))))))))))"

definition decode_v3_v4 :: "byteorder \<Rightarrow> bytes \<Rightarrow> u32 \<Rightarrow> (BootImageHeader, BootImageError) outcome" where
  "decode_v3_v4 bo data version =
     (if length data < BOOT_IMAGE_HEADER_V3_SIZE then
        Err (BootBufferTooShort BOOT_IMAGE_HEADER_V3_SIZE (length data))
      else
        and_then (get_u32 bo data 12) (\<lambda>ksz.
        and_then (get_u32 bo data 16) (\<lambda>rsz.
        and_then (get_u32 bo data 20) (\<lambda>osv.
          Ok \<lparr>header_version = version, kernel_size = ksz, kernel_addr = 0, ramdisk_size = rsz,
              ramdisk_addr = 0, os_version = osv, second_size = 0, second_addr = 0,
              tags_addr = 0, page_size = 4096, bh_name = [], cmdline = [], bh_id = replicate BOOT_ID_SIZE 0,
              extra_cmdline = [], recovery_dtbo_size = 0, recovery_dtbo_offset = 0,
              boot_header_size = of_nat BOOT_IMAGE_HEADER_V3_SIZE, dtb_size = 0, dtb_addr = 0\<rparr>))))"

definition BootImageHeader_decode :: "byteorder \<Rightarrow> bytes \<Rightarrow> (BootImageHeader, BootImageError) outcome" where
  "BootImageHeader_decode bo data =
     (if length data < length BOOT_MAGIC then Err (BootBufferTooShort (length BOOT_MAGIC) (length data))
      else and_then (slice data 0 8) (\<lambda>head.
        if head \<noteq> BOOT_MAGIC then Err (BootInvalidMagic (latin1_string head))
        else if length data < 12 then Err (BootBufferTooShort 12 (length data))
        else and_then (get_u32 bo data 8) (\<lambda>ver_at_8.
          and_then (if ver_at_8 = 3 \<or> ver_at_8 = 4 then Ok ver_at_8
              else and_then (get_u32 bo data 40) (\<lambda>ver_at_40.
                if ver_at_40 \<le> 2 then Ok ver_at_40 else Err (BootUnsupportedVersion ver_at_40))) (\<lambda>version.
            if version = 0 \<or> version = 1 \<or> version = 2 then decode_v0_v1_v2 bo data version
            else if version = 3 \<or> version = 4 then decode_v3_v4 bo data version
            else Err (BootUnsupportedVersion version)))))"

section \<open>Whole images\<close>

record BootImage =
  bi_header :: BootImageHeader
  bi_kernel :: bytes
  bi_ramdisk :: bytes
  bi_second :: bytes
  bi_recovery_dtbo :: bytes
  bi_dtb :: bytes

definition BootImage_new :: "BootImageHeader \<Rightarrow> BootImage" where
  "BootImage_new h = \<lparr>bi_header = h, bi_kernel = [], bi_ramdisk = [], bi_second = [],
     bi_recovery_dtbo = [], bi_dtb = []\<rparr>"

text \<open>A non-empty section, padded to the page size.\<close>

definition push_section :: "nat \<Rightarrow> bytes \<Rightarrow> bytes \<Rightarrow> bytes" where
  "push_section ps sect img = img @ resize (align_up (length sect) ps) 0 sect"

definition build_page_size :: "u32 \<Rightarrow> u32 \<Rightarrow> nat" where
  "build_page_size psz version =
     unat (if version = 0 \<or> version = 1 \<or> version = 2 then
             (if \<not> is_power_of_two (unat psz) \<or> psz = 0 then DEFAULT_PAGE_SIZE else psz)
           else (4096 :: u32))"

definition build_header :: "bytes \<Rightarrow> bytes \<Rightarrow> bytes \<Rightarrow> bytes \<Rightarrow> nat \<Rightarrow> u32 \<Rightarrow> BootImageHeader" where
  "build_header kern ramdisk second dtb ps version =
     (let hdr = (if version = 0 \<or> version = 1 \<or> version = 2 then new_v0 else new_v3);
          hdr = hdr\<lparr>header_version := version, kernel_size := as_u32 (length kern),
            ramdisk_size := as_u32 (length ramdisk), second_size := as_u32 (length second),
            page_size := as_u32 ps\<rparr>;
          hdr = (if version \<ge> 1 then hdr\<lparr>boot_header_size :=
                (case BootImageVersion_from_u32 version of Ok v \<Rightarrow> as_u32 (header_size v) | _ \<Rightarrow> 0),
                recovery_dtbo_size := 0, recovery_dtbo_offset := 0\<rparr> else hdr)
      in if version \<ge> 2 then hdr\<lparr>dtb_size := as_u32 (length dtb), dtb_addr := 0\<rparr> else hdr)"

definition build_boot_image ::
  "byteorder \<Rightarrow> bytes \<Rightarrow> bytes \<Rightarrow> bytes \<Rightarrow> bytes \<Rightarrow> u32 \<Rightarrow> u32 \<Rightarrow> bytes" where
  "build_boot_image bo kern ramdisk second dtb psz version =
     (let ps = build_page_size psz version;
          raw_hdr = BootImageHeader_encode bo (build_header kern ramdisk second dtb ps version);
          hdr_page = align_up (length raw_hdr) ps;
          img = resize hdr_page 0 raw_hdr;
          img = (if kern \<noteq> [] then push_section ps kern img else img);
          img = (if ramdisk \<noteq> [] then push_section ps ramdisk img else img);
          img = (if second \<noteq> [] \<and> version \<le> 2 then push_section ps second img else img);
          img = (if dtb \<noteq> [] \<and> version \<ge> 2 then push_section ps dtb img else img)
      in img)"

text \<open>
  The parsing of one section: its bytes and the offset of the next one. In
  \<open>read_recovery_dtbo\<close>, \<open>usize::try_from\<close> of the 64-bit offset always succeeds on a 64-bit target.
\<close>

definition read_section ::
  "rstr \<Rightarrow> bytes \<Rightarrow> nat \<Rightarrow> nat \<Rightarrow> nat \<Rightarrow> (bytes \<times> nat, BootImageError) outcome" where
  "read_section nm data ps sz offset =
     (if sz > 0 then
        (let padded = align_up sz ps in
         if offset + padded > length data then Err (SectionBounds nm offset padded (length data))
         else and_then (slice data offset (offset + sz)) (\<lambda>s. Ok (s, offset + padded)))
      else Ok ([], offset))"

definition read_recovery_dtbo ::
  "bytes \<Rightarrow> nat \<Rightarrow> BootImageHeader \<Rightarrow> nat \<Rightarrow> (bytes, BootImageError) outcome" where
  "read_recovery_dtbo data ps h offset =
     (if header_version h = 1 \<and> recovery_dtbo_size h > 0 then
        (let sz = unat (recovery_dtbo_size h);
             padded = align_up sz ps;
             recovery_offset = unat (recovery_dtbo_offset h)
         in if recovery_offset < offset then
              Err (InvalidSectionOffset (str ''recovery_dtbo'') recovery_offset offset)
            else if checked_add_usize recovery_offset padded = None \<or> recovery_offset + padded > length data then
              Err (SectionBounds (str ''recovery_dtbo'') recovery_offset padded (length data))
            else slice data recovery_offset (recovery_offset + sz))
      else Ok [])"

text \<open>\<open>parse_sections\<close> is the part of \<open>parse_boot_image\<close> after the header and the page size.\<close>

definition parse_sections :: "bytes \<Rightarrow> nat \<Rightarrow> BootImageHeader \<Rightarrow> nat \<Rightarrow> (BootImage, BootImageError) outcome" where
  "parse_sections data ps h hdr_bytes =
     (let version = header_version h in
      and_then (read_section (str ''kernel'') data ps (unat (kernel_size h)) hdr_bytes) (\<lambda>(kern, offset).
      and_then (read_section (str ''ramdisk'') data ps (unat (ramdisk_size h)) offset) (\<lambda>(ramdisk, offset).
      and_then (read_section (str ''second'') data ps (if version \<le> 2 then unat (second_size h) else 0) offset)
        (\<lambda>(second, offset).
      and_then (read_recovery_dtbo data ps h offset) (\<lambda>rdtbo.
      and_then (read_section (str ''dtb'') data ps (if version \<ge> 2 then unat (dtb_size h) else 0) offset)
        (\<lambda>(dtb, _).
        Ok \<lparr>bi_header = h, bi_kernel = kern, bi_ramdisk = ramdisk, bi_second = second,
            bi_recovery_dtbo = rdtbo, bi_dtb = dtb\<rparr>))))))"

definition parse_boot_image :: "byteorder \<Rightarrow> bytes \<Rightarrow> (BootImage, BootImageError) outcome" where
  "parse_boot_image bo data =
     (if length data < length BOOT_MAGIC then Err (BootBufferTooShort (length BOOT_MAGIC) (length data))
      else and_then (BootImageHeader_decode bo data) (\<lambda>h.
        let version = header_version h;
            old = (version = 0 \<or> version = 1 \<or> version = 2);
            ps = (if old then unat (page_size h) else 4096)
        in
        if ps = 0 \<or> \<not> is_power_of_two ps then Err (InvalidPageSize (page_size h))
        else
          and_then (if old then
              (case BootImageVersion_from_u32 version of Ok v \<Rightarrow> Ok (align_up (header_size v) ps) | _ \<Rightarrow> Panic)
            else Ok BOOT_IMAGE_HEADER_V3_SIZE) (\<lambda>hdr_bytes.
          if length data < hdr_bytes then Err (BootBufferTooShort hdr_bytes (length data))
          else parse_sections data ps h hdr_bytes)))"

record BootImageBuilder =
  bb_kernel :: bytes
  bb_ramdisk :: bytes
  bb_second :: bytes
  bb_dtb :: bytes
  bb_page_size :: u32
  bb_header_version :: u32

definition BootImageBuilder_new :: BootImageBuilder where
  "BootImageBuilder_new = \<lparr>bb_kernel = [], bb_ramdisk = [], bb_second = [], bb_dtb = [],
     bb_page_size = DEFAULT_PAGE_SIZE, bb_header_version = 4\<rparr>"

definition BootImageBuilder_kernel :: "bytes \<Rightarrow> BootImageBuilder \<Rightarrow> BootImageBuilder" where
  "BootImageBuilder_kernel kern b = b\<lparr>bb_kernel := kern\<rparr>"

definition BootImageBuilder_ramdisk :: "bytes \<Rightarrow> BootImageBuilder \<Rightarrow> BootImageBuilder" where
  "BootImageBuilder_ramdisk ramdisk b = b\<lparr>bb_ramdisk := ramdisk\<rparr>"

definition BootImageBuilder_second :: "bytes \<Rightarrow> BootImageBuilder \<Rightarrow> BootImageBuilder" where
  "BootImageBuilder_second second b = b\<lparr>bb_second := second\<rparr>"

definition BootImageBuilder_dtb :: "bytes \<Rightarrow> BootImageBuilder \<Rightarrow> BootImageBuilder" where
  "BootImageBuilder_dtb dtb b = b\<lparr>bb_dtb := dtb\<rparr>"

definition BootImageBuilder_page_size :: "u32 \<Rightarrow> BootImageBuilder \<Rightarrow> BootImageBuilder" where
  "BootImageBuilder_page_size psz b = b\<lparr>bb_page_size := psz\<rparr>"

definition BootImageBuilder_header_version :: "u32 \<Rightarrow> BootImageBuilder \<Rightarrow> BootImageBuilder" where
  "BootImageBuilder_header_version version b = b\<lparr>bb_header_version := version\<rparr>"

definition BootImageBuilder_build :: "byteorder \<Rightarrow> BootImageBuilder \<Rightarrow> bytes" where
  "BootImageBuilder_build bo b =
     build_boot_image bo (bb_kernel b) (bb_ramdisk b) (bb_second b) (bb_dtb b) (bb_page_size b) (bb_header_version b)"


section \<open>Rounding up to a page\<close>

lemma is_power_of_two_iff: "is_power_of_two n \<longleftrightarrow> (\<exists>k<64. n = 2 ^ k)"
  by (auto simp: is_power_of_two_def list_ex_iff)

lemma unat_and_not_mask: "unat (w AND NOT (mask k) :: 'a::len word) = unat w div 2 ^ k * 2 ^ k"
proof -
  have "unat (w AND NOT (mask k)) = push_bit k (drop_bit k (unat w))"
    by (rule bit_eqI) (auto simp: bit_simps dest: bit_imp_le_length)
  then show ?thesis by (simp add: push_bit_eq_mult drop_bit_eq_div)
qed

lemma align_up_pow2:
  assumes "k < 64" and "n + 2 ^ k \<le> 2 ^ 64"
  shows "align_up n (2 ^ k) = (n + 2 ^ k - 1) div 2 ^ k * 2 ^ k"
proof -
  have "(of_nat n + of_nat (2 ^ k) - 1 :: u64) = of_nat (n + 2 ^ k - 1)"
    by (subst of_nat_diff) (simp_all add: Suc_le_eq)
  moreover have "unat (of_nat (n + 2 ^ k - 1) :: u64) = n + 2 ^ k - 1"
    using assms by (simp add: unat_of_nat)
  moreover have "(of_nat (2 ^ k) - 1 :: u64) = mask k"
    by (simp add: mask_eq_exp_minus_1)
  ultimately show ?thesis
    by (simp add: align_up_def unat_and_not_mask del: of_nat_add of_nat_power)
qed

lemma nibble_mask: "(0x0F :: u32) = mask 4" "(0xFF :: u32) = mask 8"
  by (simp_all add: mask_eq_exp_minus_1)

lemma bit_OsVersion_encode:
  "bit (OsVersion_encode v) n \<longleftrightarrow> n < 32 \<and> (bit (year_since_2000 v) n \<or>
     8 \<le> n \<and> bit (os_month v) (n - 8) \<or> 12 \<le> n \<and> bit (os_day v) (n - 12) \<or>
     16 \<le> n \<and> bit (os_major v) (n - 16) \<or> 24 \<le> n \<and> bit (os_minor v) (n - 24) \<or>
     28 \<le> n \<and> bit (os_patch v) (n - 28))"
proof (cases "n < 32")
  case True
  then have "n - k < 32" for k by simp
  with True show ?thesis
    unfolding OsVersion_encode_def by (simp add: bit_or_iff bit_push_bit_iff bit_unsigned_iff) blast
next
  case False
  then show ?thesis
    unfolding OsVersion_encode_def by (simp add: bit_or_iff bit_push_bit_iff bit_unsigned_iff)
qed

lemma bit_OsVersion_decode:
  "bit (year_since_2000 (OsVersion_decode raw)) n \<longleftrightarrow> n < 8 \<and> bit raw n"
  "bit (os_month (OsVersion_decode raw)) n \<longleftrightarrow> n < 4 \<and> bit raw (8 + n)"
  "bit (os_day (OsVersion_decode raw)) n \<longleftrightarrow> n < 4 \<and> bit raw (12 + n)"
  "bit (os_major (OsVersion_decode raw)) n \<longleftrightarrow> n < 8 \<and> bit raw (16 + n)"
  "bit (os_minor (OsVersion_decode raw)) n \<longleftrightarrow> n < 4 \<and> bit raw (24 + n)"
  "bit (os_patch (OsVersion_decode raw)) n \<longleftrightarrow> n < 4 \<and> bit raw (28 + n)"
  unfolding OsVersion_decode_def nibble_mask
  by (auto simp: bit_and_iff bit_mask_iff bit_drop_bit_eq bit_unsigned_iff)

lemma OsVersion_encode_decode: "OsVersion_encode (OsVersion_decode raw) = raw"
proof (rule bit_word_eqI)
  fix n
  assume "n < LENGTH(32)"
  then consider "n < 8" | "8 \<le> n" "n < 12" | "12 \<le> n" "n < 16" | "16 \<le> n" "n < 24" | "24 \<le> n" "n < 28"
    | "28 \<le> n" "n < 32" by fastforce
  then show "bit (OsVersion_encode (OsVersion_decode raw)) n = bit raw n"
    by cases (auto simp: bit_OsVersion_encode bit_OsVersion_decode less_diff_conv2)
qed

lemma nibble_iff: "(x :: u8) < 16 \<longleftrightarrow> (\<forall>n. bit x n \<longrightarrow> n < 4)"
proof -
  have "x < 16 \<longleftrightarrow> take_bit 4 x = x" 
    by (simp add: word_unat_eq_iff word_less_nat_alt unsigned_take_bit_eq take_bit_nat_eq_self_iff)
  also have "\<dots> \<longleftrightarrow> (\<forall>n. bit x n \<longrightarrow> n < 4)"
    unfolding bit_eq_iff bit_take_bit_iff using bit_imp_possible_bit [of x] by blast
  finally show ?thesis .
qed

lemma OsVersion_decode_encode:
  assumes "os_minor v < 16" and "os_patch v < 16" and "os_month v < 16" and "os_day v < 16"
  shows "OsVersion_decode (OsVersion_encode v) = v"
proof -
  have u8: "n < 8" if "bit x n" for x :: u8 and n
    using bit_imp_le_length [OF that] by simp
  note no = assms [unfolded nibble_iff, rule_format]
  let ?v = "OsVersion_decode (OsVersion_encode v)"
  have "bit (year_since_2000 ?v) n = bit (year_since_2000 v) n" for n
    using u8 [of "year_since_2000 v" n] by (auto simp: bit_OsVersion_decode bit_OsVersion_encode)
  moreover have "bit (os_month ?v) n = bit (os_month v) n" for n
    using u8 [of "year_since_2000 v" "8 + n"] no(3) [of n] by (auto simp: bit_OsVersion_decode bit_OsVersion_encode)
  moreover have "bit (os_day ?v) n = bit (os_day v) n" for n
    using u8 [of "year_since_2000 v" "12 + n"] no(3) [of "4 + n"] no(4) [of n]
    by (auto simp: bit_OsVersion_decode bit_OsVersion_encode)
  moreover have "bit (os_major ?v) n = bit (os_major v) n" for n
    using u8 [of "year_since_2000 v" "16 + n"] no(3) [of "8 + n"] no(4) [of "4 + n"] u8 [of "os_major v" n]
    by (auto simp: bit_OsVersion_decode bit_OsVersion_encode)
  moreover have "bit (os_minor ?v) n = bit (os_minor v) n" for n
    using u8 [of "year_since_2000 v" "24 + n"] no(3) [of "16 + n"] no(4) [of "12 + n"] u8 [of "os_major v" "8 + n"]
      no(1) [of n] by (auto simp: bit_OsVersion_decode bit_OsVersion_encode)
  moreover have "bit (os_patch ?v) n = bit (os_patch v) n" for n
    using u8 [of "year_since_2000 v" "28 + n"] no(3) [of "20 + n"] no(4) [of "16 + n"] u8 [of "os_major v" "12 + n"]
      no(1) [of "4 + n"] no(2) [of n] by (auto simp: bit_OsVersion_decode bit_OsVersion_encode)
  ultimately show ?thesis
    by (intro OsVersion.equality bit_eqI) simp_all
qed

lemma OsVersion_decode_less:
  "os_minor (OsVersion_decode raw) < 16" "os_patch (OsVersion_decode raw) < 16"
  "os_month (OsVersion_decode raw) < 16" "os_day (OsVersion_decode raw) < 16"
  by (simp_all add: nibble_iff bit_OsVersion_decode)

text \<open>
  Packed version numbers survive decoding and encoding, and a version survives encoding and
  decoding exactly when the four fields that have four bits in the packed format fit in them.\<close>

theorem os_version_roundtrip:
  "OsVersion_encode (OsVersion_decode raw) = raw \<and>
   (OsVersion_decode (OsVersion_encode v) = v \<longleftrightarrow>
      os_minor v < 16 \<and> os_patch v < 16 \<and> os_month v < 16 \<and> os_day v < 16)"
  using OsVersion_encode_decode OsVersion_decode_encode OsVersion_decode_less [of "OsVersion_encode v"] by metis

text \<open>Day 31 of the first month of version 0: the day's fifth bit lands in the major version.\<close>

lemma os_version_day_overlap:
  "OsVersion_decode (OsVersion_encode \<lparr>os_major = 0, os_minor = 0, os_patch = 0, year_since_2000 = 25,
     os_month = 1, os_day = 31\<rparr>) =
   \<lparr>os_major = 1, os_minor = 0, os_patch = 0, year_since_2000 = 25, os_month = 1, os_day = 15\<rparr>"
  by (simp add: OsVersion_encode_def OsVersion_decode_def)

section \<open>The header codec\<close>

lemma length_BOOT_MAGIC [simp]: "length BOOT_MAGIC = 8"
  by (simp add: BOOT_MAGIC_def)

lemma write_fixed_string_eq: "write_fixed_string s len = take len s @ replicate (len - length s) 0"
  by (auto simp: write_fixed_string_def Let_def min_def)

lemma length_write_fixed_string [simp]: "length (write_fixed_string s len) = len"
  by (simp add: write_fixed_string_eq)

text \<open>What a fixed-size field keeps of a string: its part before the first NUL, cut at the size.\<close>

definition stored_string :: "nat \<Rightarrow> rstr \<Rightarrow> rstr" where
  "stored_string n s = from_utf8_lossy (takeWhile (\<lambda>b. b \<noteq> 0) (take n s))"

lemma stored_string_fits:
  assumes "length s \<le> n" and "0 \<notin> set s" and "utf8_valid s"
  shows "stored_string n s = s"
proof -
  have eq: "takeWhile (\<lambda>b. b \<noteq> 0) s = s" using assms(2) by (auto simp: takeWhile_eq_all_conv)
  with assms show ?thesis by (simp only: stored_string_def take_all eq from_utf8_lossy_valid)
qed

lemma read_fixed_string_at:
  assumes "off + len \<le> length data"
  shows "read_fixed_string data off len = Ok (stored_string len (drop off data))"
proof -
  define w e where "w = take len (drop off data)" and "e = length (takeWhile (\<lambda>b. b \<noteq> 0) w)"
  have "e \<le> len" using length_takeWhile_le [of "\<lambda>b. b \<noteq> 0" w] assms by (simp add: w_def e_def)
  moreover have "takeWhile (\<lambda>b. b \<noteq> 0) w = take e w" unfolding e_def by (rule takeWhile_eq_take)
  ultimately show ?thesis using assms
    by (simp add: read_fixed_string_def slice_def stored_string_def Let_def min_def flip: w_def e_def)
      (simp add: w_def)
qed

lemma stored_write_fixed_string: "stored_string len (write_fixed_string s len @ rest) = stored_string len s"
proof -
  have "takeWhile (\<lambda>b. b \<noteq> 0) (s @ replicate n 0) = takeWhile (\<lambda>b. b \<noteq> (0 :: u8)) s" for n
    by (induction s) (auto simp: takeWhile_replicate)
  then show ?thesis
    by (cases "length s < len") (simp_all add: stored_string_def write_fixed_string_eq)
qed

text \<open>The part of a header that a header of its version has room for.\<close>

definition stored_header :: "BootImageHeader \<Rightarrow> BootImageHeader" where
  "stored_header h =
     (if header_version h \<le> 2 then
        h\<lparr>bh_name := stored_string 16 (bh_name h), cmdline := stored_string 512 (cmdline h),
          extra_cmdline := stored_string 1024 (extra_cmdline h),
          recovery_dtbo_size := (if header_version h \<ge> 1 then recovery_dtbo_size h else 0),
          recovery_dtbo_offset := (if header_version h \<ge> 1 then recovery_dtbo_offset h else 0),
          boot_header_size := (if header_version h \<ge> 1 then boot_header_size h else 0),
          dtb_size := (if header_version h \<ge> 2 then dtb_size h else 0),
          dtb_addr := (if header_version h \<ge> 2 then dtb_addr h else 0)\<rparr>
      else new_v3\<lparr>header_version := header_version h, kernel_size := kernel_size h,
          ramdisk_size := ramdisk_size h, os_version := os_version h\<rparr>)"

lemma u32_le_2: "(v :: u32) \<le> 2 \<longleftrightarrow> v = 0 \<or> v = 1 \<or> v = 2"
  by (auto simp: word_le_nat_alt word_unat_eq_iff)

lemma u32_not_2_le_1 [simp]: "\<not> (2 :: u32) \<le> 1"
  by (simp add: word_le_nat_alt)

lemma u32_le_4: "(v :: u32) \<le> 4 \<longleftrightarrow> v = 0 \<or> v = 1 \<or> v = 2 \<or> v = 3 \<or> v = 4"
  by (auto simp: word_le_nat_alt word_unat_eq_iff)

context little_endian
begin

lemma encode_v3_flat:
  assumes "header_version h = 3 \<or> header_version h = 4"
  shows "BootImageHeader_encode bo h = BOOT_MAGIC @ u32_to_le (header_version h) @ u32_to_le (kernel_size h) @
    u32_to_le (ramdisk_size h) @ u32_to_le (os_version h) @ u32_to_le 4096 @ concat (replicate 4 (u32_to_le 0)) @
    replicate 4052 0"
  using assms
  by (auto simp: BootImageHeader_encode_def encode_v3_v4_def pad_to_size_def boot_sizes length_concat
      map_replicate_const sum_list_replicate)

lemma decode_v3_flat:
  assumes "header_version h = 3 \<or> header_version h = 4"
  shows "BootImageHeader_decode bo (BootImageHeader_encode bo h @ rest) = Ok (stored_header h)"
  using assms
  by (auto simp: encode_v3_flat BootImageHeader_decode_def decode_v3_v4_def get_at slice_def boot_sizes length_concat
      map_replicate_const sum_list_replicate stored_header_def new_v3_def)


lemma encode_old_flat:
  assumes "header_version h \<le> 2" and "length (bh_id h) = 32"
  shows "BootImageHeader_encode bo h = BOOT_MAGIC @ u32_to_le (kernel_size h) @ u32_to_le (kernel_addr h) @
    u32_to_le (ramdisk_size h) @ u32_to_le (ramdisk_addr h) @ u32_to_le (second_size h) @
    u32_to_le (second_addr h) @ u32_to_le (tags_addr h) @ u32_to_le (page_size h) @ u32_to_le (header_version h) @
    u32_to_le (os_version h) @ write_fixed_string (bh_name h) 16 @ write_fixed_string (cmdline h) 512 @ bh_id h @
    write_fixed_string (extra_cmdline h) 1024 @
    (if header_version h \<ge> 1 then u32_to_le (recovery_dtbo_size h) @ u64_to_le (recovery_dtbo_offset h) @
       u32_to_le (boot_header_size h) else []) @
    (if header_version h \<ge> 2 then u32_to_le (dtb_size h) @ u64_to_le (dtb_addr h) @ replicate 4 0 else [])"
  using assms
  by (auto simp: u32_le_2 BootImageHeader_encode_def encode_v0_v1_v2_def pad_to_size_def boot_sizes
      BootImageVersion_from_u32_def)

lemma decode_old_flat:
  assumes "header_version h \<le> 2" and "length (bh_id h) = 32" and "kernel_size h \<noteq> 3" and "kernel_size h \<noteq> 4"
  shows "BootImageHeader_decode bo (BootImageHeader_encode bo h @ rest) = Ok (stored_header h)"
  using assms
  by (auto simp: u32_le_2 encode_old_flat BootImageHeader_decode_def decode_v0_v1_v2_def
      BootImageVersion_from_u32_def get_at read_fixed_string_at stored_write_fixed_string slice_def boot_sizes
      stored_header_def)


lemma decode_encode_header:
  assumes "header_version h \<le> 4" and "length (bh_id h) = 32"
    and "header_version h \<le> 2 \<longrightarrow> kernel_size h \<noteq> 3 \<and> kernel_size h \<noteq> 4"
  shows "BootImageHeader_decode bo (BootImageHeader_encode bo h @ rest) = Ok (stored_header h)"
proof (cases "header_version h \<le> 2")
  case True
  with assms show ?thesis by (simp add: decode_old_flat)
next
  case False
  with assms(1) have "header_version h = 3 \<or> header_version h = 4" by (auto simp: u32_le_2 u32_le_4)
  then show ?thesis by (rule decode_v3_flat)
qed

lemma length_encode_header:
  assumes "BootImageVersion_from_u32 (header_version h) = Ok v" and "length (bh_id h) = 32"
  shows "length (BootImageHeader_encode bo h) = header_size v"
proof (cases "header_version h \<le> 2")
  case True
  then show ?thesis using assms
    by (auto simp: encode_old_flat u32_le_2 BootImageVersion_from_u32_def boot_sizes)
next
  case False
  then have "header_version h = 3 \<or> header_version h = 4"
    using assms(1) by (auto simp: BootImageVersion_from_u32_def u32_le_2 split: if_splits)
  then show ?thesis using assms
    by (auto simp: encode_v3_flat BootImageVersion_from_u32_def boot_sizes length_concat
        map_replicate_const sum_list_replicate)
qed

end

section \<open>Sections\<close>

definition page_pad :: "nat \<Rightarrow> bytes \<Rightarrow> bytes" where
  "page_pad ps s = resize (align_up (length s) ps) 0 s"

lemma align_up_page:
  assumes "is_power_of_two ps" and "ps < 2 ^ 32" and "n < 2 ^ 32"
  shows "align_up n ps = (n + ps - 1) div ps * ps"
proof -
  obtain k where k: "k < 64" "ps = 2 ^ k" using assms(1) by (auto simp: is_power_of_two_iff)
  have "n + 2 ^ k \<le> 2 ^ 64" using assms k by simp
  from align_up_pow2 [OF k(1) this] show ?thesis unfolding k(2) .
qed

lemma is_power_of_two_pos: "is_power_of_two n \<Longrightarrow> 0 < n"
  by (auto simp: is_power_of_two_iff)

text \<open>\<open>align_up\<close> gives the least multiple of the page size that is not below the size.\<close>

lemma align_up_least:
  assumes "is_power_of_two ps" and "ps < 2 ^ 32" and "n < 2 ^ 32"
  shows "ps dvd align_up n ps \<and> n \<le> align_up n ps \<and> align_up n ps < n + ps"
proof -
  let ?q = "(n + ps - 1) div ps"
  have "?q * ps + (n + ps - 1) mod ps = n + ps - 1" by simp
  moreover have "(n + ps - 1) mod ps < ps" using is_power_of_two_pos [OF assms(1)] by simp
  ultimately have "n \<le> ?q * ps" "?q * ps < n + ps" by linarith+
  then show ?thesis by (simp add: align_up_page [OF assms])
qed

lemma page_pad_eq:
  assumes "is_power_of_two ps" and "ps < 2 ^ 32" and "length s < 2 ^ 32"
  shows "page_pad ps s = s @ replicate (align_up (length s) ps - length s) 0"
  using align_up_least [OF assms] by (simp add: page_pad_def resize_extend)

lemma push_section_eq:
  assumes "is_power_of_two ps" and "ps < 2 ^ 32"
  shows "(if s \<noteq> [] \<and> b then push_section ps s img else img) = img @ (if b then page_pad ps s else [])"
proof -
  have "align_up 0 ps = 0"
    using align_up_page [OF assms, of 0] is_power_of_two_pos [OF assms(1)] by simp
  then show ?thesis by (simp add: push_section_def page_pad_def resize_def)
qed

lemma read_section_pad:
  assumes "is_power_of_two ps" and "ps < 2 ^ 32" and "length s < 2 ^ 32"
  shows "read_section nm (pre @ page_pad ps s @ post) ps (length s) (length pre) =
    Ok (s, length (pre @ page_pad ps s))"
proof (cases "s = []")
  case True
  moreover have "align_up 0 ps = 0"
    using align_up_page [OF assms(1,2), of 0] is_power_of_two_pos [OF assms(1)] by simp
  ultimately show ?thesis by (simp add: read_section_def page_pad_def resize_def)
next
  case False
  have "length (page_pad ps s) = align_up (length s) ps" by (simp add: page_pad_def)
  with False show ?thesis using align_up_least [OF assms]
    by (simp add: read_section_def slice_def Let_def) (simp add: page_pad_eq [OF assms])
qed

lemma build_page_size_ok: "is_power_of_two (build_page_size psz v) \<and> build_page_size psz v < 2 ^ 32"
  using u32_less [of psz]
  by (auto simp: build_page_size_def DEFAULT_PAGE_SIZE_def is_power_of_two_iff intro: exI [of _ 11] exI [of _ 12])

section \<open>Images\<close>

lemma stored_build_header:
  assumes "version \<le> 4" and "length kern < 2 ^ 32" and "length ramdisk < 2 ^ 32" and "length second < 2 ^ 32"
    and "length dtb < 2 ^ 32" and "ps < 2 ^ 32"
  defines "h \<equiv> stored_header (build_header kern ramdisk second dtb ps version)"
  shows "header_version h = version" and "unat (kernel_size h) = length kern"
    and "unat (ramdisk_size h) = length ramdisk"
    and "version \<le> 2 \<Longrightarrow> unat (second_size h) = length second"
    and "version \<le> 2 \<Longrightarrow> unat (page_size h) = ps"
    and "recovery_dtbo_size h = 0"
    and "version \<ge> 2 \<Longrightarrow> unat (dtb_size h) = (if version = 2 then length dtb else 0)"
proof -
  have "version = 0 \<or> version = 1 \<or> version = 2 \<or> version = 3 \<or> version = 4"
    using assms(1) by (simp add: u32_le_4)
  then show "header_version h = version" "unat (kernel_size h) = length kern"
    "unat (ramdisk_size h) = length ramdisk"
    "version \<le> 2 \<Longrightarrow> unat (second_size h) = length second"
    "version \<le> 2 \<Longrightarrow> unat (page_size h) = ps"
    "recovery_dtbo_size h = 0"
    "version \<ge> 2 \<Longrightarrow> unat (dtb_size h) = (if version = 2 then length dtb else 0)"
    using assms(2-6)
    by (elim disjE; simp add: h_def stored_header_def build_header_def new_v0_def new_v3_def Let_def)+
qed

lemma build_header_wf:
  "header_version (build_header kern ramdisk second dtb ps version) = version"
  "length (bh_id (build_header kern ramdisk second dtb ps version)) = 32"
  "kernel_size (build_header kern ramdisk second dtb ps version) = as_u32 (length kern)"
  by (simp_all add: build_header_def new_v0_def new_v3_def boot_sizes Let_def)

lemma build_boot_image_eq:
  "build_boot_image bo kern ramdisk second dtb psz version =
     (let ps = build_page_size psz version in
      page_pad ps (BootImageHeader_encode bo (build_header kern ramdisk second dtb ps version)) @
      page_pad ps kern @ page_pad ps ramdisk @ (if version \<le> 2 then page_pad ps second else []) @
      (if version \<ge> 2 then page_pad ps dtb else []))"
  using push_section_eq [OF build_page_size_ok [THEN conjunct1] build_page_size_ok [THEN conjunct2], of _ True]
    push_section_eq [OF build_page_size_ok [THEN conjunct1] build_page_size_ok [THEN conjunct2]]
  by (simp add: build_boot_image_def Let_def flip: page_pad_def)

lemma read_section_noPanic:
  assumes "is_power_of_two ps" and "ps < 2 ^ 32" and "sz < 2 ^ 32"
  shows "read_section nm data ps sz offset \<noteq> Panic"
  using align_up_least [OF assms] by (auto simp: read_section_def and_then_eq_Panic slice_eq_Panic Let_def)

lemma read_recovery_dtbo_noPanic:
  assumes "is_power_of_two ps" and "ps < 2 ^ 32"
  shows "read_recovery_dtbo data ps h offset \<noteq> Panic"
  using align_up_least [OF assms, of "unat (recovery_dtbo_size h)"] u32_less [of "recovery_dtbo_size h"]
  by (auto simp: read_recovery_dtbo_def and_then_eq_Panic slice_eq_Panic Let_def)

lemma decode_old_Panic: "version \<le> 2 \<Longrightarrow> decode_v0_v1_v2 bo data version \<noteq> Panic"
  by (auto simp: u32_le_2 decode_v0_v1_v2_def BootImageVersion_from_u32_def Let_def boot_sizes and_then_eq_Panic
      get_u32_def get_u64_def slice_def read_fixed_string_at)

lemma decode_v3_Panic: "decode_v3_v4 bo data version \<noteq> Panic"
  by (auto simp: decode_v3_v4_def boot_sizes and_then_eq_Panic get_u32_eq_Panic)

lemma decode_Panic_iff:
  "BootImageHeader_decode bo data = Panic \<longleftrightarrow>
     take 8 data = BOOT_MAGIC \<and> 12 \<le> length data \<and> length data < 44 \<and>
     read_u32 bo (take 4 (drop 8 data)) \<notin> {3, 4}"
proof (cases "take 8 data = BOOT_MAGIC \<and> 12 \<le> length data")
  case True
  then have "BootImageHeader_decode bo data =
    (let w = read_u32 bo (take 4 (drop 8 data)) in
     if w = 3 \<or> w = 4 then decode_v3_v4 bo data w
     else and_then (get_u32 bo data 40) (\<lambda>v.
       if v \<le> 2 then decode_v0_v1_v2 bo data v else Err (BootUnsupportedVersion v)))"
    by (auto simp: BootImageHeader_decode_def slice_def get_u32_def u32_le_2 Let_def)
  with True show ?thesis
    by (auto simp: Let_def decode_v3_Panic and_then_eq_Panic get_u32_eq_Panic decode_old_Panic)
next
  case False
  then show ?thesis by (auto simp: BootImageHeader_decode_def slice_def)
qed

text \<open>The part of \<open>parse_boot_image\<close> after the header has been read never panics.\<close>

lemma parse_sections_noPanic:
  assumes "is_power_of_two ps" and "ps < 2 ^ 32"
  shows "parse_sections data ps h hdr_bytes \<noteq> Panic"
proof -
  have sz: "unat (w :: u32) < 2 ^ 32" for w using u32_less [of w] by simp
  then have cond: "(if b then unat (w :: u32) else 0) < 2 ^ 32" for b w by simp
  note np = read_section_noPanic [OF assms sz] read_section_noPanic [OF assms cond]
    read_recovery_dtbo_noPanic [OF assms]
  show ?thesis unfolding parse_sections_def Let_def
    by (simp add: case_prod_beta and_then_eq_Panic np)
qed

lemma parse_Panic_iff: "parse_boot_image bo data = Panic \<longleftrightarrow> BootImageHeader_decode bo data = Panic"
proof (cases "BootImageHeader_decode bo data")
  case (Ok h)
  have "parse_sections data (unat (page_size h)) h n \<noteq> Panic" if "is_power_of_two (unat (page_size h))" for n
    using parse_sections_noPanic [OF that] u32_less [of "page_size h"] by simp
  moreover have "parse_sections data 4096 h n \<noteq> Panic" if "is_power_of_two 4096" for n
    using parse_sections_noPanic [OF that] by simp
  ultimately show ?thesis using Ok
    by (auto simp: parse_boot_image_def Let_def and_then_eq_Panic BootImageVersion_from_u32_def)
next
  case (Err e)
  then show ?thesis by (simp add: parse_boot_image_def)
next
  case Panic
  then have "8 \<le> length data" by (simp add: decode_Panic_iff)
  with Panic show ?thesis by (simp add: parse_boot_image_def)
qed

text \<open>
  C26: parsing an image panics exactly on the inputs of 12 to 43 bytes that start with the boot magic
  and whose next word is neither 3 nor 4; on every other input it returns an image or an error.\<close>

theorem parse_boot_image_panics_iff:
  "parse_boot_image bo data = Panic \<longleftrightarrow>
     take 8 data = BOOT_MAGIC \<and> 12 \<le> length data \<and> length data < 44 \<and>
     read_u32 bo (take 4 (drop 8 data)) \<notin> {3, 4}"
  by (simp only: parse_Panic_iff decode_Panic_iff)

text \<open>
  A header written in any of the versions 0 to 4 and followed by anything is read back with
  every field its version stores. A header of the old versions must not have a kernel of 3 or 4 bytes.\<close>

theorem boot_header_roundtrip:
  assumes "little_endian bo" and "header_version h \<le> 4" and "length (bh_id h) = BOOT_ID_SIZE"
    and "header_version h \<le> 2 \<longrightarrow> kernel_size h \<noteq> 3 \<and> kernel_size h \<noteq> 4"
  shows "BootImageHeader_decode bo (BootImageHeader_encode bo h @ rest) = Ok (stored_header h)"
  using assms little_endian.decode_encode_header by (simp add: boot_sizes)

theorem boot_header_roundtrip_witness:
  "BootImageHeader_decode std_byteorder (BootImageHeader_encode std_byteorder new_v0 @ [1]) = Ok new_v0"
proof -
  have "stored_header new_v0 = new_v0"
    by (simp add: stored_header_def new_v0_def stored_string_def)
  then show ?thesis
    using boot_header_roundtrip [OF std_byteorder_little_endian, of new_v0 "[1]"]
    by (simp add: new_v0_def boot_sizes)
qed

lemma parse_sections_layout:
  assumes ps: "is_power_of_two ps" "ps < 2 ^ 32" and "length kern < 2 ^ 32" and "length ramdisk < 2 ^ 32"
    and "length second < 2 ^ 32" and "length dtb < 2 ^ 32"
    and "unat (kernel_size h) = length kern" and "unat (ramdisk_size h) = length ramdisk"
    and "(if header_version h \<le> 2 then unat (second_size h) else 0) = length second"
    and "(if header_version h \<ge> 2 then unat (dtb_size h) else 0) = length dtb"
    and "recovery_dtbo_size h = 0"
    and data: "data = front @ page_pad ps kern @ page_pad ps ramdisk @ page_pad ps second @ page_pad ps dtb @ rest"
  shows "parse_sections data ps h (length front) =
    Ok \<lparr>bi_header = h, bi_kernel = kern, bi_ramdisk = ramdisk, bi_second = second, bi_recovery_dtbo = [], bi_dtb = dtb\<rparr>"
proof -
  let ?k = "front @ page_pad ps kern" let ?r = "?k @ page_pad ps ramdisk" let ?s = "?r @ page_pad ps second"
  have "read_section nm data ps (length kern) (length front) = Ok (kern, length ?k)" for nm
    unfolding data by (rule read_section_pad [OF ps assms(3)])
  moreover have "read_section nm data ps (length ramdisk) (length ?k) = Ok (ramdisk, length ?r)" for nm
    using read_section_pad [OF ps assms(4), of nm ?k] by (simp add: data)
  moreover have "read_section nm data ps (length second) (length ?r) = Ok (second, length ?s)" for nm
    using read_section_pad [OF ps assms(5), of nm ?r] by (simp add: data)
  moreover have "read_section nm data ps (length dtb) (length ?s) = Ok (dtb, length (?s @ page_pad ps dtb))" for nm
    using read_section_pad [OF ps assms(6), of nm ?s] by (simp add: data)
  ultimately show ?thesis
    unfolding parse_sections_def Let_def assms(7-10)
    by (simp add: read_recovery_dtbo_def assms(11) del: length_append)
qed

lemma decode_Ok_length: "BootImageHeader_decode bo data = Ok h \<Longrightarrow> 8 \<le> length data"
  by (auto simp: BootImageHeader_decode_def split: if_splits)

lemma parse_boot_image_header:
  assumes "BootImageHeader_decode bo data = Ok h" and "ps = (if header_version h \<le> 2 then unat (page_size h) else 4096)"
    and "is_power_of_two ps" and "BootImageVersion_from_u32 (header_version h) = Ok bv"
    and "n = (if header_version h \<le> 2 then align_up (header_size bv) ps else BOOT_IMAGE_HEADER_V3_SIZE)"
    and "n \<le> length data"
  shows "parse_boot_image bo data = parse_sections data ps h n"
  using assms is_power_of_two_pos [OF assms(3)] decode_Ok_length [OF assms(1)]
  by (cases "header_version h \<le> 2") (simp_all add: parse_boot_image_def Let_def u32_le_2 [symmetric])

context little_endian
begin

lemma parse_build:
  assumes v: "version \<le> 4" and len: "length kern < 2 ^ 32" "length ramdisk < 2 ^ 32" "length second < 2 ^ 32"
      "length dtb < 2 ^ 32"
    and k34: "version \<le> 2 \<longrightarrow> length kern \<noteq> 3 \<and> length kern \<noteq> 4"
  shows "parse_boot_image bo (build_boot_image bo kern ramdisk second dtb psz version) =
    Ok \<lparr>bi_header = stored_header (build_header kern ramdisk second dtb (build_page_size psz version) version),
        bi_kernel = kern, bi_ramdisk = ramdisk, bi_second = (if version \<le> 2 then second else []),
        bi_recovery_dtbo = [], bi_dtb = (if version = 2 then dtb else [])\<rparr>"
proof -
  define ps where "ps = build_page_size psz version"
  define hdr where "hdr = build_header kern ramdisk second dtb ps version"
  define h where "h = stored_header hdr"
  define raw where "raw = BootImageHeader_encode bo hdr"
  define sec where "sec = (if version \<le> 2 then second else [])"
  define db where "db = (if version = 2 then dtb else [])"
  have ps: "is_power_of_two ps" "ps < 2 ^ 32" using build_page_size_ok by (auto simp: ps_def)
  obtain bv where bv: "BootImageVersion_from_u32 version = Ok bv"
    using v by (auto simp: u32_le_4 BootImageVersion_from_u32_def)
  have raw: "length raw = header_size bv" "length raw < 2 ^ 32"
    using length_encode_header [of hdr bv] bv by (cases bv; simp add: raw_def hdr_def build_header_wf boot_sizes)+
  have pad0: "page_pad ps [] = []" using push_section_eq [OF ps, of "[]" True "[]"] by simp
  obtain rest where data: "build_boot_image bo kern ramdisk second dtb psz version =
      page_pad ps raw @ page_pad ps kern @ page_pad ps ramdisk @ page_pad ps sec @ page_pad ps db @ rest"
    using v by (auto simp: build_boot_image_eq Let_def ps_def [symmetric] hdr_def [symmetric] raw_def [symmetric]
        sec_def db_def u32_le_4 pad0)
  have sh: "header_version h = version" "unat (kernel_size h) = length kern" "unat (ramdisk_size h) = length ramdisk"
    "recovery_dtbo_size h = 0"
    using stored_build_header [OF v len ps(2)] by (simp_all add: h_def hdr_def)
  have sizes: "(if header_version h \<le> 2 then unat (second_size h) else 0) = length sec"
    "(if header_version h \<ge> 2 then unat (dtb_size h) else 0) = length db"
    using stored_build_header(4,7) [OF v len ps(2)] v
    by (auto simp: h_def hdr_def sec_def db_def sh(1) [unfolded h_def hdr_def] u32_le_4)
  have lens: "length sec < 2 ^ 32" "length db < 2 ^ 32" using len by (auto simp: sec_def db_def)
  have body: "parse_sections (build_boot_image bo kern ramdisk second dtb psz version) ps h (length (page_pad ps raw)) =
      Ok \<lparr>bi_header = h, bi_kernel = kern, bi_ramdisk = ramdisk, bi_second = sec, bi_recovery_dtbo = [], bi_dtb = db\<rparr>"
    by (rule parse_sections_layout [OF ps len(1,2) lens sh(2,3) sizes sh(4) data])
  have dec: "BootImageHeader_decode bo (raw @ tl) = Ok h" for tl
    using decode_encode_header [of hdr] v len(1) k34 by (simp add: raw_def h_def hdr_def build_header_wf word_unat_eq_iff)
  have "BootImageHeader_decode bo (build_boot_image bo kern ramdisk second dtb psz version) = Ok h"
    by (simp add: data page_pad_eq [OF ps raw(2)] dec)
  moreover have pse: "ps = (if version \<le> 2 then unat (page_size h) else 4096)"
    using stored_build_header(5) [OF v len ps(2)] by (simp add: h_def hdr_def ps_def build_page_size_def u32_le_2)
  moreover have "length (page_pad ps raw) = (if version \<le> 2 then align_up (header_size bv) ps else BOOT_IMAGE_HEADER_V3_SIZE)"
  proof (cases "version \<le> 2")
    case False
    then have "ps = 4096" "header_size bv = 4096"
      using pse bv v by (auto simp: u32_le_4 BootImageVersion_from_u32_def boot_sizes)
    then show ?thesis using False align_up_page [OF ps, of 4096] raw(1) by (simp add: page_pad_def boot_sizes)
  qed (simp add: page_pad_def raw(1))
  ultimately have "parse_boot_image bo (build_boot_image bo kern ramdisk second dtb psz version) =
      parse_sections (build_boot_image bo kern ramdisk second dtb psz version) ps h (length (page_pad ps raw))"
    using ps(1) bv sh(1) by (intro parse_boot_image_header) (simp_all add: data)
  with body show ?thesis by (simp add: h_def hdr_def ps_def sec_def db_def)
qed

end



end
