(* ===== verification/Rust_Collections.thy ===== *)
theory Rust_Collections
  imports Rust_Prelude "HOL-Library.AList"
begin

text \<open>
  \<open>HashMap\<close> and \<open>HashSet\<close> of the standard library. A hash map is the list of its entries and a hash
  set the list of its members, in the order an iteration visits them. That order is not specified, so
  no property of the development depends on it: results of an iteration are stated as sets.
\<close>

type_synonym ('k, 'v) hash_map = "('k \<times> 'v) list"
type_synonym 'a hash_set = "'a list"

definition hm_get :: "('k, 'v) hash_map \<Rightarrow> 'k \<Rightarrow> 'v option" where
  "hm_get m k = map_of m k"

definition hm_insert :: "'k \<Rightarrow> 'v \<Rightarrow> ('k, 'v) hash_map \<Rightarrow> ('k, 'v) hash_map" where
  "hm_insert k v m = AList.update k v m"

definition hm_remove :: "'k \<Rightarrow> ('k, 'v) hash_map \<Rightarrow> ('k, 'v) hash_map" where
  "hm_remove k m = AList.delete k m"

definition hm_contains :: "('k, 'v) hash_map \<Rightarrow> 'k \<Rightarrow> bool" where
  "hm_contains m k = (k \<in> set (map fst m))"

definition hm_ok :: "('k, 'v) hash_map \<Rightarrow> bool" where
  "hm_ok m = distinct (map fst m)"

definition hs_insert :: "'a \<Rightarrow> 'a hash_set \<Rightarrow> 'a hash_set" where
  "hs_insert x s = (if x \<in> set s then s else s @ [x])"

definition hs_remove :: "'a \<Rightarrow> 'a hash_set \<Rightarrow> 'a hash_set" where
  "hs_remove x s = removeAll x s"

lemma hm_get_insert [simp]: "hm_get (hm_insert k v m) k' = (if k' = k then Some v else hm_get m k')"
  by (simp add: hm_get_def hm_insert_def update_conv')

lemma hm_get_remove [simp]: "hm_get (hm_remove k m) k' = (if k' = k then None else hm_get m k')"
  by (simp add: hm_get_def hm_remove_def delete_conv')

lemma hm_get_Nil [simp]: "hm_get [] k = None"
  by (simp add: hm_get_def)

lemma hm_contains_iff: "hm_contains m k \<longleftrightarrow> hm_get m k \<noteq> None"
  by (force simp: hm_contains_def hm_get_def map_of_eq_None_iff)

lemma hm_ok_simps [simp]:
  "hm_ok []" "hm_ok m \<Longrightarrow> hm_ok (hm_insert k v m)" "hm_ok m \<Longrightarrow> hm_ok (hm_remove k m)"
  by (simp_all add: hm_ok_def hm_insert_def hm_remove_def distinct_update distinct_delete)

lemma hm_entries: "hm_ok m \<Longrightarrow> (k, v) \<in> set m \<longleftrightarrow> hm_get m k = Some v"
  by (auto simp: hm_ok_def hm_get_def)

lemma hs_simps [simp]:
  "set (hs_insert x s) = insert x (set s)" "set (hs_remove x s) = set s - {x}"
  "distinct s \<Longrightarrow> distinct (hs_insert x s)" "distinct s \<Longrightarrow> distinct (hs_remove x s)"
  by (auto simp: hs_insert_def hs_remove_def distinct_removeAll)

end
