(* ===== verification/Rust_Float.thy ===== *)
theory Rust_Float
  imports Rust_Prelude Complex_Main "HOL-Library.Log_Nat"
begin

text \<open>
  The \<open>f64\<close> arithmetic and the \<open>Duration\<close> conversions the mDNS resolver uses. A finite double that is
  not negative is the rational number it denotes; every operation rounds the exact result to 53
  significant bits, to nearest and ties to even. The values in question are durations in seconds and
  quotients of them, which are zero or far inside the exponent range of the format, so that neither
  overflow nor subnormal numbers arise. A \<open>Duration\<close> or \<open>Instant\<close> is its number of nanoseconds.
\<close>

section \<open>Rounding\<close>

definition round_half_even :: "rat \<Rightarrow> int" where
  "round_half_even x =
     (let n = \<lfloor>x\<rfloor>; r = x - of_int n in if r < 1 / 2 \<or> r = 1 / 2 \<and> even n then n else n + 1)"

text \<open>The exponent of a positive number: \<open>2 ^ e \<le> x < 2 ^ (e + 1)\<close>.\<close>

definition exponent :: "rat \<Rightarrow> int" where
  "exponent x =
     (if 1 \<le> x then int (floorlog 2 (nat \<lfloor>x\<rfloor>)) - 1 else - int (floorlog 2 (nat (\<lceil>1 / x\<rceil> - 1))))"

definition rnd :: "rat \<Rightarrow> rat" where
  "rnd x = (if x = 0 then 0 else
     (let u = 2 powi (exponent x - 52) in of_int (round_half_even (x / u)) * u))"

lemma round_half_even_of_int [simp]: "round_half_even (of_int n) = n"
  by (simp add: round_half_even_def)

lemma round_half_even_bounds: "\<lfloor>x\<rfloor> \<le> round_half_even x" "round_half_even x \<le> \<lfloor>x\<rfloor> + 1"
  by (simp_all add: round_half_even_def Let_def)

lemma round_half_even_mono:
  assumes "x \<le> y"
  shows "round_half_even x \<le> round_half_even y"
proof (cases "\<lfloor>x\<rfloor> = \<lfloor>y\<rfloor>")
  case True
  with assms show ?thesis by (auto simp: round_half_even_def Let_def)
next
  case False
  then have "\<lfloor>x\<rfloor> + 1 \<le> \<lfloor>y\<rfloor>" using floor_mono [OF assms] by simp
  then show ?thesis using round_half_even_bounds [of x] round_half_even_bounds [of y] by linarith
qed

lemma exponent_bounds:
  assumes "0 < x"
  shows "2 powi exponent x \<le> x" and "x < 2 powi (exponent x + 1)"
proof -
  have "2 powi exponent x \<le> x \<and> x < 2 powi (exponent x + 1)"
  proof (cases "1 \<le> x")
    case True
    define n where "n = nat \<lfloor>x\<rfloor>"
    have n: "0 < n" "of_nat n \<le> x" "x < of_nat n + 1" using True floor_correct [of x] by (auto simp: n_def)
    define k where "k = floorlog 2 n"
    have b: "2 ^ (k - 1) \<le> n" "n < 2 ^ k" using floorlog_bounds [of n 2] n(1) by (auto simp: k_def)
    have "0 < k" using b(2) n(1) by (cases k) auto
    have "(2 :: rat) ^ (k - 1) \<le> of_nat n" using b(1) by (metis of_nat_le_iff of_nat_numeral of_nat_power)
    moreover have "of_nat n + 1 \<le> (2 :: rat) ^ k" using b(2) by (metis Suc_leI of_nat_Suc of_nat_le_iff of_nat_numeral of_nat_power add.commute)
    moreover have e: "exponent x = int (k - 1)" "exponent x + 1 = int k"
      using True \<open>0 < k\<close> by (simp_all add: exponent_def k_def n_def)
    ultimately show ?thesis using n unfolding e(2) unfolding e(1) power_int_of_nat by linarith
  next
    case False
    define m where "m = nat (\<lceil>1 / x\<rceil> - 1)"
    have y: "1 < 1 / x" using assms False by (simp add: field_simps)
    have c: "1 < \<lceil>1 / x\<rceil>" using y by (simp add: less_ceiling_iff)
    have "of_nat m = (of_int (\<lceil>1 / x\<rceil> - 1) :: rat)" unfolding m_def by (rule of_nat_nat) (use c in linarith)
    moreover have "0 < m" unfolding m_def using c by linarith
    ultimately have m: "0 < m" "of_nat m < 1 / x" "1 / x \<le> of_nat m + 1"
      using ceiling_correct [of "1 / x"] by auto
    define k where "k = floorlog 2 m"
    have b: "2 ^ (k - 1) \<le> m" "m < 2 ^ k" using floorlog_bounds [of m 2] m(1) by (auto simp: k_def)
    have "0 < k" using b(2) m(1) by (cases k) auto
    have "(2 :: rat) ^ (k - 1) < 1 / x" using b(1) m(2) by (metis of_nat_le_iff of_nat_numeral of_nat_power le_less_trans)
    moreover have "1 / x \<le> (2 :: rat) ^ k"
      using b(2) m(3) by (metis Suc_leI of_nat_Suc of_nat_le_iff of_nat_numeral of_nat_power add.commute order_trans)
    moreover have e: "exponent x = - int k" "exponent x + 1 = - int (k - 1)"
      using False \<open>0 < k\<close> by (simp_all add: exponent_def k_def m_def)
    ultimately show ?thesis using assms
      unfolding e(2) unfolding e(1) power_int_minus power_int_of_nat by (simp add: field_simps)
  qed
  then show "2 powi exponent x \<le> x" and "x < 2 powi (exponent x + 1)" by auto
qed

lemma powi_pos: "0 < (2 :: rat) powi e"
  by simp

text \<open>The power of two below a number is a multiple of its last place, so rounding stays above it.\<close>

lemma rnd_ge_power:
  assumes "0 < x"
  shows "2 powi exponent x \<le> rnd x"
proof -
  let ?u = "(2 :: rat) powi (exponent x - 52)"
  have p: "2 powi exponent x = of_int (2 ^ 52) * ?u"
    by (simp add: power_int_diff)
  have "of_int (2 ^ 52) \<le> x / ?u"
    using exponent_bounds(1) [OF assms] unfolding p by (simp add: field_simps)
  then have "2 ^ 52 \<le> round_half_even (x / ?u)"
    using round_half_even_mono by (metis round_half_even_of_int)
  then have "of_int (2 ^ 52) * ?u \<le> of_int (round_half_even (x / ?u)) * ?u"
    by (intro mult_right_mono) (simp_all only: of_int_le_iff, simp)
  then show ?thesis unfolding p using assms by (simp add: rnd_def Let_def)
qed

lemma rnd_le_power:
  assumes "0 < x"
  shows "rnd x \<le> 2 powi (exponent x + 1)"
proof -
  let ?u = "(2 :: rat) powi (exponent x - 52)"
  have p: "2 powi (exponent x + 1) = of_int (2 ^ 53) * ?u"
    by (simp add: power_int_diff power_int_add)
  have "x / ?u \<le> of_int (2 ^ 53)"
    using exponent_bounds(2) [OF assms] unfolding p by (simp add: field_simps)
  then have "round_half_even (x / ?u) \<le> 2 ^ 53"
    using round_half_even_mono by (metis round_half_even_of_int)
  then have "of_int (round_half_even (x / ?u)) * ?u \<le> of_int (2 ^ 53) * ?u"
    by (intro mult_right_mono) (simp_all only: of_int_le_iff, simp)
  then show ?thesis unfolding p using assms by (simp add: rnd_def Let_def)
qed

lemma exponent_mono:
  assumes "0 < x" and "x \<le> y"
  shows "exponent x \<le> exponent y"
proof (rule ccontr)
  assume "\<not> exponent x \<le> exponent y"
  then have "(2 :: rat) powi (exponent y + 1) \<le> 2 powi exponent x"
    by (intro power_int_increasing) auto
  with exponent_bounds(1) [OF assms(1)] exponent_bounds(2) [of y] assms show False by linarith
qed

lemma rnd_mono:
  assumes "0 \<le> x" and "x \<le> y"
  shows "rnd x \<le> rnd y"
proof (cases "x = 0")
  case True
  have "0 \<le> rnd y"
  proof (cases "y = 0")
    case False
    then show ?thesis using rnd_ge_power [of y] powi_pos [of "exponent y"] assms by linarith
  qed (simp add: rnd_def)
  with True show ?thesis by (simp add: rnd_def)
next
  case False
  with assms have x: "0 < x" and y: "0 < y" by auto
  show ?thesis
  proof (cases "exponent x = exponent y")
    case True
    let ?u = "(2 :: rat) powi (exponent y - 52)"
    have "round_half_even (x / ?u) \<le> round_half_even (y / ?u)"
      using assms(2) by (intro round_half_even_mono divide_right_mono) simp_all
    then have "of_int (round_half_even (x / ?u)) * ?u \<le> of_int (round_half_even (y / ?u)) * ?u"
      by (intro mult_right_mono) simp_all
    then show ?thesis using x y True by (simp add: rnd_def Let_def)
  next
    case False
    with exponent_mono [OF x assms(2)] have "(2 :: rat) powi (exponent x + 1) \<le> 2 powi exponent y"
      by (intro power_int_increasing) auto
    with rnd_le_power [OF x] rnd_ge_power [OF y] show ?thesis by linarith
  qed
qed

lemma rnd_nonneg: "0 \<le> x \<Longrightarrow> 0 \<le> rnd x"
  using rnd_mono [of 0 x] by (simp add: rnd_def)

section \<open>Durations\<close>

definition as_secs_f64 :: "nat \<Rightarrow> rat" where
  "as_secs_f64 d = rnd (rnd (of_nat (d div 10 ^ 9)) + rnd (of_nat (d mod 10 ^ 9) / 10 ^ 9))"

text \<open>\<open>Duration::from_secs_f64\<close> rounds to the nearest nanosecond.\<close>

definition from_secs_f64 :: "rat \<Rightarrow> nat" where
  "from_secs_f64 x = nat (round_half_even (x * 10 ^ 9))"

definition f64_mult :: "rat \<Rightarrow> rat \<Rightarrow> rat" where
  "f64_mult x y = rnd (x * y)"

text \<open>A quotient may leave the finite numbers.\<close>

datatype f64 = Fin rat | Infinite | NaN

definition f64_div :: "rat \<Rightarrow> rat \<Rightarrow> f64" where
  "f64_div x y = (if y = 0 then (if x = 0 then NaN else Infinite) else Fin (rnd (x / y)))"

text \<open>Comparisons with a finite number: false for \<open>NaN\<close>.\<close>

fun f64_ge :: "f64 \<Rightarrow> rat \<Rightarrow> bool" where
  "f64_ge (Fin x) y = (x \<ge> y)"
| "f64_ge Infinite y = True"
| "f64_ge NaN y = False"

fun f64_less :: "f64 \<Rightarrow> rat \<Rightarrow> bool" where
  "f64_less (Fin x) y = (x < y)"
| "f64_less Infinite y = False"
| "f64_less NaN y = False"

lemma rnd_of_nat:
  assumes "n < 2 ^ 53"
  shows "rnd (of_nat n) = of_nat n"
proof (cases "n = 0")
  case False
  let ?e = "exponent (of_nat n)"
  have "?e < 53"
  proof (rule ccontr)
    assume "\<not> ?e < 53"
    then have "(2 :: rat) powi 53 \<le> 2 powi ?e" by (intro power_int_increasing) auto
    also have "\<dots> \<le> of_nat n" using exponent_bounds(1) [of "of_nat n"] False by simp
    finally have "(of_nat (2 ^ 53) :: rat) \<le> of_nat n" by simp
    with assms show False by (simp only: of_nat_le_iff)
  qed
  define k where "k = nat (52 - ?e)"
  then have e: "?e - 52 = - int k" using \<open>?e < 53\<close> by simp
  have "of_nat n / 2 powi (?e - 52) = (of_int (int n * 2 ^ k) :: rat)"
    unfolding e power_int_minus power_int_of_nat by (simp add: divide_inverse)
  then have "round_half_even (of_nat n / 2 powi (?e - 52)) = int n * 2 ^ k" by (metis round_half_even_of_int)
  then show ?thesis using False unfolding rnd_def Let_def e power_int_minus power_int_of_nat by simp
qed (simp add: rnd_def)

lemma as_secs_f64_mono:
  assumes "a \<le> b" and "b < 2 ^ 53 * 10 ^ 9"
  shows "as_secs_f64 a \<le> as_secs_f64 b"
proof -
  let ?f = "\<lambda>d. rnd (of_nat (d mod 10 ^ 9) / 10 ^ 9)"
  have f: "0 \<le> ?f d" "?f d \<le> 1" for d :: nat
  proof -
    show "0 \<le> ?f d" by (intro rnd_nonneg) simp
    have "(of_nat (d mod 10 ^ 9) :: rat) \<le> of_nat (10 ^ 9)" by (simp only: of_nat_le_iff) simp
    then have "?f d \<le> rnd 1" by (intro rnd_mono) simp_all
    then show "?f d \<le> 1" using rnd_of_nat [of 1] by simp
  qed
  have s: "rnd (of_nat (d div 10 ^ 9)) = of_nat (d div 10 ^ 9)" if "d \<le> b" for d
    using that assms(2) by (intro rnd_of_nat) (simp add: less_mult_imp_div_less)
  have "of_nat (a div 10 ^ 9) + ?f a \<le> of_nat (b div 10 ^ 9) + ?f b"
  proof (cases "a div 10 ^ 9 = b div 10 ^ 9")
    case True
    then have "a mod 10 ^ 9 \<le> b mod 10 ^ 9"
      using assms(1) by (metis add_le_cancel_left div_mult_mod_eq)
    then have "?f a \<le> ?f b" by (intro rnd_mono divide_right_mono) simp_all
    with True show ?thesis by simp
  next
    case False
    then have "a div 10 ^ 9 + 1 \<le> b div 10 ^ 9" using div_le_mono [OF assms(1), of "10 ^ 9"] by linarith
    then have "(of_nat (a div 10 ^ 9) + 1 :: rat) \<le> of_nat (b div 10 ^ 9)"
      by (metis of_nat_1 of_nat_add of_nat_le_iff)
    with f(2) [of a] f(1) [of b] show ?thesis by linarith
  qed
  then show ?thesis
    unfolding as_secs_f64_def s [OF assms(1)] s [OF order_refl] using f(1) [of a] by (intro rnd_mono) simp_all
qed

lemma as_secs_f64_nonneg: "0 \<le> as_secs_f64 d"
  unfolding as_secs_f64_def by (intro rnd_nonneg add_nonneg_nonneg) simp_all

text \<open>Evaluation on numerals.\<close>

lemma floorlog_eval:
  "floorlog 2 0 = 0" "floorlog 2 1 = 1" "floorlog 2 (Suc 0) = 1"
  "floorlog 2 (numeral k) = floorlog 2 (numeral k div 2) + 1"
  by (simp_all add: compute_floorlog [of 2 "numeral k"] compute_floorlog [of 2 "Suc 0"] compute_floorlog [of 2 0])

lemma floor_numeral_rat:
  "\<lfloor>numeral a / numeral b :: rat\<rfloor> = numeral a div numeral b"
  "\<lfloor>1 / numeral b :: rat\<rfloor> = 1 div numeral b"
  "\<lceil>numeral a / numeral b :: rat\<rceil> = - (- numeral a div numeral b)"
  "\<lceil>1 / numeral b :: rat\<rceil> = - (- 1 div numeral b)"
  using floor_divide_of_int_eq [of "numeral a" "numeral b", where 'a = rat]
    floor_divide_of_int_eq [of 1 "numeral b", where 'a = rat]
    floor_divide_of_int_eq [of "- numeral a" "numeral b", where 'a = rat]
    floor_divide_of_int_eq [of "- 1" "numeral b", where 'a = rat]
  by (simp_all add: ceiling_def)

lemmas f64_eval = as_secs_f64_def rnd_def exponent_def floorlog_eval round_half_even_def power_int_def
  f64_div_def f64_mult_def from_secs_f64_def floor_numeral_rat power_one_over Let_def

end
