(* ===== verification/Index_Min_Pq.thy ===== *)
theory Index_Min_Pq
  imports Rust_Prelude
begin

text \<open>
  The indexed priority queue of the mDNS resolver, \<open>crates/adb-mdns/src/index_min_pq.rs\<close>: a binary
  heap in a vector with a hash map from an item to its position. The element type is a parameter of
  the file; its \<open>Eq\<close> and \<open>CompareAttention\<close> implementations are the record \<open>item_ops\<close>, where two
  items are equal when they have the same key. The locale \<open>attention_queue\<close> is what the resolver
  relies on: the queue is a map from keys to items that hands out an item of least attention.
\<close>

section \<open>The model\<close>

datatype Ordering = Less | Equal | Greater

record ('a, 'k) item_ops =
  item_key :: "'a \<Rightarrow> 'k"
  cmp_attention :: "'a \<Rightarrow> 'a \<Rightarrow> Ordering"

record ('a, 'k) IndexMinPQ =
  pq_data :: "'a list"
  pq_index :: "'k \<rightharpoonup> nat"

definition pq_new :: "('a, 'k) IndexMinPQ" where
  "pq_new = \<lparr>pq_data = [], pq_index = Map.empty\<rparr>"

definition pq_clear :: "('a, 'k) IndexMinPQ \<Rightarrow> ('a, 'k) IndexMinPQ" where
  "pq_clear q = q\<lparr>pq_data := [], pq_index := Map.empty\<rparr>"

definition pq_len :: "('a, 'k) IndexMinPQ \<Rightarrow> nat" where
  "pq_len q = length (pq_data q)"

definition parent_idx :: "nat \<Rightarrow> nat option" where
  "parent_idx i = (if i = 0 then None else Some ((i - 1) div 2))"

definition left_child_idx :: "nat \<Rightarrow> nat" where
  "left_child_idx i = 2 * i + 1"

definition right_child_idx :: "nat \<Rightarrow> nat" where
  "right_child_idx i = 2 * i + 2"

text \<open>\<open>self.data.len() - 1\<close> on \<open>usize\<close>, which wraps for an empty vector.\<close>

definition last_idx :: "('a, 'k) IndexMinPQ \<Rightarrow> nat" where
  "last_idx q = (if pq_data q = [] then usize_max else length (pq_data q) - 1)"

definition pq_swap ::
  "('a, 'k) item_ops \<Rightarrow> nat \<Rightarrow> nat \<Rightarrow> ('a, 'k) IndexMinPQ \<Rightarrow> (('a, 'k) IndexMinPQ, 'e) outcome" where
  "pq_swap ops i j q =
     and_then (index (pq_data q) i) (\<lambda>item_i.
     and_then (index (pq_data q) j) (\<lambda>item_j.
       Ok \<lparr>pq_data = (pq_data q)[i := item_j, j := item_i],
           pq_index = (pq_index q)(item_key ops item_i \<mapsto> j, item_key ops item_j \<mapsto> i)\<rparr>))"

function swim ::
  "('a, 'k) item_ops \<Rightarrow> nat \<Rightarrow> ('a, 'k) IndexMinPQ \<Rightarrow> (('a, 'k) IndexMinPQ, 'e) outcome" where
  "swim ops idx q =
     (case parent_idx idx of
        None \<Rightarrow> Ok q
      | Some p \<Rightarrow>
          and_then (index (pq_data q) idx) (\<lambda>x.
          and_then (index (pq_data q) p) (\<lambda>y.
            if cmp_attention ops x y \<noteq> Less then Ok q
            else and_then (pq_swap ops idx p q) (\<lambda>q'. swim ops p q'))))"
  by pat_completeness auto
termination
  by (relation "measure (\<lambda>(ops, idx, q). idx)") (auto simp: parent_idx_def split: if_splits)

text \<open>The choice of \<open>smallest_idx\<close> in one turn of \<open>sink\<close>.\<close>

definition smallest_idx ::
  "('a, 'k) item_ops \<Rightarrow> nat \<Rightarrow> nat \<Rightarrow> ('a, 'k) IndexMinPQ \<Rightarrow> (nat, 'e) outcome" where
  "smallest_idx ops lst idx q =
     (let l = left_child_idx idx; r = right_child_idx idx in
      and_then (if l \<le> lst then
          and_then (index (pq_data q) l) (\<lambda>x. and_then (index (pq_data q) idx) (\<lambda>y.
            Ok (if cmp_attention ops x y = Less then l else idx)))
        else Ok idx) (\<lambda>smallest.
      if r \<le> lst then
        and_then (index (pq_data q) r) (\<lambda>x. and_then (index (pq_data q) idx) (\<lambda>y.
          if cmp_attention ops x y = Less then
            and_then (index (pq_data q) smallest) (\<lambda>z.
              Ok (if cmp_attention ops x z = Less then r else smallest))
          else Ok smallest))
      else Ok smallest))"

lemma smallest_idx_range: "smallest_idx ops lst idx q = Ok s \<Longrightarrow> s = idx \<or> idx < s \<and> s \<le> lst"
  by (auto simp: smallest_idx_def Let_def left_child_idx_def right_child_idx_def split: if_splits)

function sink_from ::
  "('a, 'k) item_ops \<Rightarrow> nat \<Rightarrow> nat \<Rightarrow> ('a, 'k) IndexMinPQ \<Rightarrow> (('a, 'k) IndexMinPQ, 'e) outcome" where
  "sink_from ops lst idx q =
     and_then (smallest_idx ops lst idx q) (\<lambda>s.
       if s \<noteq> idx then and_then (pq_swap ops idx s q) (\<lambda>q'. sink_from ops lst s q') else Ok q)"
  by pat_completeness auto
termination
  by (relation "measure (\<lambda>(ops, lst, idx, q). Suc lst - idx)") (auto dest: smallest_idx_range)

definition sink ::
  "('a, 'k) item_ops \<Rightarrow> nat \<Rightarrow> ('a, 'k) IndexMinPQ \<Rightarrow> (('a, 'k) IndexMinPQ, 'e) outcome" where
  "sink ops idx q = sink_from ops (last_idx q) idx q"

declare swim.simps [simp del] sink_from.simps [simp del]

definition pq_push ::
  "('a, 'k) item_ops \<Rightarrow> 'a \<Rightarrow> ('a, 'k) IndexMinPQ \<Rightarrow> (('a, 'k) IndexMinPQ, 'e) outcome" where
  "pq_push ops item q =
     (case pq_index q (item_key ops item) of
        Some i \<Rightarrow>
          and_then (index (pq_data q) i) (\<lambda>old.
            let order = cmp_attention ops item old;
                q' = q\<lparr>pq_data := (pq_data q)[i := item]\<rparr>
            in case order of
                 Equal \<Rightarrow> Ok q'
               | Less \<Rightarrow> swim ops i q'
               | Greater \<Rightarrow> sink ops i q')
      | None \<Rightarrow>
          let q1 = q\<lparr>pq_data := pq_data q @ [item]\<rparr>;
              q2 = q1\<lparr>pq_index := (pq_index q1)(item_key ops item \<mapsto> last_idx q1)\<rparr>
          in swim ops (last_idx q2) q2)"

definition pq_pop ::
  "('a, 'k) item_ops \<Rightarrow> ('a, 'k) IndexMinPQ \<Rightarrow> ('a option \<times> ('a, 'k) IndexMinPQ, 'e) outcome" where
  "pq_pop ops q =
     (if pq_data q = [] then Ok (None, q)
      else and_then (pq_swap ops 0 (last_idx q) q) (\<lambda>q1.
        let item = last (pq_data q1);
            q2 = \<lparr>pq_data = butlast (pq_data q1), pq_index = (pq_index q1)(item_key ops item := None)\<rparr>
        in if pq_data q2 \<noteq> [] then and_then (sink ops 0 q2) (\<lambda>q3. Ok (Some item, q3))
           else Ok (Some item, q2)))"

definition pq_peek :: "('a, 'k) IndexMinPQ \<Rightarrow> 'a option" where
  "pq_peek q = (case pq_data q of [] \<Rightarrow> None | x # _ \<Rightarrow> Some x)"

section \<open>The contract\<close>

text \<open>
  What the resolver needs: a keyed collection from which an item of least attention is taken. No
  operation panics on a queue that satisfies the invariant.
\<close>

locale attention_queue =
  fixes invar :: "'q \<Rightarrow> bool"
    and contents :: "'q \<Rightarrow> 'k \<rightharpoonup> 'a"
    and empty :: 'q
    and push :: "'a \<Rightarrow> 'q \<Rightarrow> ('q, 'e) outcome"
    and pop :: "'q \<Rightarrow> ('a option \<times> 'q, 'e) outcome"
    and peek :: "'q \<Rightarrow> 'a option"
    and key :: "'a \<Rightarrow> 'k"
    and att :: "'a \<Rightarrow> 'o :: linorder"
  assumes empty_spec: "invar empty \<and> contents empty = Map.empty"
    and contents_key: "invar q \<Longrightarrow> contents q k = Some x \<Longrightarrow> key x = k"
    and contents_finite: "invar q \<Longrightarrow> finite (dom (contents q))"
    and push_spec: "invar q \<Longrightarrow>
      \<exists>q'. push x q = Ok q' \<and> invar q' \<and> contents q' = (contents q)(key x \<mapsto> x)"
    and peek_None: "invar q \<Longrightarrow> peek q = None \<longleftrightarrow> contents q = Map.empty"
    and peek_Some: "invar q \<Longrightarrow> peek q = Some x \<Longrightarrow>
      contents q (key x) = Some x \<and> (\<forall>y \<in> ran (contents q). att x \<le> att y)"
    and pop_spec: "invar q \<Longrightarrow> peek q = Some x \<Longrightarrow>
      \<exists>q'. pop q = Ok (Some x, q') \<and> invar q' \<and> contents q' = (contents q)(key x := None)"
begin

lemma push_Ok: "invar q \<Longrightarrow> push x q = Ok q' \<Longrightarrow> invar q' \<and> contents q' = (contents q)(key x \<mapsto> x)"
  using push_spec [of q x] by auto

lemma pop_Ok:
  "invar q \<Longrightarrow> peek q = Some x \<Longrightarrow> pop q = Ok (y, q') \<Longrightarrow>
   y = Some x \<and> invar q' \<and> contents q' = (contents q)(key x := None)"
  using pop_spec [of q x] by auto

text \<open>Nothing is due when the item at the front is not.\<close>

lemma front_not_due: "invar q \<Longrightarrow> peek q = Some x \<Longrightarrow> t < att x \<Longrightarrow> contents q k = Some y \<Longrightarrow> t < att y"
  using peek_Some [of q x] by (meson less_le_trans ranI)

lemma pop_shrinks:
  "invar q \<Longrightarrow> peek q = Some x \<Longrightarrow> pop q = Ok (y, q') \<Longrightarrow> card (dom (contents q')) < card (dom (contents q))"
  using pop_Ok [of q x y q'] peek_Some [of q x] contents_finite [of q]
  by (auto intro!: psubset_card_mono)

end

section \<open>The invariant\<close>

text \<open>The laws of \<open>cmp_attention\<close>: it compares the values of an attention function.\<close>

definition cmp_laws :: "('a, 'k) item_ops \<Rightarrow> ('a \<Rightarrow> 'o :: linorder) \<Rightarrow> bool" where
  "cmp_laws ops att \<longleftrightarrow> (\<forall>x y.
     (cmp_attention ops x y = Less \<longleftrightarrow> att x < att y) \<and> (cmp_attention ops x y = Equal \<longleftrightarrow> att x = att y))"

definition heap_ordered :: "('a \<Rightarrow> 'o :: linorder) \<Rightarrow> 'a list \<Rightarrow> bool" where
  "heap_ordered att d \<longleftrightarrow> (\<forall>i < length d. 0 < i \<longrightarrow> att (d ! ((i - 1) div 2)) \<le> att (d ! i))"

definition index_agrees :: "('a \<Rightarrow> 'k) \<Rightarrow> ('a, 'k) IndexMinPQ \<Rightarrow> bool" where
  "index_agrees key q \<longleftrightarrow>
     (\<forall>k i. pq_index q k = Some i \<longleftrightarrow> i < length (pq_data q) \<and> key (pq_data q ! i) = k)"

definition pq_invar :: "('a, 'k) item_ops \<Rightarrow> ('a \<Rightarrow> 'o :: linorder) \<Rightarrow> ('a, 'k) IndexMinPQ \<Rightarrow> bool" where
  "pq_invar ops att q \<longleftrightarrow> heap_ordered att (pq_data q) \<and> index_agrees (item_key ops) q"

definition pq_contents :: "('a, 'k) IndexMinPQ \<Rightarrow> 'k \<rightharpoonup> 'a" where
  "pq_contents q k = map_option (\<lambda>i. pq_data q ! i) (pq_index q k)"


lemma pq_invarD: "pq_invar ops att q \<Longrightarrow> heap_ordered att (pq_data q)" "pq_invar ops att q \<Longrightarrow> index_agrees (item_key ops) q"
  by (simp_all add: pq_invar_def)

lemma index_agreesD:
  "index_agrees key q \<Longrightarrow> pq_index q k = Some i \<Longrightarrow> i < length (pq_data q) \<and> key (pq_data q ! i) = k"
  by (simp add: index_agrees_def)

lemma index_agrees_inj:
  "index_agrees key q \<Longrightarrow> i < length (pq_data q) \<Longrightarrow> j < length (pq_data q) \<Longrightarrow>
   key (pq_data q ! i) = key (pq_data q ! j) \<Longrightarrow> i = j"
  unfolding index_agrees_def by (metis option.inject)

text \<open>A queue with the index in step is the map of its items.\<close>

lemma contents_iff:
  "index_agrees key q \<Longrightarrow> pq_contents q k = Some x \<longleftrightarrow> x \<in> set (pq_data q) \<and> key x = k"
  unfolding pq_contents_def index_agrees_def in_set_conv_nth by auto

lemma option_eqI: "(\<And>x. a = Some x \<longleftrightarrow> b = Some x) \<Longrightarrow> a = b"
  by (cases a; cases b) auto

lemma contents_eqI:
  assumes "index_agrees key q" and "index_agrees key q'" and "set (pq_data q') = set (pq_data q)"
  shows "pq_contents q' = pq_contents q"
  by (intro ext option_eqI) (simp add: contents_iff [OF assms(1)] contents_iff [OF assms(2)] assms(3))

definition swap_list :: "nat \<Rightarrow> nat \<Rightarrow> 'a list \<Rightarrow> 'a list" where
  "swap_list i j d = d[i := d ! j, j := d ! i]"

lemma swap_list_simps [simp]:
  "length (swap_list i j d) = length d"
  "i < length d \<Longrightarrow> j < length d \<Longrightarrow> set (swap_list i j d) = set d"
  "i < length d \<Longrightarrow> j < length d \<Longrightarrow> n < length d \<Longrightarrow>
     swap_list i j d ! n = (if n = i then d ! j else if n = j then d ! i else d ! n)"
  by (auto simp: swap_list_def set_swap nth_list_update)

lemma pq_swap_Ok:
  assumes "i < length (pq_data q)" and "j < length (pq_data q)" and "index_agrees (item_key ops) q"
  obtains q' where "pq_swap ops i j q = Ok q'" and "pq_data q' = swap_list i j (pq_data q)"
    and "index_agrees (item_key ops) q'"
proof -
  let ?d = "pq_data q" let ?k = "item_key ops"
  let ?q = "\<lparr>pq_data = swap_list i j ?d, pq_index = (pq_index q)(?k (?d ! i) \<mapsto> j, ?k (?d ! j) \<mapsto> i)\<rparr>"
  have "pq_swap ops i j q = Ok ?q"
    using assms by (simp add: pq_swap_def index_Ok swap_list_def)
  moreover have "index_agrees ?k ?q"
    using assms index_agrees_inj [OF assms(3)] unfolding index_agrees_def
    by (auto split: if_splits)
  ultimately show ?thesis using that [of ?q] by simp
qed

section \<open>Restoring the heap order\<close>

abbreviation par :: "nat \<Rightarrow> nat" where "par i \<equiv> (i - 1) div 2"

text \<open>The order holds everywhere but between \<open>k\<close> and its parent, or between \<open>k\<close> and its children.\<close>

definition heap_below :: "('a \<Rightarrow> 'o :: linorder) \<Rightarrow> nat \<Rightarrow> 'a list \<Rightarrow> bool" where
  "heap_below att k d \<longleftrightarrow>
     (\<forall>i < length d. 0 < i \<and> i \<noteq> k \<longrightarrow> att (d ! par i) \<le> att (d ! i)) \<and>
     (\<forall>i < length d. 0 < i \<and> par i = k \<and> 0 < k \<longrightarrow> att (d ! par k) \<le> att (d ! i))"

definition heap_above :: "('a \<Rightarrow> 'o :: linorder) \<Rightarrow> nat \<Rightarrow> 'a list \<Rightarrow> bool" where
  "heap_above att k d \<longleftrightarrow>
     (\<forall>i < length d. 0 < i \<and> par i \<noteq> k \<longrightarrow> att (d ! par i) \<le> att (d ! i)) \<and>
     (\<forall>i < length d. 0 < i \<and> par i = k \<and> 0 < k \<longrightarrow> att (d ! par k) \<le> att (d ! i))"

lemma heap_below_done: "heap_below att k d \<Longrightarrow> k = 0 \<or> att (d ! par k) \<le> att (d ! k) \<Longrightarrow> heap_ordered att d"
  unfolding heap_below_def heap_ordered_def by auto

lemma heap_above_done:
  "heap_above att k d \<Longrightarrow> (\<And>i. i < length d \<Longrightarrow> 0 < i \<Longrightarrow> par i = k \<Longrightarrow> att (d ! k) \<le> att (d ! i)) \<Longrightarrow>
   heap_ordered att d"
  unfolding heap_above_def heap_ordered_def by auto

lemma par_less: "0 < i \<Longrightarrow> par i < i"
  by linarith

lemma heap_below_step:
  assumes "heap_below att k d" and "0 < k" and "k < length d" and "att (d ! k) < att (d ! par k)"
  shows "heap_below att (par k) (swap_list k (par k) d)"
proof -
  have pk: "par k < length d" "par k \<noteq> k" using par_less [OF assms(2)] assms(3) by auto
  show ?thesis unfolding heap_below_def
  proof (intro conjI allI impI; elim conjE)
    fix i
    assume i: "i < length (swap_list k (par k) d)" "0 < i" "i \<noteq> par k"
    then have p: "par i < length d" "i < length d" using par_less [of i] by simp_all
    have ord: "att (d ! par i) \<le> att (d ! i)" if "i \<noteq> k"
      using assms(1) p i that unfolding heap_below_def by blast
    have gap: "att (d ! par k) \<le> att (d ! i)" if "par i = k"
      using assms(1,2) p i that unfolding heap_below_def by blast
    consider "i = k" | "i \<noteq> k" "par i = par k" | "par i = k" | "i \<noteq> k" "par i \<noteq> par k" "par i \<noteq> k" by blast
    then show "att (swap_list k (par k) d ! par i) \<le> att (swap_list k (par k) d ! i)"
    proof cases
      case 1
      then show ?thesis using assms pk by simp
    next
      case 2
      then show ?thesis using assms(3,4) pk p i ord by simp
    next
      case 3
      then have "i \<noteq> k" using par_less [OF i(2)] by simp
      with 3 show ?thesis using assms(3) pk p i gap by simp
    next
      case 4
      then show ?thesis using assms(3) pk p i ord by simp
    qed
  next
    fix i
    assume i: "i < length (swap_list k (par k) d)" "0 < i" "par i = par k" "0 < par k"
    have gp: "par (par k) < par k" using par_less [OF i(4)] .
    have "att (d ! par (par k)) \<le> att (d ! par k)"
      using assms(1) pk i(4) unfolding heap_below_def by blast
    moreover have "att (d ! par (par k)) \<le> att (d ! i)" if "i \<noteq> k"
    proof -
      have "att (d ! par k) \<le> att (d ! i)"
        using assms(1) i that unfolding heap_below_def by (metis swap_list_simps(1))
      with calculation show ?thesis by simp
    qed
    ultimately show "att (swap_list k (par k) d ! par (par k)) \<le> att (swap_list k (par k) d ! i)"
      using assms(3) pk i gp par_less [OF i(2)] by auto
  qed
qed

lemma heap_above_step:
  assumes "heap_above att k d" and s: "s < length d" "0 < s" "par s = k"
    and "att (d ! s) < att (d ! k)"
    and min: "\<And>i. i < length d \<Longrightarrow> 0 < i \<Longrightarrow> par i = k \<Longrightarrow> att (d ! s) \<le> att (d ! i)"
  shows "heap_above att s (swap_list k s d)"
proof -
  have k: "k < length d" "k \<noteq> s" using par_less [OF s(2)] s by auto
  show ?thesis unfolding heap_above_def
  proof (intro conjI allI impI; elim conjE)
    fix i
    assume i: "i < length (swap_list k s d)" "0 < i" "par i \<noteq> s"
    then have p: "par i < length d" using par_less [of i] by simp
    consider "i = k" | "i \<noteq> k" "par i = k" | "i \<noteq> k" "par i \<noteq> k" by blast
    then show "att (swap_list k s d ! par i) \<le> att (swap_list k s d ! i)"
    proof cases
      case 1
      then have "par i \<noteq> k" using par_less [OF i(2)] by simp
      moreover have "att (d ! par k) \<le> att (d ! s)" using assms(1) s i 1 unfolding heap_above_def by blast
      ultimately show ?thesis using 1 i k s p by simp
    next
      case 2
      then show ?thesis using i k s p min [of i] assms(5) by auto
    next
      case 3
      then have "i \<noteq> s" using s by auto
      then show ?thesis using 3 i k s p assms(1) unfolding heap_above_def by auto
    qed
  next
    fix i
    assume i: "i < length (swap_list k s d)" "0 < i" "par i = s" "0 < s"
    then have "i \<noteq> s" "i \<noteq> k" using par_less [OF i(2)] par_less [OF s(2)] s by auto
    moreover have "att (d ! s) \<le> att (d ! i)"
      using assms(1) i k unfolding heap_above_def by (metis swap_list_simps(1))
    ultimately show "att (swap_list k s d ! par s) \<le> att (swap_list k s d ! i)"
      using i k s by simp
  qed
qed

lemma swim_correct:
  assumes "cmp_laws ops att" and "index_agrees (item_key ops) q" and "heap_below att k (pq_data q)"
    and "k < length (pq_data q)"
  shows "\<exists>q'. swim ops k q = (Ok q' :: (('a, 'k) IndexMinPQ, 'e) outcome) \<and> pq_invar ops att q' \<and> set (pq_data q') = set (pq_data q)"
  using assms(2-)
proof (induction k arbitrary: q rule: less_induct)
  case (less k)
  show ?case
  proof (cases "0 < k \<and> att (pq_data q ! k) < att (pq_data q ! par k)")
    case True
    then have p: "par k < length (pq_data q)" "par k < k" using less.prems(3) par_less [of k] by auto
    obtain q' where q': "pq_swap ops k (par k) q = (Ok q' :: (('a, 'k) IndexMinPQ, 'e) outcome)" "pq_data q' = swap_list k (par k) (pq_data q)"
      "index_agrees (item_key ops) q'"
      using pq_swap_Ok [OF less.prems(3) p(1) less.prems(1)] by metis
    have "heap_below att (par k) (pq_data q')"
      using heap_below_step [OF less.prems(2)] True less.prems(3) q'(2) by simp
    then obtain q'' where "swim ops (par k) q' = (Ok q'' :: (('a, 'k) IndexMinPQ, 'e) outcome)" "pq_invar ops att q''" "set (pq_data q'') = set (pq_data q')"
      using less.IH [OF p(2) q'(3)] p q'(2) by auto
    then show ?thesis using True less.prems(3) p q' assms(1)
      by (auto simp: swim.simps [of ops k] parent_idx_def index_Ok cmp_laws_def)
  next
    case False
    then have "heap_ordered att (pq_data q)" using heap_below_done [OF less.prems(2)] by (auto simp: not_less)
    moreover have "swim ops k q = Ok q"
      using False less.prems(3) assms(1) par_less [of k]
      by (auto simp: swim.simps [of ops k] parent_idx_def index_Ok cmp_laws_def)
    ultimately show ?thesis using less.prems(1) by (auto simp: pq_invar_def)
  qed
qed

lemma smallest_idx_correct:
  assumes "cmp_laws ops att" and "k < length (pq_data q)" and "lst = length (pq_data q) - 1"
  shows "\<exists>s. smallest_idx ops lst k q = (Ok s :: (nat, 'e) outcome) \<and> s < length (pq_data q) \<and>
    (s \<noteq> k \<longrightarrow> 0 < s \<and> par s = k \<and> att (pq_data q ! s) < att (pq_data q ! k)) \<and>
    (\<forall>i < length (pq_data q). 0 < i \<and> par i = k \<longrightarrow> att (pq_data q ! s) \<le> att (pq_data q ! i))"
proof -
  let ?d = "pq_data q" let ?l = "2 * k + 1" let ?r = "2 * k + 2"
  have child: "i = ?l \<or> i = ?r" if "0 < i" "par i = k" for i using that by linarith
  define m where "m = (if ?l < length ?d \<and> att (?d ! ?l) < att (?d ! k) then ?l else k)"
  define s where "s = (if ?r < length ?d \<and> att (?d ! ?r) < att (?d ! k) \<and> att (?d ! ?r) < att (?d ! m) then ?r else m)"
  have m: "m < length ?d" using assms(2) by (simp add: m_def)
  have le: "n \<le> lst \<longleftrightarrow> n < length ?d" for n using assms(2,3) by auto
  have fm: "and_then (if ?l \<le> lst then and_then (index ?d ?l) (\<lambda>x. and_then (index ?d k) (\<lambda>y.
      Ok (if cmp_attention ops x y = Less then ?l else k))) else Ok k) f = f m" for f :: "nat \<Rightarrow> (nat, 'e) outcome"
    using assms(1,2) by (simp add: m_def le index_Ok cmp_laws_def)
  have ok: "smallest_idx ops lst k q = (Ok s :: (nat, 'e) outcome)"
    unfolding smallest_idx_def left_child_idx_def right_child_idx_def Let_def fm
    using assms(1,2) m by (simp add: le index_Ok cmp_laws_def s_def)
  have s: "s < length ?d" "s = k \<or> (s = ?l \<or> s = ?r) \<and> att (?d ! s) < att (?d ! k)"
    using assms(2) by (auto simp: s_def m_def)
  have "att (?d ! s) \<le> att (?d ! m)" "?r < length ?d \<Longrightarrow> att (?d ! s) \<le> att (?d ! ?r)"
    "?l < length ?d \<Longrightarrow> att (?d ! m) \<le> att (?d ! ?l)"
    by (auto simp: s_def m_def)
  then have "att (?d ! s) \<le> att (?d ! i)" if "i < length ?d" "0 < i \<and> par i = k" for i
    using child [of i] that by (auto intro: order_trans)
  with ok s show ?thesis by auto
qed

lemma sink_from_correct:
  assumes "cmp_laws ops att" and "index_agrees (item_key ops) q" and "heap_above att k (pq_data q)"
    and "k < length (pq_data q)" and "lst = length (pq_data q) - 1"
  shows "\<exists>q'. sink_from ops lst k q = (Ok q' :: (('a, 'k) IndexMinPQ, 'e) outcome) \<and> pq_invar ops att q' \<and>
    set (pq_data q') = set (pq_data q)"
  using assms(2-)
proof (induction "length (pq_data q) - k" arbitrary: q k rule: less_induct)
  case less
  obtain s where s: "smallest_idx ops lst k q = (Ok s :: (nat, 'e) outcome)" "s < length (pq_data q)"
    "s \<noteq> k \<longrightarrow> 0 < s \<and> par s = k \<and> att (pq_data q ! s) < att (pq_data q ! k)"
    "\<forall>i < length (pq_data q). 0 < i \<and> par i = k \<longrightarrow> att (pq_data q ! s) \<le> att (pq_data q ! i)"
    using smallest_idx_correct [OF assms(1) less.prems(3,4)] by metis
  show ?case
  proof (cases "s = k")
    case True
    then have "heap_ordered att (pq_data q)" using heap_above_done [OF less.prems(2)] s(4) by blast
    then show ?thesis using True s less.prems(1) by (simp add: sink_from.simps [of ops lst k] pq_invar_def)
  next
    case False
    obtain q' where q': "pq_swap ops k s q = (Ok q' :: (('a, 'k) IndexMinPQ, 'e) outcome)"
      "pq_data q' = swap_list k s (pq_data q)" "index_agrees (item_key ops) q'"
      using pq_swap_Ok [OF less.prems(3) s(2) less.prems(1)] by metis
    have "heap_above att s (pq_data q')"
      using heap_above_step [OF less.prems(2) s(2)] False s q'(2) by simp
    moreover have "length (pq_data q') - s < length (pq_data q) - k"
      using False s(2,3) par_less [of s] q'(2) by auto
    ultimately obtain q'' where "sink_from ops lst s q' = (Ok q'' :: (('a, 'k) IndexMinPQ, 'e) outcome)"
      "pq_invar ops att q''" "set (pq_data q'') = set (pq_data q')"
      using less.hyps [of q' s] less.prems(4) s(2) q' by (auto simp del: One_nat_def)
    then show ?thesis using False s q' less.prems(3) by (simp add: sink_from.simps [of ops lst k])
  qed
qed

lemma sink_correct:
  assumes "cmp_laws ops att" and "index_agrees (item_key ops) q" and "heap_above att k (pq_data q)"
    and "k < length (pq_data q)"
  shows "\<exists>q'. sink ops k q = (Ok q' :: (('a, 'k) IndexMinPQ, 'e) outcome) \<and> pq_invar ops att q' \<and>
    set (pq_data q') = set (pq_data q)"
proof -
  have "last_idx q = length (pq_data q) - 1" using assms(4) by (auto simp: last_idx_def)
  then show ?thesis unfolding sink_def by (rule sink_from_correct [OF assms])
qed

section \<open>The operations meet the contract\<close>

lemma heap_min: "heap_ordered att d \<Longrightarrow> i < length d \<Longrightarrow> att (d ! 0) \<le> att (d ! i)"
proof (induction i rule: less_induct)
  case (less i)
  show ?case
  proof (cases "i = 0")
    case False
    then have "par i < i" "par i < length d" using par_less [of i] less.prems(2) by auto
    then have "att (d ! 0) \<le> att (d ! par i)" using less by blast
    also have "\<dots> \<le> att (d ! i)" using less.prems False unfolding heap_ordered_def by blast
    finally show ?thesis .
  qed simp
qed

lemma contents_updI:
  assumes "index_agrees key q" and "index_agrees key q'"
    and "\<And>x. x \<in> set (pq_data q') \<longleftrightarrow> x = y \<or> x \<in> set (pq_data q) \<and> key x \<noteq> key y"
  shows "pq_contents q' = (pq_contents q)(key y \<mapsto> y)"
proof (intro ext option_eqI)
  fix k x
  show "pq_contents q' k = Some x \<longleftrightarrow> ((pq_contents q)(key y \<mapsto> y)) k = Some x"
    by (auto simp: contents_iff [OF assms(1)] contents_iff [OF assms(2)] assms(3))
qed

lemma restored:
  assumes "index_agrees (item_key ops) q1" and "pq_invar ops att q'" and "set (pq_data q') = set (pq_data q1)"
    and "pq_contents q1 = m"
  shows "pq_contents q' = m"
  using contents_eqI [OF assms(1) pq_invarD(2) [OF assms(2)] assms(3)] assms(4) by simp

lemma pq_update:
  assumes "index_agrees (item_key ops) q" and "pq_index q (item_key ops x) = Some i"
  defines "q1 \<equiv> q\<lparr>pq_data := (pq_data q)[i := x]\<rparr>"
  shows "index_agrees (item_key ops) q1" and "pq_contents q1 = (pq_contents q)(item_key ops x \<mapsto> x)"
proof -
  have i: "i < length (pq_data q)" "item_key ops (pq_data q ! i) = item_key ops x"
    using index_agreesD [OF assms(1,2)] by auto
  have "item_key ops ((pq_data q)[i := x] ! j) = item_key ops (pq_data q ! j)" for j
    using i by (cases "j = i") simp_all
  then show q1: "index_agrees (item_key ops) q1"
    using assms(1) by (simp add: index_agrees_def q1_def)
  have "y \<in> set (pq_data q1) \<longleftrightarrow> y = x \<or> y \<in> set (pq_data q) \<and> item_key ops y \<noteq> item_key ops x" for y
  proof -
    have "y \<in> set (pq_data q1) \<longleftrightarrow> y = x \<or> (\<exists>j < length (pq_data q). j \<noteq> i \<and> pq_data q ! j = y)"
      using i(1) by (auto simp: q1_def in_set_conv_nth nth_list_update)
    also have "\<dots> \<longleftrightarrow> y = x \<or> y \<in> set (pq_data q) \<and> item_key ops y \<noteq> item_key ops x"
    proof -
      have "item_key ops (pq_data q ! j) \<noteq> item_key ops x" if "j < length (pq_data q)" "j \<noteq> i" for j
        using index_agrees_inj [OF assms(1) that(1) i(1)] i(2) that(2) by auto
      with i(2) show ?thesis unfolding in_set_conv_nth by metis
    qed
    finally show ?thesis .
  qed
  then show "pq_contents q1 = (pq_contents q)(item_key ops x \<mapsto> x)" by (rule contents_updI [OF assms(1) q1])
qed

lemma heap_update:
  assumes "heap_ordered att d" and "i < length d"
  shows "att x \<le> att (d ! i) \<Longrightarrow> heap_below att i (d[i := x])"
    and "att (d ! i) \<le> att x \<Longrightarrow> heap_above att i (d[i := x])"
proof -
  have ord: "att (d ! par j) \<le> att (d ! j)" if "j < length d" "0 < j" for j
    using assms(1) that by (simp add: heap_ordered_def)
  have gap: "att (d ! par i) \<le> att (d ! j)" if "j < length d" "0 < j" "par j = i" "0 < i" for j
    using ord [OF that(1,2)] ord [OF assms(2) that(4)] that(3) by simp
  have ne: "par j \<noteq> j" if "0 < j" for j using par_less [OF that] by simp
  show "heap_below att i (d[i := x])" if "att x \<le> att (d ! i)"
    unfolding heap_below_def
  proof (intro conjI allI impI; elim conjE)
    fix j
    assume "j < length (d[i := x])" "0 < j" "j \<noteq> i"
    then show "att (d[i := x] ! par j) \<le> att (d[i := x] ! j)"
      using ord [of j] that by (cases "par j = i") (auto intro: order_trans)
  next
    fix j
    assume "j < length (d[i := x])" "0 < j" "par j = i" "0 < i"
    then show "att (d[i := x] ! par i) \<le> att (d[i := x] ! j)"
      using gap [of j] ne [of i] ne [of j] by auto
  qed
  show "heap_above att i (d[i := x])" if "att (d ! i) \<le> att x"
    unfolding heap_above_def
  proof (intro conjI allI impI; elim conjE)
    fix j
    assume "j < length (d[i := x])" "0 < j" "par j \<noteq> i"
    then show "att (d[i := x] ! par j) \<le> att (d[i := x] ! j)"
      using ord [of j] that by (cases "j = i") (auto intro: order_trans)
  next
    fix j
    assume "j < length (d[i := x])" "0 < j" "par j = i" "0 < i"
    then show "att (d[i := x] ! par i) \<le> att (d[i := x] ! j)"
      using gap [of j] ne [of i] ne [of j] by auto
  qed
qed

lemma pq_insert:
  assumes "index_agrees (item_key ops) q" and "pq_index q (item_key ops x) = None"
  defines "q1 \<equiv> \<lparr>pq_data = pq_data q @ [x], pq_index = (pq_index q)(item_key ops x \<mapsto> length (pq_data q))\<rparr>"
  shows "index_agrees (item_key ops) q1" and "pq_contents q1 = (pq_contents q)(item_key ops x \<mapsto> x)"
proof -
  have new: "item_key ops y \<noteq> item_key ops x" if "y \<in> set (pq_data q)" for y
    using assms(1,2) that unfolding index_agrees_def in_set_conv_nth by (metis option.distinct(1))
  then show q1: "index_agrees (item_key ops) q1"
    using assms(1) unfolding index_agrees_def q1_def by (auto simp: nth_append less_Suc_eq)
  show "pq_contents q1 = (pq_contents q)(item_key ops x \<mapsto> x)"
    by (rule contents_updI [OF assms(1) q1]) (use new in \<open>auto simp: q1_def\<close>)
qed

lemma heap_append: "heap_ordered att d \<Longrightarrow> heap_below att (length d) (d @ [x])"
  unfolding heap_ordered_def heap_below_def
  by (auto simp: nth_append less_Suc_eq)

lemma pq_push_correct:
  assumes "cmp_laws ops att" and "pq_invar ops att q"
  shows "\<exists>q'. pq_push ops x q = (Ok q' :: (('a, 'k) IndexMinPQ, 'e) outcome) \<and> pq_invar ops att q' \<and>
    pq_contents q' = (pq_contents q)(item_key ops x \<mapsto> x)"
proof (cases "pq_index q (item_key ops x)")
  case None
  define q1 where "q1 = \<lparr>pq_data = pq_data q @ [x], pq_index = (pq_index q)(item_key ops x \<mapsto> length (pq_data q))\<rparr>"
  note ins = pq_insert [OF pq_invarD(2) [OF assms(2)] None, folded q1_def]
  have "heap_below att (length (pq_data q)) (pq_data q1)"
    using heap_append [OF pq_invarD(1) [OF assms(2)]] by (simp add: q1_def)
  then obtain q' where q': "swim ops (length (pq_data q)) q1 = (Ok q' :: (('a, 'k) IndexMinPQ, 'e) outcome)"
    "pq_invar ops att q'" "set (pq_data q') = set (pq_data q1)"
    using swim_correct [OF assms(1) ins(1)] by (auto simp: q1_def)
  moreover have "pq_push ops x q = (swim ops (length (pq_data q)) q1 :: (('a, 'k) IndexMinPQ, 'e) outcome)"
    using None by (cases q) (simp add: pq_push_def q1_def last_idx_def Let_def)
  ultimately show ?thesis using restored [OF ins(1) q'(2,3) ins(2)] by simp
next
  case (Some i)
  define q1 where "q1 = q\<lparr>pq_data := (pq_data q)[i := x]\<rparr>"
  note upd = pq_update [OF pq_invarD(2) [OF assms(2)] Some, folded q1_def]
  have i: "i < length (pq_data q)" using index_agreesD [OF pq_invarD(2) [OF assms(2)] Some] by simp
  note hu = heap_update [OF pq_invarD(1) [OF assms(2)] i, of x]
  have i1: "i < length (pq_data q1)" using i by (simp add: q1_def)
  have push: "pq_push ops x q = ((case cmp_attention ops x (pq_data q ! i) of
      Equal \<Rightarrow> Ok q1 | Less \<Rightarrow> swim ops i q1 | Greater \<Rightarrow> sink ops i q1) :: (('a, 'k) IndexMinPQ, 'e) outcome)"
    using Some i unfolding q1_def by (simp add: pq_push_def index_Ok Let_def)
  have "\<exists>q'. pq_push ops x q = (Ok q' :: (('a, 'k) IndexMinPQ, 'e) outcome) \<and> pq_invar ops att q' \<and>
      set (pq_data q') = set (pq_data q1)"
  proof (cases "cmp_attention ops x (pq_data q ! i)")
    case Less
    then have "heap_below att i (pq_data q1)" using hu(1) assms(1) by (simp add: cmp_laws_def q1_def less_imp_le)
    then show ?thesis using Less swim_correct [OF assms(1) upd(1) _ i1] push by simp
  next
    case Equal
    then have "att ((pq_data q)[i := x] ! j) = att (pq_data q ! j)" for j
      using assms(1) i by (cases "j = i") (simp_all add: cmp_laws_def)
    then have "heap_ordered att (pq_data q1)"
      using pq_invarD(1) [OF assms(2)] by (simp add: q1_def heap_ordered_def)
    then show ?thesis using Equal upd(1) push by (auto simp: pq_invar_def)
  next
    case Greater
    then have "\<not> att x < att (pq_data q ! i)" using assms(1) unfolding cmp_laws_def by (metis Ordering.distinct(3))
    then have "heap_above att i (pq_data q1)" using hu(2) by (simp add: q1_def)
    then show ?thesis using Greater sink_correct [OF assms(1) upd(1) _ i1] push by simp
  qed
  then show ?thesis using restored [OF upd(1) _ _ upd(2)] by blast
qed

lemma pq_remove:
  assumes "index_agrees (item_key ops) q" and "pq_data q \<noteq> []"
  defines "q1 \<equiv> \<lparr>pq_data = butlast (pq_data q), pq_index = (pq_index q)(item_key ops (last (pq_data q)) := None)\<rparr>"
  shows "index_agrees (item_key ops) q1"
    and "pq_contents q1 = (pq_contents q)(item_key ops (last (pq_data q)) := None)"
proof -
  let ?n = "length (pq_data q) - 1"
  have n: "?n < length (pq_data q)" "pq_data q ! ?n = last (pq_data q)"
    using assms(2) by (simp_all add: last_conv_nth)
  have other: "item_key ops (pq_data q ! j) \<noteq> item_key ops (last (pq_data q))" if "j < ?n" for j
    using index_agrees_inj [OF assms(1) _ n(1), of j] that n by auto
  show q1: "index_agrees (item_key ops) q1" unfolding index_agrees_def
  proof (intro allI)
    fix k i
    have "i < length (pq_data q) \<longleftrightarrow> i < ?n \<or> i = ?n" using n(1) by linarith
    then show "pq_index q1 k = Some i \<longleftrightarrow> i < length (pq_data q1) \<and> item_key ops (pq_data q1 ! i) = k"
      using assms(1) other [of i] n(2) unfolding index_agrees_def q1_def by (auto simp: nth_butlast)
  qed
  show "pq_contents q1 = (pq_contents q)(item_key ops (last (pq_data q)) := None)"
  proof
    fix k
    have "pq_data q1 ! i = pq_data q ! i" if "pq_index q1 k = Some i" for i
      using index_agreesD [OF q1 that] by (simp add: q1_def nth_butlast)
    then show "pq_contents q1 k = ((pq_contents q)(item_key ops (last (pq_data q)) := None)) k"
      by (auto simp: pq_contents_def q1_def map_option_case split: option.split)
  qed
qed

lemma heap_pop: "heap_ordered att d \<Longrightarrow> d \<noteq> [] \<Longrightarrow> heap_above att 0 (butlast (swap_list 0 (length d - 1) d))"
  unfolding heap_ordered_def heap_above_def
  by (auto simp: nth_butlast)

lemma pq_pop_correct:
  assumes "cmp_laws ops att" and "pq_invar ops att q" and "pq_peek q = Some x"
  shows "\<exists>q'. pq_pop ops q = (Ok (Some x, q') :: ('a option \<times> ('a, 'k) IndexMinPQ, 'e) outcome) \<and>
    pq_invar ops att q' \<and> pq_contents q' = (pq_contents q)(item_key ops x := None)"
proof -
  let ?d = "pq_data q"
  have d: "?d \<noteq> []" "?d ! 0 = x" using assms(3) by (auto simp: pq_peek_def split: list.splits)
  then have n: "0 < length ?d" "length ?d - 1 < length ?d" by auto
  obtain q1 where q1: "pq_swap ops 0 (length ?d - 1) q = (Ok q1 :: (('a, 'k) IndexMinPQ, 'e) outcome)"
    "pq_data q1 = swap_list 0 (length ?d - 1) ?d" "index_agrees (item_key ops) q1"
    using pq_swap_Ok [OF n pq_invarD(2) [OF assms(2)]] by metis
  have ne: "pq_data q1 \<noteq> []" using n(1) q1(2) by (metis length_0_conv swap_list_simps(1) less_numeral_extra(3))
  have x: "last (pq_data q1) = x" using ne n d(2) q1(2) by (simp add: last_conv_nth)
  define q2 where "q2 = \<lparr>pq_data = butlast (pq_data q1), pq_index = (pq_index q1)(item_key ops x := None)\<rparr>"
  note rm = pq_remove [OF q1(3) ne, unfolded x, folded q2_def]
  have c1: "pq_contents q1 = pq_contents q"
    using contents_eqI [OF pq_invarD(2) [OF assms(2)] q1(3)] q1(2) n by simp
  have pop: "pq_pop ops q = ((if pq_data q2 \<noteq> [] then and_then (sink ops 0 q2) (\<lambda>q3. Ok (Some x, q3))
      else Ok (Some x, q2)) :: ('a option \<times> ('a, 'k) IndexMinPQ, 'e) outcome)"
    using d(1) q1(1) x by (simp add: pq_pop_def last_idx_def Let_def q2_def)
  have above: "heap_above att 0 (pq_data q2)"
    using heap_pop [OF pq_invarD(1) [OF assms(2)] d(1)] by (simp add: q2_def q1(2))
  show ?thesis
  proof (cases "pq_data q2 = []")
    case True
    then have "pq_invar ops att q2" using rm(1) by (simp add: pq_invar_def heap_ordered_def)
    with True pop rm(2) c1 show ?thesis by simp
  next
    case False
    then obtain q3 where q3: "sink ops 0 q2 = (Ok q3 :: (('a, 'k) IndexMinPQ, 'e) outcome)" "pq_invar ops att q3"
      "set (pq_data q3) = set (pq_data q2)"
      using sink_correct [OF assms(1) rm(1) above] by auto
    with False pop restored [OF rm(1) q3(2,3) rm(2)] c1 show ?thesis by simp
  qed
qed

text \<open>Every instance whose \<open>cmp_attention\<close> compares an attention value meets the contract.\<close>

lemma pq_attention_queue:
  assumes "cmp_laws ops att"
  shows "attention_queue (pq_invar ops att) pq_contents pq_new
    (pq_push ops :: 'a \<Rightarrow> _ \<Rightarrow> (('a, 'k) IndexMinPQ, 'e) outcome) (pq_pop ops) pq_peek (item_key ops) att"
proof
  fix q :: "('a, 'k) IndexMinPQ" and k x
  show "pq_invar ops att pq_new \<and> pq_contents pq_new = Map.empty"
    by (auto simp: pq_invar_def pq_new_def heap_ordered_def index_agrees_def pq_contents_def)
  assume inv: "pq_invar ops att q"
  note ix = pq_invarD(2) [OF inv]
  show "pq_contents q k = Some x \<Longrightarrow> item_key ops x = k" using contents_iff [OF ix] by blast
  have "dom (pq_contents q) \<subseteq> item_key ops ` set (pq_data q)" using contents_iff [OF ix] by (auto simp: dom_def)
  then show "finite (dom (pq_contents q))" by (rule finite_subset) simp
  show "\<exists>q'. pq_push ops x q = (Ok q' :: (('a, 'k) IndexMinPQ, 'e) outcome) \<and> pq_invar ops att q' \<and>
      pq_contents q' = (pq_contents q)(item_key ops x \<mapsto> x)" by (rule pq_push_correct [OF assms inv])
  have "pq_contents q = Map.empty \<longleftrightarrow> pq_data q = []"
  proof
    assume "pq_contents q = Map.empty"
    then have "y \<notin> set (pq_data q)" for y using contents_iff [OF ix, of "item_key ops y" y] by simp
    then show "pq_data q = []" by (cases "pq_data q") auto
  next
    assume "pq_data q = []"
    then show "pq_contents q = Map.empty" using contents_iff [OF ix] by (intro ext option_eqI) simp
  qed
  then show "pq_peek q = None \<longleftrightarrow> pq_contents q = Map.empty" by (simp add: pq_peek_def split: list.split)
  assume peek: "pq_peek q = Some x"
  show "\<exists>q'. pq_pop ops q = (Ok (Some x, q') :: ('a option \<times> ('a, 'k) IndexMinPQ, 'e) outcome) \<and> pq_invar ops att q' \<and>
      pq_contents q' = (pq_contents q)(item_key ops x := None)" by (rule pq_pop_correct [OF assms inv peek])
  have x: "x \<in> set (pq_data q)" "x = pq_data q ! 0" using peek by (auto simp: pq_peek_def split: list.splits)
  show "pq_contents q (item_key ops x) = Some x \<and> (\<forall>y \<in> ran (pq_contents q). att x \<le> att y)"
    using x contents_iff [OF ix] heap_min [OF pq_invarD(1) [OF inv]] by (auto simp: ran_def in_set_conv_nth)
qed

text \<open>
  C9: on a queue that satisfies the invariant, no operation panics and each one acts on the map of the
  queued items as its contract says: a push adds the item or replaces the one with its key, a peek shows
  an item of least attention, a pop removes that item; the invariant is kept.\<close>

theorem index_min_pq_refines_map:
  fixes q :: "('a, 'k) IndexMinPQ" and att :: "'a \<Rightarrow> 'o :: linorder"
  assumes "cmp_laws ops att" and "pq_invar ops att q"
  shows "(\<exists>q'. pq_push ops x q = (Ok q' :: (('a, 'k) IndexMinPQ, 'e) outcome) \<and> pq_invar ops att q' \<and>
      pq_contents q' = (pq_contents q)(item_key ops x \<mapsto> x)) \<and>
    (case pq_peek q of
       None \<Rightarrow> pq_contents q = Map.empty \<and> pq_pop ops q = (Ok (None, q) :: ('a option \<times> ('a, 'k) IndexMinPQ, 'e) outcome)
     | Some y \<Rightarrow> pq_contents q (item_key ops y) = Some y \<and> (\<forall>z \<in> ran (pq_contents q). att y \<le> att z) \<and>
         (\<exists>q'. pq_pop ops q = (Ok (Some y, q') :: ('a option \<times> ('a, 'k) IndexMinPQ, 'e) outcome) \<and>
            pq_invar ops att q' \<and> pq_contents q' = (pq_contents q)(item_key ops y := None)))"
proof -
  note q = pq_attention_queue [OF assms(1), where 'e = 'e]
  have "pq_pop ops q = (Ok (None, q) :: ('a option \<times> ('a, 'k) IndexMinPQ, 'e) outcome)" if "pq_peek q = None"
    using that by (auto simp: pq_peek_def pq_pop_def split: list.splits)
  then show ?thesis
    using attention_queue.push_spec [OF q assms(2), of x] attention_queue.peek_None [OF q assms(2)]
      attention_queue.peek_Some [OF q assms(2)] attention_queue.pop_spec [OF q assms(2)]
    by (auto split: option.split)
qed

definition nat_ops :: "(nat \<times> nat, nat) item_ops" where
  "nat_ops = \<lparr>item_key = fst, cmp_attention = (\<lambda>x y.
     if snd x < snd y then Less else if snd x = snd y then Equal else Greater)\<rparr>"

theorem index_min_pq_refines_map_witness:
  "\<exists>q'. pq_push nat_ops (1, 7) pq_new = (Ok q' :: ((nat \<times> nat, nat) IndexMinPQ, unit) outcome) \<and>
     pq_contents q' = [1 \<mapsto> (1, 7)]"
proof -
  have "cmp_laws nat_ops snd" by (simp add: cmp_laws_def nat_ops_def)
  moreover have "pq_invar nat_ops snd pq_new" "pq_contents (pq_new :: (nat \<times> nat, nat) IndexMinPQ) = Map.empty"
    by (auto simp: pq_invar_def pq_new_def heap_ordered_def index_agrees_def pq_contents_def)
  ultimately show ?thesis
    using index_min_pq_refines_map [of nat_ops snd pq_new "(1, 7)", where 'e = unit]
    by (auto simp: nat_ops_def)
qed

end
