(* ===== verification/Mdns_Store.thy ===== *)
theory Mdns_Store
  imports Rust_Str Rust_Collections Rust_Float Index_Min_Pq "HOL-Library.AList_Mapping"
begin

text \<open>
  Resource records and the record store of the mDNS resolver: \<open>crates/adb-mdns/src/rr.rs\<close> and
  \<open>crates/adb-mdns/src/store.rs\<close>. Records are compared by what identifies them, \<open>rr_key\<close>; the queue of
  records ordered by attention time is an instance of the priority queue of \<^theory_text>\<open>Index_Min_Pq\<close>. An
  \<open>Instant\<close> and a \<open>Duration\<close> are numbers of nanoseconds.
\<close>

section \<open>Resource records\<close>

type_synonym TxtAttributes = "(rstr, rstr) mapping"

datatype ServiceTypeWithLocal = ServiceTypeWithLocal rstr

record FQServiceName =
  instance_name :: rstr
  service_type :: rstr
  service_type_with_local :: ServiceTypeWithLocal
  local_domain :: rstr

definition FQServiceName_new :: "rstr \<Rightarrow> rstr \<Rightarrow> rstr \<Rightarrow> FQServiceName" where
  "FQServiceName_new inst st domain = \<lparr>instance_name = inst, service_type = st,
     service_type_with_local = ServiceTypeWithLocal (st @ str ''.'' @ domain), local_domain = domain\<rparr>"

definition fq_name :: "FQServiceName \<Rightarrow> rstr" where
  "fq_name n = instance_name n @ str ''.'' @ service_type n @ str ''.'' @ local_domain n"

datatype RRPayload =
    RR_A rstr u32
  | RR_AAAA rstr "128 word"
  | RR_SRV FQServiceName rstr u16
  | RR_TXT FQServiceName TxtAttributes
  | RR_PTR rstr FQServiceName

fun RRPayload_eq :: "RRPayload \<Rightarrow> RRPayload \<Rightarrow> bool" where
  "RRPayload_eq (RR_A n a) (RR_A n' a') = (n = n' \<and> a = a')"
| "RRPayload_eq (RR_AAAA n a) (RR_AAAA n' a') = (n = n' \<and> a = a')"
| "RRPayload_eq (RR_SRV n t p) (RR_SRV n' t' p') = (n = n')"
| "RRPayload_eq (RR_TXT n a) (RR_TXT n' a') = (n = n')"
| "RRPayload_eq (RR_PTR n p) (RR_PTR n' p') = (p = p')"
| "RRPayload_eq _ _ = False"

text \<open>What \<open>Hash\<close> feeds to the hasher: a tag and the identifying fields.\<close>

datatype rr_key = K_A rstr u32 | K_AAAA rstr "128 word" | K_SRV FQServiceName | K_TXT FQServiceName | K_PTR FQServiceName

fun RRPayload_key :: "RRPayload \<Rightarrow> rr_key" where
  "RRPayload_key (RR_A n a) = K_A n a"
| "RRPayload_key (RR_AAAA n a) = K_AAAA n a"
| "RRPayload_key (RR_SRV n t p) = K_SRV n"
| "RRPayload_key (RR_TXT n a) = K_TXT n"
| "RRPayload_key (RR_PTR n p) = K_PTR p"

text \<open>\<open>Eq\<close> and \<open>Hash\<close> agree: equal payloads are the ones that hash the same fields.\<close>

lemma RRPayload_eq_iff: "RRPayload_eq p p' \<longleftrightarrow> RRPayload_key p = RRPayload_key p'"
  by (cases p; cases p') auto

datatype RRLifecycle = Created | Probed80 | Probed85 | Probed90 | Probed95

fun next_ttl_fraction :: "RRLifecycle \<Rightarrow> rat" where
  "next_ttl_fraction Created = rnd (80 / 100)"
| "next_ttl_fraction Probed80 = rnd (85 / 100)"
| "next_ttl_fraction Probed85 = rnd (90 / 100)"
| "next_ttl_fraction Probed90 = rnd (95 / 100)"
| "next_ttl_fraction Probed95 = 1"

record RR =
  attention_needed_on :: nat
  created_on :: nat
  rr_ttl :: nat
  lifecycle_state :: RRLifecycle
  rr_payload :: RRPayload

definition RR_new :: "nat \<Rightarrow> nat \<Rightarrow> RRPayload \<Rightarrow> RR" where
  "RR_new now ttl p =
     (let state = Created;
          duration_next_attention = f64_mult (as_secs_f64 ttl) (next_ttl_fraction state)
      in \<lparr>attention_needed_on = now + from_secs_f64 duration_next_attention, created_on = now,
          rr_ttl = ttl, lifecycle_state = state, rr_payload = p\<rparr>)"

text \<open>\<open>Ord\<close> of \<open>Instant\<close>, and the \<open>Eq\<close>, \<open>Hash\<close> and \<open>CompareAttention\<close> of \<open>Rc<RR>\<close>.\<close>

definition Instant_cmp :: "nat \<Rightarrow> nat \<Rightarrow> Ordering" where
  "Instant_cmp a b = (if a < b then Less else if a = b then Equal else Greater)"

definition rr_ops :: "(RR, rr_key) item_ops" where
  "rr_ops = \<lparr>item_key = RRPayload_key \<circ> rr_payload,
     cmp_attention = (\<lambda>x y. Instant_cmp (attention_needed_on x) (attention_needed_on y))\<rparr>"

type_synonym attention_list = "(RR, rr_key) IndexMinPQ"

lemma rr_cmp_laws: "cmp_laws rr_ops attention_needed_on"
  by (simp add: cmp_laws_def rr_ops_def Instant_cmp_def)

lemma item_key_rr [simp]: "item_key rr_ops r = RRPayload_key (rr_payload r)"
  by (simp add: rr_ops_def)

interpretation rrq: attention_queue "pq_invar rr_ops attention_needed_on" pq_contents pq_new
  "pq_push rr_ops :: RR \<Rightarrow> attention_list \<Rightarrow> (attention_list, unit) outcome" "pq_pop rr_ops" pq_peek
  "item_key rr_ops" attention_needed_on
  by (rule pq_attention_queue [OF rr_cmp_laws])

section \<open>The store\<close>

record Store =
  ptrs :: "FQServiceName hash_set"
  srvs :: "(rstr, rstr \<times> u16) hash_map"
  ipv4s :: "(rstr, u32 set) hash_map"
  ipv6s :: "(rstr, 128 word set) hash_map"
  txts :: "(rstr, TxtAttributes) hash_map"

record InstanceDetails =
  hostname :: rstr
  port :: u16
  det_ipv4s :: "u32 set"
  det_ipv6s :: "128 word set"
  det_txt :: TxtAttributes

type_synonym Services = "(FQServiceName, InstanceDetails) hash_map"

definition Store_new :: Store where
  "Store_new = \<lparr>ptrs = [], srvs = [], ipv4s = [], ipv6s = [], txts = []\<rparr>"

definition Store_clear :: "Store \<Rightarrow> Store" where
  "Store_clear st = st\<lparr>ipv6s := [], ipv4s := [], txts := [], srvs := [], ptrs := []\<rparr>"

definition Store_len :: "Store \<Rightarrow> nat" where
  "Store_len st = length (ptrs st) + length (srvs st) + length (txts st)
     + sum_list (map (card \<circ> snd) (ipv4s st)) + sum_list (map (card \<circ> snd) (ipv6s st))"

text \<open>The details of one instance, if the store has its service record and an address of its host.\<close>

definition instance_details :: "Store \<Rightarrow> FQServiceName \<Rightarrow> InstanceDetails option" where
  "instance_details st fq =
     (case hm_get (srvs st) (fq_name fq) of
        None \<Rightarrow> None
      | Some (target, p) \<Rightarrow>
          (let details = \<lparr>hostname = target, port = p, det_ipv4s = {}, det_ipv6s = {}, det_txt = Mapping.empty\<rparr>;
               details = (case hm_get (ipv4s st) target of
                   Some ips \<Rightarrow> details\<lparr>det_ipv4s := det_ipv4s details \<union> ips\<rparr> | None \<Rightarrow> details);
               details = (case hm_get (ipv6s st) target of
                   Some ips \<Rightarrow> details\<lparr>det_ipv6s := det_ipv6s details \<union> ips\<rparr> | None \<Rightarrow> details)
           in if det_ipv4s details = {} \<and> det_ipv6s details = {} then None
              else Some (case hm_get (txts st) (fq_name fq) of
                  Some t \<Rightarrow> details\<lparr>det_txt := t\<rparr> | None \<Rightarrow> details)))"

fun snapshot_from :: "Store \<Rightarrow> FQServiceName list \<Rightarrow> Services \<Rightarrow> Services" where
  "snapshot_from st [] services = services"
| "snapshot_from st (fq # fqs) services =
     (case instance_details st fq of
        None \<Rightarrow> snapshot_from st fqs services
      | Some details \<Rightarrow> snapshot_from st fqs (hm_insert fq details services))"

definition snapshot :: "Store \<Rightarrow> Services" where
  "snapshot st = snapshot_from st (ptrs st) []"

definition entry_or_default :: "rstr \<Rightarrow> (rstr, 'a set) hash_map \<Rightarrow> 'a set" where
  "entry_or_default n m = (case hm_get m n of Some s \<Rightarrow> s | None \<Rightarrow> {})"

fun Store_add :: "RRPayload \<Rightarrow> Store \<Rightarrow> Store" where
  "Store_add (RR_A n a) st = st\<lparr>ipv4s := hm_insert n (insert a (entry_or_default n (ipv4s st))) (ipv4s st)\<rparr>"
| "Store_add (RR_AAAA n a) st = st\<lparr>ipv6s := hm_insert n (insert a (entry_or_default n (ipv6s st))) (ipv6s st)\<rparr>"
| "Store_add (RR_SRV n target p) st = st\<lparr>srvs := hm_insert (fq_name n) (target, p) (srvs st)\<rparr>"
| "Store_add (RR_TXT n attributes) st = st\<lparr>txts := hm_insert (fq_name n) attributes (txts st)\<rparr>"
| "Store_add (RR_PTR n pointer) st = st\<lparr>ptrs := hs_insert pointer (ptrs st)\<rparr>"

text \<open>Removal of an address from the set under a name; an empty set is dropped.\<close>

definition remove_addr :: "rstr \<Rightarrow> 'a \<Rightarrow> (rstr, 'a set) hash_map \<Rightarrow> (rstr, 'a set) hash_map" where
  "remove_addr n a m =
     (if \<not> hm_contains m n then m
      else let s = entry_or_default n m - {a} in if s = {} then hm_remove n m else hm_insert n s m)"

fun Store_remove :: "RRPayload \<Rightarrow> Store \<Rightarrow> Store" where
  "Store_remove (RR_A n a) st = st\<lparr>ipv4s := remove_addr n a (ipv4s st)\<rparr>"
| "Store_remove (RR_AAAA n a) st = st\<lparr>ipv6s := remove_addr n a (ipv6s st)\<rparr>"
| "Store_remove (RR_SRV n target p) st = st\<lparr>srvs := hm_remove (fq_name n) (srvs st)\<rparr>"
| "Store_remove (RR_TXT n attributes) st = st\<lparr>txts := hm_remove (fq_name n) (txts st)\<rparr>"
| "Store_remove (RR_PTR n pointer) st = st\<lparr>ptrs := hs_remove pointer (ptrs st)\<rparr>"

section \<open>What the store holds\<close>

text \<open>
  The place of a record in the store. Service and text records are filed under the full name as a
  string, so two keys may share a place.
\<close>

datatype slot = S_A rstr u32 | S_AAAA rstr "128 word" | S_SRV rstr | S_TXT rstr | S_PTR FQServiceName

fun slot_of :: "rr_key \<Rightarrow> slot" where
  "slot_of (K_A n a) = S_A n a"
| "slot_of (K_AAAA n a) = S_AAAA n a"
| "slot_of (K_SRV n) = S_SRV (fq_name n)"
| "slot_of (K_TXT n) = S_TXT (fq_name n)"
| "slot_of (K_PTR p) = S_PTR p"

fun holds :: "Store \<Rightarrow> slot \<Rightarrow> bool" where
  "holds st (S_A n a) = (a \<in> entry_or_default n (ipv4s st))"
| "holds st (S_AAAA n a) = (a \<in> entry_or_default n (ipv6s st))"
| "holds st (S_SRV s) = hm_contains (srvs st) s"
| "holds st (S_TXT s) = hm_contains (txts st) s"
| "holds st (S_PTR p) = (p \<in> set (ptrs st))"

lemma entry_insert [simp]:
  "entry_or_default n (hm_insert n' s m) = (if n = n' then s else entry_or_default n m)"
  by (simp add: entry_or_default_def)

lemma entry_remove_addr [simp]:
  "entry_or_default n (remove_addr n' a m) = (if n = n' then entry_or_default n m - {a} else entry_or_default n m)"
  by (auto simp: remove_addr_def Let_def hm_contains_iff entry_or_default_def split: option.splits)

lemma holds_add: "holds (Store_add p st) s \<longleftrightarrow> s = slot_of (RRPayload_key p) \<or> holds st s"
  by (cases p; cases s) (auto simp: hm_contains_iff)

lemma holds_remove: "holds (Store_remove p st) s \<longleftrightarrow> s \<noteq> slot_of (RRPayload_key p) \<and> holds st s"
  by (cases p; cases s) (auto simp: hm_contains_iff)

lemma holds_empty [simp]: "\<not> holds Store_new s" "\<not> holds (Store_clear st) s"
  by (cases s; simp add: Store_new_def Store_clear_def entry_or_default_def hm_contains_def)+

text \<open>The maps of a store have one entry per key and no empty set of addresses.\<close>

definition addrs_ok :: "(rstr, 'a set) hash_map \<Rightarrow> bool" where
  "addrs_ok m \<longleftrightarrow> hm_ok m \<and> (\<forall>n. hm_get m n \<noteq> Some {})"

definition Store_wf :: "Store \<Rightarrow> bool" where
  "Store_wf st \<longleftrightarrow> distinct (ptrs st) \<and> hm_ok (srvs st) \<and> addrs_ok (ipv4s st) \<and> addrs_ok (ipv6s st) \<and> hm_ok (txts st)"

lemma addrs_ok_insert [simp]: "addrs_ok m \<Longrightarrow> addrs_ok (hm_insert n (insert a s) m)"
  by (simp add: addrs_ok_def)

lemma addrs_ok_remove [simp]: "addrs_ok m \<Longrightarrow> addrs_ok (remove_addr n a m)"
  by (auto simp: addrs_ok_def remove_addr_def Let_def)

lemma Store_wf_ops:
  "Store_wf Store_new" "Store_wf (Store_clear st)"
  "Store_wf st \<Longrightarrow> Store_wf (Store_add p st)" "Store_wf st \<Longrightarrow> Store_wf (Store_remove p st)"
  by (cases p; simp add: Store_wf_def Store_new_def Store_clear_def addrs_ok_def [where m = "[]"])+

lemma snapshot_from_get:
  "hm_get (snapshot_from st fqs services) fq =
     (if fq \<in> set fqs \<and> instance_details st fq \<noteq> None then instance_details st fq else hm_get services fq)"
  by (induction fqs arbitrary: services) (auto split: option.split)

lemma snapshot_get: "hm_get (snapshot st) fq = (if fq \<in> set (ptrs st) then instance_details st fq else None)"
  by (simp add: snapshot_def snapshot_from_get)

lemma snapshot_from_ok: "hm_ok services \<Longrightarrow> hm_ok (snapshot_from st fqs services)"
  by (induction fqs arbitrary: services) (auto split: option.split)

lemma snapshot_ok [simp]: "hm_ok (snapshot st)"
  by (simp add: snapshot_def snapshot_from_ok)

lemma instance_details_iff:
  "instance_details st fq = Some d \<longleftrightarrow>
     (hm_get (srvs st) (fq_name fq) = Some (hostname d, port d) \<and>
      det_ipv4s d = entry_or_default (hostname d) (ipv4s st) \<and>
      det_ipv6s d = entry_or_default (hostname d) (ipv6s st) \<and>
      (det_ipv4s d \<noteq> {} \<or> det_ipv6s d \<noteq> {}) \<and>
      det_txt d = (case hm_get (txts st) (fq_name fq) of Some t \<Rightarrow> t | None \<Rightarrow> Mapping.empty))"
  by (cases d) (auto simp: instance_details_def entry_or_default_def Let_def split: option.splits prod.splits if_splits)

text \<open>
  A snapshot reports an instance exactly when the store has its pointer and service record and at
  least one address of the host the service record names; it reports that host and port, all known
  addresses of the host and the text attributes of the instance.\<close>

theorem snapshot_spec:
  "hm_get (snapshot st) fq = Some d \<longleftrightarrow>
     (fq \<in> set (ptrs st) \<and> hm_get (srvs st) (fq_name fq) = Some (hostname d, port d) \<and>
      det_ipv4s d = entry_or_default (hostname d) (ipv4s st) \<and>
      det_ipv6s d = entry_or_default (hostname d) (ipv6s st) \<and>
      (det_ipv4s d, det_ipv6s d) \<noteq> ({}, {}) \<and>
      det_txt d = (case hm_get (txts st) (fq_name fq) of Some t \<Rightarrow> t | None \<Rightarrow> Mapping.empty))"
  by (auto simp: snapshot_get instance_details_iff)

end
