(* ===== verification/Zero_Config.thy ===== *)
theory Zero_Config
  imports Mdns_Store
begin

text \<open>
  The mDNS service resolver, \<open>crates/adb-mdns/src/zero_config.rs\<close>: it files the records of received
  packets, probes and expires them as their time to live runs out, and reports services that appear,
  change or go away. The DNS packet types are those of the \<open>simple_dns\<close> crate; what the resolver asks
  of them is the parameter \<open>simple_dns\<close>. The attention loop is a partial function, since it may fail
  to end.
\<close>

section \<open>The model\<close>

record ('n, 't) simple_dns =
  get_labels :: "'n \<Rightarrow> rstr list"
  name_to_string :: "'n \<Rightarrow> rstr"
  txt_attributes :: "'t \<Rightarrow> (rstr \<times> rstr option) list"

datatype ('n, 't) RData = A u32 | AAAA "128 word" | SRV 'n u16 | TXT 't | PTR 'n | OtherData

record ('n, 't) ResourceRecord =
  record_name :: 'n
  record_ttl :: u32
  rdata :: "('n, 't) RData"

datatype QTYPE = TYPE_A | TYPE_AAAA | TYPE_SRV | TYPE_TXT | TYPE_PTR | ANY | OtherType u16

record 'n Question =
  qname :: 'n
  qtype :: QTYPE

text \<open>Every query the resolver sends has the class \<open>ANY\<close>.\<close>

record DnsQuery =
  query_name :: rstr
  query_type :: QTYPE

datatype ZeroConfigCommand =
    DnsQueries "DnsQuery list"
  | CreateService rstr rstr rstr "u32 set" "128 word set" u16 TxtAttributes
  | UpdateService rstr rstr rstr "u32 set" "128 word set" u16 TxtAttributes
  | DeleteService rstr rstr
  | Restart

record TrackedService =
  service_name :: rstr
  ts_local :: rstr
  next_query_time :: nat

record ZeroConfig =
  commands :: "ZeroConfigCommand list"
  tracked_services :: "(ServiceTypeWithLocal, TrackedService) hash_map"
  attention_list :: attention_list
  store :: Store
  now :: nat
  last_snap_shot :: Services
  periodic_refresh :: bool
  question_requests :: "DnsQuery list"

definition FQServiceName_try_from :: "('n, 't) simple_dns \<Rightarrow> 'n \<Rightarrow> FQServiceName option" where
  "FQServiceName_try_from dns nm =
     (case get_labels dns nm of
        [inst, service, protocol, domain] \<Rightarrow> Some (FQServiceName_new inst (service @ str ''.'' @ protocol) domain)
      | _ \<Rightarrow> None)"

definition TLS_CONNECT_SERVICE :: rstr where "TLS_CONNECT_SERVICE = str ''_adb-tls-connect._tcp''"
definition TLS_PAIRING_SERVICE :: rstr where "TLS_PAIRING_SERVICE = str ''_adb-tls-pairing._tcp''"
definition TCP_CONNECT_SERVICE :: rstr where "TCP_CONNECT_SERVICE = str ''_adb._tcp''"

definition TRACKER_SERVICE_REFRESH_INTERVAL :: nat where
  "TRACKER_SERVICE_REFRESH_INTERVAL = 120 * 10 ^ 9"

definition TrackedService_new :: "rstr \<Rightarrow> rstr \<Rightarrow> nat \<Rightarrow> TrackedService" where
  "TrackedService_new nm loc t = \<lparr>service_name = nm, ts_local = loc, next_query_time = t\<rparr>"

definition TrackedService_refresh :: "nat \<Rightarrow> TrackedService \<Rightarrow> TrackedService" where
  "TrackedService_refresh t s = s\<lparr>next_query_time := t + TRACKER_SERVICE_REFRESH_INTERVAL\<rparr>"

definition TrackedService_reset :: "nat \<Rightarrow> TrackedService \<Rightarrow> TrackedService" where
  "TrackedService_reset t s = s\<lparr>next_query_time := t\<rparr>"

definition TrackedService_into :: "TrackedService \<Rightarrow> ServiceTypeWithLocal" where
  "TrackedService_into s = ServiceTypeWithLocal (service_name s @ str ''.'' @ ts_local s)"

definition track_service :: "rstr \<Rightarrow> ZeroConfig \<Rightarrow> ZeroConfig" where
  "track_service service z =
     (let t = TrackedService_new service (str ''local'') (now z) in
      z\<lparr>tracked_services := hm_insert (TrackedService_into t) t (tracked_services z)\<rparr>)"

definition ZeroConfig_new :: "nat \<Rightarrow> ZeroConfig" where
  "ZeroConfig_new t =
     (let z = \<lparr>commands = [], tracked_services = [], attention_list = pq_new, store = Store_new, now = t,
               last_snap_shot = [], periodic_refresh = False, question_requests = []\<rparr>;
          z = track_service TLS_CONNECT_SERVICE z;
          z = track_service TLS_PAIRING_SERVICE z
      in track_service TCP_CONNECT_SERVICE z)"

definition set_periodic_refresh :: "bool \<Rightarrow> ZeroConfig \<Rightarrow> ZeroConfig" where
  "set_periodic_refresh b z = z\<lparr>periodic_refresh := b\<rparr>"

definition set_time :: "nat \<Rightarrow> ZeroConfig \<Rightarrow> ZeroConfig" where
  "set_time t z = z\<lparr>now := t\<rparr>"

definition on_start :: "ZeroConfig \<Rightarrow> ZeroConfig" where
  "on_start z = z\<lparr>tracked_services := map (map_prod id (TrackedService_reset (now z))) (tracked_services z)\<rparr>"

fun refresh_due ::
  "nat \<Rightarrow> (ServiceTypeWithLocal, TrackedService) hash_map \<Rightarrow> DnsQuery list \<Rightarrow>
   (ServiceTypeWithLocal, TrackedService) hash_map \<times> DnsQuery list" where
  "refresh_due t [] qs = ([], qs)"
| "refresh_due t ((ServiceTypeWithLocal nm, s) # ts) qs =
     (if next_query_time s > t then
        (let (ts', qs') = refresh_due t ts qs in ((ServiceTypeWithLocal nm, s) # ts', qs'))
      else
        (let (ts', qs') = refresh_due t ts (qs @ [\<lparr>query_name = nm, query_type = ANY\<rparr>])
         in ((ServiceTypeWithLocal nm, TrackedService_refresh t s) # ts', qs')))"

definition tick_tracker_services :: "ZeroConfig \<Rightarrow> ZeroConfig" where
  "tick_tracker_services z =
     (if \<not> periodic_refresh z then z
      else let (ts, qs) = refresh_due (now z) (tracked_services z) (question_requests z)
           in z\<lparr>tracked_services := ts, question_requests := qs\<rparr>)"

definition add_rr :: "RR \<Rightarrow> ZeroConfig \<Rightarrow> (ZeroConfig, unit) outcome" where
  "add_rr rr z =
     and_then (pq_push rr_ops rr (attention_list z)) (\<lambda>q.
       Ok (z\<lparr>attention_list := q, store := Store_add (rr_payload rr) (store z)\<rparr>))"

fun process_queries :: "('n, 't) simple_dns \<Rightarrow> 'n Question list \<Rightarrow> ZeroConfig \<Rightarrow> ZeroConfig" where
  "process_queries dns [] z = z"
| "process_queries dns (q # qs) z =
     (if qtype q \<noteq> ANY then process_queries dns qs z
      else
        let nm = ServiceTypeWithLocal (name_to_string dns (qname q)) in
        case hm_get (tracked_services z) nm of
          Some s \<Rightarrow> process_queries dns qs
            (z\<lparr>tracked_services := hm_insert nm (TrackedService_refresh (now z) s) (tracked_services z)\<rparr>)
        | None \<Rightarrow> process_queries dns qs z)"

text \<open>\<open>Duration::from_secs(record.ttl as u64)\<close> in nanoseconds.\<close>

definition ttl_duration :: "u32 \<Rightarrow> nat" where
  "ttl_duration ttl = unat ttl * 10 ^ 9"

fun insert_attributes :: "(rstr \<times> rstr option) list \<Rightarrow> TxtAttributes \<Rightarrow> TxtAttributes" where
  "insert_attributes [] m = m"
| "insert_attributes ((k, v) # kvs) m =
     insert_attributes kvs (Mapping.update k (case v of Some s \<Rightarrow> s | None \<Rightarrow> []) m)"

text \<open>The payload of one received record; records of services that are not tracked are skipped.\<close>

definition record_payload ::
  "('n, 't) simple_dns \<Rightarrow> (ServiceTypeWithLocal, TrackedService) hash_map \<Rightarrow> ('n, 't) ResourceRecord \<Rightarrow>
   RRPayload option" where
  "record_payload dns tracked r =
     (case rdata r of
        PTR p \<Rightarrow>
          (case FQServiceName_try_from dns p of
             None \<Rightarrow> None
           | Some pointer \<Rightarrow>
               if \<not> hm_contains tracked (service_type_with_local pointer) then None
               else Some (RR_PTR (name_to_string dns (record_name r)) pointer))
      | SRV target p \<Rightarrow>
          (case FQServiceName_try_from dns (record_name r) of
             None \<Rightarrow> None
           | Some nm \<Rightarrow>
               if \<not> hm_contains tracked (service_type_with_local nm) then None
               else Some (RR_SRV nm (name_to_string dns target) p))
      | A ip \<Rightarrow> Some (RR_A (name_to_string dns (record_name r)) ip)
      | AAAA ip \<Rightarrow> Some (RR_AAAA (name_to_string dns (record_name r)) ip)
      | TXT t \<Rightarrow>
          (let attributes = insert_attributes (txt_attributes dns t) Mapping.empty in
           case FQServiceName_try_from dns (record_name r) of
             None \<Rightarrow> None
           | Some nm \<Rightarrow>
               if \<not> hm_contains tracked (service_type_with_local nm) then None
               else Some (RR_TXT nm attributes))
      | OtherData \<Rightarrow> None)"

fun process_records ::
  "('n, 't) simple_dns \<Rightarrow> ('n, 't) ResourceRecord list \<Rightarrow> ZeroConfig \<Rightarrow> (ZeroConfig, unit) outcome" where
  "process_records dns [] z = Ok z"
| "process_records dns (r # rs) z =
     (case record_payload dns (tracked_services z) r of
        None \<Rightarrow> process_records dns rs z
      | Some p \<Rightarrow>
          and_then (add_rr (RR_new (now z) (ttl_duration (record_ttl r)) p) z) (process_records dns rs))"

definition push_records ::
  "('n, 't) simple_dns \<Rightarrow> 'n Question list \<Rightarrow> ('n, 't) ResourceRecord list \<Rightarrow> ('n, 't) ResourceRecord list \<Rightarrow>
   ('n, 't) ResourceRecord list \<Rightarrow> ZeroConfig \<Rightarrow> (ZeroConfig, unit) outcome" where
  "push_records dns questions answers additional nameserver z =
     (let z = process_queries dns questions z;
          all_records = answers @ additional @ nameserver
      in if all_records \<noteq> [] then process_records dns all_records z else Ok z)"

definition create_command :: "FQServiceName \<Rightarrow> InstanceDetails \<Rightarrow> ZeroConfigCommand" where
  "create_command fq d = CreateService (instance_name fq) (service_type fq) (hostname d) (det_ipv4s d)
     (det_ipv6s d) (port d) (det_txt d)"

definition update_command :: "FQServiceName \<Rightarrow> InstanceDetails \<Rightarrow> ZeroConfigCommand" where
  "update_command fq d = UpdateService (instance_name fq) (service_type fq) (hostname d) (det_ipv4s d)
     (det_ipv6s d) (port d) (det_txt d)"

definition delete_command :: "FQServiceName \<Rightarrow> ZeroConfigCommand" where
  "delete_command fq = DeleteService (instance_name fq) (service_type fq)"

text \<open>The commands for the services of a snapshot, and for the ones it no longer has.\<close>

definition present_commands :: "Services \<Rightarrow> Services \<Rightarrow> ZeroConfigCommand list" where
  "present_commands old snap =
     concat (map (\<lambda>(fq, d). case hm_get old fq of
         None \<Rightarrow> [create_command fq d]
       | Some other \<Rightarrow> if d \<noteq> other then [update_command fq d] else []) snap)"

definition absent_commands :: "Services \<Rightarrow> Services \<Rightarrow> ZeroConfigCommand list" where
  "absent_commands old snap =
     concat (map (\<lambda>(fq, _). if \<not> hm_contains snap fq then [delete_command fq] else []) old)"

definition create_diff_commands :: "ZeroConfig \<Rightarrow> ZeroConfig" where
  "create_diff_commands z =
     (let snap = snapshot (store z) in
      z\<lparr>commands := commands z @ present_commands (last_snap_shot z) snap @ absent_commands (last_snap_shot z) snap,
        last_snap_shot := snap\<rparr>)"

definition convert_dns_query_to_command :: "ZeroConfig \<Rightarrow> ZeroConfig" where
  "convert_dns_query_to_command z =
     (if question_requests z = [] then z
      else z\<lparr>commands := commands z @ [DnsQueries (question_requests z)], question_requests := []\<rparr>)"

definition create_query_for_record :: "RR \<Rightarrow> DnsQuery" where
  "create_query_for_record rr =
     (case rr_payload rr of
        RR_A nm _ \<Rightarrow> \<lparr>query_name = nm, query_type = TYPE_A\<rparr>
      | RR_AAAA nm _ \<Rightarrow> \<lparr>query_name = nm, query_type = TYPE_AAAA\<rparr>
      | RR_SRV nm _ _ \<Rightarrow> \<lparr>query_name = fq_name nm, query_type = TYPE_SRV\<rparr>
      | RR_TXT nm _ \<Rightarrow> \<lparr>query_name = fq_name nm, query_type = TYPE_TXT\<rparr>
      | RR_PTR nm _ \<Rightarrow> \<lparr>query_name = nm, query_type = TYPE_PTR\<rparr>)"

text \<open>The attention loop of \<open>tick\<close>: the state a due record moves to, or \<open>None\<close> when it is dropped.\<close>

definition lifecycle_fraction :: "nat \<Rightarrow> RR \<Rightarrow> f64" where
  "lifecycle_fraction t element = f64_div (as_secs_f64 (t - created_on element)) (as_secs_f64 (rr_ttl element))"

definition next_lifecycle_state :: "f64 \<Rightarrow> RRLifecycle option" where
  "next_lifecycle_state lf =
     (if \<not> (f64_ge lf 0 \<and> f64_less lf 1) then None
      else if f64_ge lf (rnd (95 / 100)) then Some Probed95
      else if f64_ge lf (rnd (90 / 100)) then Some Probed90
      else if f64_ge lf (rnd (85 / 100)) then Some Probed85
      else if f64_ge lf (rnd (80 / 100)) then Some Probed80
      else None)"

definition probe_time :: "nat \<Rightarrow> RRLifecycle \<Rightarrow> nat" where
  "probe_time ttl state = from_secs_f64 (f64_mult (as_secs_f64 ttl) (next_ttl_fraction state))"

definition probed :: "RRLifecycle \<Rightarrow> RR \<Rightarrow> RR" where
  "probed state element = element\<lparr>attention_needed_on := created_on element + probe_time (rr_ttl element) state,
     lifecycle_state := state\<rparr>"

definition attend_element :: "RR \<Rightarrow> ZeroConfig \<Rightarrow> (ZeroConfig, unit) outcome" where
  "attend_element element z =
     (case next_lifecycle_state (lifecycle_fraction (now z) element) of
        None \<Rightarrow> Ok (z\<lparr>store := Store_remove (rr_payload element) (store z)\<rparr>)
      | Some state \<Rightarrow>
          (let rr = probed state element;
               z' = z\<lparr>question_requests := question_requests z @ [create_query_for_record rr]\<rparr>
           in and_then (pq_push rr_ops rr (attention_list z')) (\<lambda>q. Ok (z'\<lparr>attention_list := q\<rparr>))))"

text \<open>One turn of the \<open>while let\<close> loop: \<open>None\<close> when it is left.\<close>

definition attend_once :: "ZeroConfig \<Rightarrow> (ZeroConfig option, unit) outcome" where
  "attend_once z =
     (case pq_peek (attention_list z) of
        None \<Rightarrow> Ok None
      | Some front \<Rightarrow>
          if attention_needed_on front > now z then Ok None
          else
            and_then (pq_pop rr_ops (attention_list z)) (\<lambda>(element, q).
              case element of
                None \<Rightarrow> Panic
              | Some e \<Rightarrow> and_then (attend_element e (z\<lparr>attention_list := q\<rparr>)) (\<lambda>z'. Ok (Some z'))))"

partial_function (option) attend :: "ZeroConfig \<Rightarrow> (ZeroConfig, unit) outcome option" where
  "attend z =
     (case attend_once z of
        Ok None \<Rightarrow> Some (Ok z)
      | Ok (Some z') \<Rightarrow> attend z'
      | Err e \<Rightarrow> Some (Err e)
      | Panic \<Rightarrow> Some Panic)"

text \<open>\<open>saturating_duration_since\<close> and \<open>duration_since\<close> are zero when the other instant is later.\<close>

definition calculate_next_attention_duration :: "ZeroConfig \<Rightarrow> nat" where
  "calculate_next_attention_duration z =
     (let duration = (case pq_peek (attention_list z) of
            Some rr \<Rightarrow> attention_needed_on rr - now z | None \<Rightarrow> 60 * 10 ^ 9)
      in if \<not> periodic_refresh z then duration
         else case map (next_query_time \<circ> snd) (tracked_services z) of
                [] \<Rightarrow> duration
              | t # ts \<Rightarrow> (let next_service = fold min ts t - now z in
                          if next_service < duration then next_service else duration))"

definition tick ::
  "ZeroConfig \<Rightarrow> ((ZeroConfigCommand list \<times> nat) \<times> ZeroConfig, unit) outcome option" where
  "tick z =
     map_option (\<lambda>r. and_then r (\<lambda>z.
       let z = create_diff_commands z;
           z = tick_tracker_services z;
           z = convert_dns_query_to_command z
       in Ok ((commands z, calculate_next_attention_duration z), z\<lparr>commands := []\<rparr>))) (attend z)"

definition on_stop :: "ZeroConfig \<Rightarrow> (ZeroConfigCommand list \<times> ZeroConfig, unit) outcome option" where
  "on_stop z =
     map_option (\<lambda>r. and_then r (\<lambda>((cs, _), z). Ok (cs, z)))
       (tick (z\<lparr>attention_list := pq_clear (attention_list z), store := Store_clear (store z)\<rparr>))"

section \<open>The state invariant\<close>

text \<open>
  Everything the store holds is on the attention list, so it will be probed and expire: no record
  outlives the queue.
\<close>

definition covered :: "Store \<Rightarrow> attention_list \<Rightarrow> bool" where
  "covered st q \<longleftrightarrow> (\<forall>s. holds st s \<longrightarrow> (\<exists>k. slot_of k = s \<and> pq_contents q k \<noteq> None))"

definition zc_inv :: "ZeroConfig \<Rightarrow> bool" where
  "zc_inv z \<longleftrightarrow> pq_invar rr_ops attention_needed_on (attention_list z) \<and> Store_wf (store z) \<and>
     covered (store z) (attention_list z)"

lemma covered_add:
  assumes "covered st q" and "pq_contents q' = (pq_contents q)(RRPayload_key p \<mapsto> r)"
  shows "covered (Store_add p st) q'"
  unfolding covered_def
proof (intro allI impI)
  fix s
  assume "holds (Store_add p st) s"
  then consider "s = slot_of (RRPayload_key p)" | "holds st s" by (auto simp: holds_add)
  then show "\<exists>k. slot_of k = s \<and> pq_contents q' k \<noteq> None"
  proof cases
    case 1
    then show ?thesis using assms(2) by (intro exI [of _ "RRPayload_key p"]) simp
  next
    case 2
    then obtain k where "slot_of k = s" "pq_contents q k \<noteq> None" using assms(1) by (auto simp: covered_def)
    then show ?thesis using assms(2) by (intro exI [of _ k]) simp
  qed
qed

lemma covered_mono:
  assumes "covered st q" and "\<And>k. pq_contents q k \<noteq> None \<Longrightarrow> pq_contents q' k \<noteq> None"
  shows "covered st q'"
  using assms unfolding covered_def by blast

lemma covered_remove:
  assumes "covered st q" and "pq_contents q' = (pq_contents q)(RRPayload_key p := None)"
  shows "covered (Store_remove p st) q'"
  unfolding covered_def
proof (intro allI impI)
  fix s
  assume "holds (Store_remove p st) s"
  then have s: "s \<noteq> slot_of (RRPayload_key p)" "holds st s" by (auto simp: holds_remove)
  then obtain k where "slot_of k = s" "pq_contents q k \<noteq> None" using assms(1) by (auto simp: covered_def)
  with s(1) show "\<exists>k. slot_of k = s \<and> pq_contents q' k \<noteq> None"
    using assms(2) by (intro exI [of _ k]) auto
qed

lemma zc_inv_new: "zc_inv (ZeroConfig_new t)"
  using rrq.empty_spec
  by (simp add: ZeroConfig_new_def track_service_def Let_def zc_inv_def Store_wf_ops covered_def)

lemma add_rr_ok:
  assumes "zc_inv z"
  shows "\<exists>z'. add_rr rr z = Ok z' \<and> zc_inv z'"
proof -
  have q: "pq_invar rr_ops attention_needed_on (attention_list z)" using assms by (simp add: zc_inv_def)
  obtain q' where q': "pq_push rr_ops rr (attention_list z) = (Ok q' :: (attention_list, unit) outcome)"
    "pq_invar rr_ops attention_needed_on q'"
    "pq_contents q' = (pq_contents (attention_list z))(RRPayload_key (rr_payload rr) \<mapsto> rr)"
    using rrq.push_spec [OF q, of rr] by auto
  have "covered (Store_add (rr_payload rr) (store z)) q'"
    using covered_add [OF _ q'(3)] assms by (simp add: zc_inv_def)
  with q' assms show ?thesis by (simp add: add_rr_def zc_inv_def Store_wf_ops)
qed

lemma process_records_ok: "zc_inv z \<Longrightarrow> \<exists>z'. process_records dns rs z = Ok z' \<and> zc_inv z'"
proof (induction rs arbitrary: z)
  case (Cons r rs)
  show ?case
  proof (cases "record_payload dns (tracked_services z) r")
    case None
    then show ?thesis using Cons by simp
  next
    case (Some p)
    obtain z' where "add_rr (RR_new (now z) (ttl_duration (record_ttl r)) p) z = Ok z'" "zc_inv z'"
      using add_rr_ok [OF Cons.prems] by blast
    then show ?thesis using Some Cons.IH [of z'] by simp
  qed
qed simp

lemma process_queries_frame:
  "store (process_queries dns qs z) = store z \<and> attention_list (process_queries dns qs z) = attention_list z \<and>
   now (process_queries dns qs z) = now z"
  by (induction dns qs z rule: process_queries.induct) (auto simp: Let_def split: option.splits)

lemma push_records_ok:
  assumes "zc_inv z"
  shows "\<exists>z'. push_records dns questions answers additional nameserver z = Ok z' \<and> zc_inv z'"
proof -
  have "zc_inv (process_queries dns questions z)"
    using assms process_queries_frame [of dns questions z] by (simp add: zc_inv_def)
  then show ?thesis using process_records_ok by (auto simp: push_records_def Let_def)
qed

section \<open>The attention loop\<close>

text \<open>A record makes progress when probing it at time \<open>t\<close> puts it off beyond \<open>t\<close>.\<close>

definition progresses :: "nat \<Rightarrow> RR \<Rightarrow> bool" where
  "progresses t r \<longleftrightarrow>
     (case next_lifecycle_state (lifecycle_fraction t r) of
        None \<Rightarrow> True | Some state \<Rightarrow> t < attention_needed_on (probed state r))"

text \<open>The records due at time \<open>t\<close>.\<close>

definition due :: "nat \<Rightarrow> attention_list \<Rightarrow> rr_key set" where
  "due t q = {k. \<exists>r. pq_contents q k = Some r \<and> attention_needed_on r \<le> t}"

lemma probed_payload [simp]: "rr_payload (probed state r) = rr_payload r"
  by (simp add: probed_def)

text \<open>One turn of the loop on the record at the front.\<close>

lemma attend_turn:
  assumes inv: "zc_inv z" and front: "pq_peek (attention_list z) = Some e"
  obtains q z' where "pq_pop rr_ops (attention_list z) = (Ok (Some e, q) :: (RR option \<times> attention_list, unit) outcome)"
    and "attend_element e (z\<lparr>attention_list := q\<rparr>) = Ok z'" and "zc_inv z'" and "now z' = now z"
    and "pq_contents (attention_list z') = (pq_contents (attention_list z))(RRPayload_key (rr_payload e) :=
           map_option (\<lambda>state. probed state e) (next_lifecycle_state (lifecycle_fraction (now z) e)))"
    and "commands z' = commands z \<and> tracked_services z' = tracked_services z \<and>
         last_snap_shot z' = last_snap_shot z \<and> periodic_refresh z' = periodic_refresh z"
proof -
  let ?k = "RRPayload_key (rr_payload e)" let ?C = "pq_contents (attention_list z)"
  have q0: "pq_invar rr_ops attention_needed_on (attention_list z)" using inv by (simp add: zc_inv_def)
  obtain q where q: "pq_pop rr_ops (attention_list z) = (Ok (Some e, q) :: (RR option \<times> attention_list, unit) outcome)"
    "pq_invar rr_ops attention_needed_on q" "pq_contents q = ?C(?k := None)"
    using rrq.pop_spec [OF q0 front] by auto
  show thesis
  proof (cases "next_lifecycle_state (lifecycle_fraction (now z) e)")
    case None
    let ?z = "z\<lparr>attention_list := q, store := Store_remove (rr_payload e) (store z)\<rparr>"
    have "zc_inv ?z"
      using inv q(2) covered_remove [OF _ q(3)] by (simp add: zc_inv_def Store_wf_ops)
    then show thesis
      by (intro that [OF q(1), of ?z]) (simp_all add: None attend_element_def q(3))
  next
    case (Some state)
    let ?r = "probed state e"
    obtain q' where q': "pq_push rr_ops ?r q = (Ok q' :: (attention_list, unit) outcome)"
      "pq_invar rr_ops attention_needed_on q'" "pq_contents q' = ?C(?k \<mapsto> ?r)"
      using rrq.push_spec [OF q(2), of ?r] q(3) by auto
    let ?z = "z\<lparr>attention_list := q', question_requests := question_requests z @ [create_query_for_record ?r]\<rparr>"
    have "zc_inv ?z"
      using inv q'(2) covered_mono [of "store z" "attention_list z" q'] q'(3) by (simp add: zc_inv_def)
    moreover have elem: "attend_element e (z\<lparr>attention_list := q\<rparr>) = Ok ?z"
      using Some q'(1) by (simp add: attend_element_def Let_def)
    ultimately show thesis
      by (intro that [OF q(1) elem]) (simp_all add: Some q'(3))
  qed
qed

text \<open>The loop as a recursion over its turns.\<close>

lemma attend_cases:
  assumes "zc_inv z"
  obtains (finished) "attend_once z = Ok None" and "due (now z) (attention_list z) = {}"
  | (turn) e z' where "attend_once z = Ok (Some z')" and "zc_inv z'" and "now z' = now z"
      and "pq_contents (attention_list z) (RRPayload_key (rr_payload e)) = Some e" and "attention_needed_on e \<le> now z"
      and "pq_contents (attention_list z') = (pq_contents (attention_list z))(RRPayload_key (rr_payload e) :=
             map_option (\<lambda>state. probed state e) (next_lifecycle_state (lifecycle_fraction (now z) e)))"
      and "commands z' = commands z \<and> tracked_services z' = tracked_services z \<and>
         last_snap_shot z' = last_snap_shot z \<and> periodic_refresh z' = periodic_refresh z"
proof -
  have q0: "pq_invar rr_ops attention_needed_on (attention_list z)" using assms by (simp add: zc_inv_def)
  show thesis
  proof (cases "pq_peek (attention_list z)")
    case None
    then have "due (now z) (attention_list z) = {}" using rrq.peek_None [OF q0] by (simp add: due_def)
    with None show thesis by (intro finished) (simp_all add: attend_once_def)
  next
    case (Some e)
    show thesis
    proof (cases "attention_needed_on e > now z")
      case True
      then have "due (now z) (attention_list z) = {}"
        using rrq.front_not_due [OF q0 Some True] by (auto simp: due_def not_le)
      with Some True show thesis by (intro finished) (simp_all add: attend_once_def)
    next
      case False
      have ck: "pq_contents (attention_list z) (RRPayload_key (rr_payload e)) = Some e"
        using rrq.peek_Some [OF q0 Some] by simp
      show thesis
      proof (rule attend_turn [OF assms Some])
        fix q z'
        assume t: "pq_pop rr_ops (attention_list z) = (Ok (Some e, q) :: (RR option \<times> attention_list, unit) outcome)"
          "attend_element e (z\<lparr>attention_list := q\<rparr>) = Ok z'" "zc_inv z'" "now z' = now z"
          "pq_contents (attention_list z') = (pq_contents (attention_list z))(RRPayload_key (rr_payload e) :=
             map_option (\<lambda>state. probed state e) (next_lifecycle_state (lifecycle_fraction (now z) e)))"
          "commands z' = commands z \<and> tracked_services z' = tracked_services z \<and>
            last_snap_shot z' = last_snap_shot z \<and> periodic_refresh z' = periodic_refresh z"
        have "attend_once z = Ok (Some z')" using Some False t(1,2) by (simp add: attend_once_def)
        from turn [OF this t(3,4) ck _ t(5,6)] False show thesis by simp
      qed
    qed
  qed
qed

text \<open>
  When every due record makes progress, the loop ends, and no record is due any more.
\<close>

lemma attend_ends:
  assumes "zc_inv z"
    and "\<forall>r \<in> ran (pq_contents (attention_list z)). attention_needed_on r \<le> now z \<longrightarrow> progresses (now z) r"
  shows "\<exists>z'. attend z = Some (Ok z')"
  using assms
proof (induction "card (due (now z) (attention_list z))" arbitrary: z rule: less_induct)
  case less
  show ?case
  proof (rule attend_cases [OF less.prems(1)])
    fix e :: RR and z'
    let ?k = "RRPayload_key (rr_payload e)"
    assume t: "attend_once z = Ok (Some z')" "zc_inv z'" "now z' = now z"
      "pq_contents (attention_list z) ?k = Some e" "attention_needed_on e \<le> now z"
      "pq_contents (attention_list z') = (pq_contents (attention_list z))(?k :=
         map_option (\<lambda>state. probed state e) (next_lifecycle_state (lifecycle_fraction (now z) e)))"
    have "progresses (now z) e" using less.prems(2) t(4,5) by (simp add: ranI)
    then have new: "now z < attention_needed_on r" if "pq_contents (attention_list z') ?k = Some r" for r
      using that by (auto simp: t(6) progresses_def split: option.splits)
    have "due (now z) (attention_list z') = due (now z) (attention_list z) - {?k}"
      using new t(6) by (auto simp: due_def not_le split: if_splits)
    moreover have "?k \<in> due (now z) (attention_list z)" using t(4,5) by (auto simp: due_def)
    moreover have "finite (due (now z) (attention_list z))"
      using less.prems(1) by (intro finite_subset [OF _ rrq.contents_finite]) (auto simp: due_def zc_inv_def)
    ultimately have fewer: "card (due (now z') (attention_list z')) < card (due (now z) (attention_list z))"
      unfolding t(3) by (metis card_Diff1_less)
    have "\<forall>r \<in> ran (pq_contents (attention_list z')). attention_needed_on r \<le> now z' \<longrightarrow> progresses (now z') r"
      using less.prems(2) new unfolding t(3) ran_def
      by (auto simp: t(6) split: if_splits)
    from less.hyps [OF fewer t(2) this] t(1) show ?thesis by (simp add: attend.simps [of z])
  qed (auto simp: attend.simps [of z])
qed

text \<open>Whatever it returns is a state that satisfies the invariant and has nothing due.\<close>

lemma attend_sound:
  assumes "attend z = Some r" and "zc_inv z"
  shows "\<exists>z'. r = Ok z' \<and> zc_inv z' \<and> now z' = now z \<and> due (now z) (attention_list z') = {} \<and>
    commands z' = commands z \<and> tracked_services z' = tracked_services z \<and>
    last_snap_shot z' = last_snap_shot z \<and> periodic_refresh z' = periodic_refresh z"
proof -
  let ?P = "\<lambda>z r. zc_inv z \<longrightarrow> (\<exists>z'. r = Ok z' \<and> zc_inv z' \<and> now z' = now z \<and> due (now z) (attention_list z') = {} \<and>
    commands z' = commands z \<and> tracked_services z' = tracked_services z \<and>
    last_snap_shot z' = last_snap_shot z \<and> periodic_refresh z' = periodic_refresh z)"
  have "?P z r"
  proof (rule attend.raw_induct [OF _ assms(1), of ?P], intro impI)
    fix f z r
    assume IH: "\<And>z r. f z = Some r \<Longrightarrow> ?P z r"
      and body: "(case attend_once z of Ok None \<Rightarrow> Some (Ok z) | Ok (Some z') \<Rightarrow> f z'
        | Err e \<Rightarrow> Some (Err e) | Panic \<Rightarrow> Some Panic) = Some r"
      and inv: "zc_inv z"
    from inv show "\<exists>z'. r = Ok z' \<and> zc_inv z' \<and> now z' = now z \<and> due (now z) (attention_list z') = {} \<and>
      commands z' = commands z \<and> tracked_services z' = tracked_services z \<and>
      last_snap_shot z' = last_snap_shot z \<and> periodic_refresh z' = periodic_refresh z"
    proof (cases rule: attend_cases)
      case finished
      with body inv show ?thesis by auto
    next
      case (turn e z')
      with body have "f z' = Some r" by simp
      from IH [OF this] turn show ?thesis by auto
    qed
  qed
  with assms(2) show ?thesis by blast
qed

text \<open>A record that a probe puts back at the current time keeps the loop going for ever.\<close>

lemma attend_diverges:
  assumes "zc_inv z" and "pq_contents (attention_list z) k = Some r" and "attention_needed_on r \<le> now z"
    and "next_lifecycle_state (lifecycle_fraction (now z) r) = Some state"
    and "created_on r + probe_time (rr_ttl r) state \<le> now z"
  shows "attend z = None"
proof -
  define stuck where "stuck z \<longleftrightarrow> (\<exists>r. zc_inv z \<and> pq_contents (attention_list z) k = Some r \<and>
      attention_needed_on r \<le> now z \<and> next_lifecycle_state (lifecycle_fraction (now z) r) = Some state \<and>
      created_on r + probe_time (rr_ttl r) state \<le> now z)" for z
  have "\<not> stuck z" if "attend z = Some res" for z res
  proof (rule attend.raw_induct [OF _ that, of "\<lambda>z res. \<not> stuck z"], rule notI)
    fix f z res
    assume IH: "\<And>z (res :: (ZeroConfig, unit) outcome). f z = Some res \<Longrightarrow> \<not> stuck z"
      and body: "(case attend_once z of Ok None \<Rightarrow> Some (Ok z) | Ok (Some z') \<Rightarrow> f z'
        | Err e \<Rightarrow> Some (Err e) | Panic \<Rightarrow> Some Panic) = Some res"
      and "stuck z"
    from \<open>stuck z\<close> obtain r where z: "zc_inv z" "pq_contents (attention_list z) k = Some r"
      "attention_needed_on r \<le> now z" "next_lifecycle_state (lifecycle_fraction (now z) r) = Some state"
      "created_on r + probe_time (rr_ttl r) state \<le> now z" by (auto simp: stuck_def)
    from z(1) show False
    proof (cases rule: attend_cases)
      case finished
      then show False using z(2,3) by (auto simp: due_def)
    next
      case (turn e z')
      with body have "\<not> stuck z'" by (intro IH [of z' res]) simp
      moreover have "stuck z'"
      proof (cases "RRPayload_key (rr_payload e) = k")
        case True
        then have "pq_contents (attention_list z') k = Some (probed state r)" using turn(4,6) z(2,4) by auto
        then show ?thesis using turn(2,3) z unfolding stuck_def
          by (intro exI [of _ "probed state r"]) (simp add: probed_def lifecycle_fraction_def)
      next
        case False
        then have "pq_contents (attention_list z') k = Some r" using turn(6) z(2) by simp
        then show ?thesis using turn(2,3) z unfolding stuck_def by (intro exI [of _ r]) simp
      qed
      ultimately show False by simp
    qed
  qed
  moreover have "stuck z" using assms by (auto simp: stuck_def)
  ultimately show ?thesis by (cases "attend z") auto
qed

section \<open>Times to live\<close>

text \<open>
  A time to live is regular when the fraction computed at each planned probe reaches the fraction the
  probe was planned for. Rounding makes this fail for some of them.
\<close>

definition regular_ttl :: "nat \<Rightarrow> bool" where
  "regular_ttl ttl = list_all (\<lambda>state.
     f64_ge (f64_div (as_secs_f64 (probe_time ttl state)) (as_secs_f64 ttl)) (next_ttl_fraction state))
     [Probed80, Probed85, Probed90, Probed95]"

lemma lifecycle_fraction_mono:
  assumes "a \<le> b" and "b < 2 ^ 53 * 10 ^ 9"
    and "f64_ge (f64_div (as_secs_f64 a) (as_secs_f64 ttl)) x" and "as_secs_f64 ttl \<noteq> 0"
  shows "f64_ge (f64_div (as_secs_f64 b) (as_secs_f64 ttl)) x"
proof -
  have "as_secs_f64 a / as_secs_f64 ttl \<le> as_secs_f64 b / as_secs_f64 ttl"
    using as_secs_f64_mono [OF assms(1,2)] as_secs_f64_nonneg [of ttl] by (rule divide_right_mono)
  then have "rnd (as_secs_f64 a / as_secs_f64 ttl) \<le> rnd (as_secs_f64 b / as_secs_f64 ttl)"
    by (intro rnd_mono) (simp_all add: as_secs_f64_nonneg)
  with assms(3,4) show ?thesis by (simp add: f64_div_def)
qed

lemma next_lifecycle_state_SomeD:
  assumes "next_lifecycle_state lf = Some state"
  shows "state \<in> {Probed80, Probed85, Probed90, Probed95} \<and> \<not> f64_ge lf (next_ttl_fraction state) \<and>
    (\<exists>x. lf = Fin x)"
  using assms by (cases lf) (auto simp: next_lifecycle_state_def split: if_splits)

lemma regular_progresses:
  assumes "regular_ttl (rr_ttl r)" and "t < 2 ^ 53 * 10 ^ 9"
  shows "progresses t r"
proof (cases "next_lifecycle_state (lifecycle_fraction t r)")
  case (Some state)
  note st = next_lifecycle_state_SomeD [OF Some]
  have ttl0: "as_secs_f64 (rr_ttl r) \<noteq> 0"
    using st unfolding lifecycle_fraction_def f64_div_def by (metis f64.distinct(1,3))
  have reg: "f64_ge (f64_div (as_secs_f64 (probe_time (rr_ttl r) state)) (as_secs_f64 (rr_ttl r))) (next_ttl_fraction state)"
    using assms(1) st unfolding regular_ttl_def list_all_iff by auto
  have bound: "t - created_on r < 2 ^ 53 * 10 ^ 9" using assms(2) by linarith
  have "\<not> probe_time (rr_ttl r) state \<le> t - created_on r"
  proof
    assume "probe_time (rr_ttl r) state \<le> t - created_on r"
    from lifecycle_fraction_mono [OF this bound reg ttl0] st show False
      unfolding lifecycle_fraction_def by blast
  qed
  with Some show ?thesis by (simp add: progresses_def probed_def)
qed (simp add: progresses_def)

text \<open>The literals of the probing schedule.\<close>

lemma fraction_values:
  "rnd (4 / 5) = 3602879701896397 / 4503599627370496" "rnd (17 / 20) = 7656119366529843 / 9007199254740992"
  "rnd (9 / 10) = 8106479329266893 / 9007199254740992" "rnd (19 / 20) = 4278419646001971 / 4503599627370496"
  by (simp_all add: f64_eval)

text \<open>The times to live that adb devices announce are regular, others are not.\<close>

lemma as_secs_values:
  "as_secs_f64 120000000000 = 120" "as_secs_f64 102000000000 = 102" "as_secs_f64 108000000000 = 108"
  "as_secs_f64 114000000000 = 114" "as_secs_f64 4500000000000 = 4500" "as_secs_f64 3825000000000 = 3825"
  "as_secs_f64 4050000000000 = 4050" "as_secs_f64 4275000000000 = 4275" "as_secs_f64 9000000000 = 9"
  by (simp_all add: f64_eval)

lemma probe_times_120:
  "probe_time 120000000000 Probed80 = 102000000000" "probe_time 120000000000 Probed85 = 108000000000"
  "probe_time 120000000000 Probed90 = 114000000000" "probe_time 120000000000 Probed95 = 120000000000"
  by (simp_all add: probe_time_def as_secs_values fraction_values, simp_all add: f64_eval)

lemma probe_times_4500:
  "probe_time 4500000000000 Probed80 = 3825000000000" "probe_time 4500000000000 Probed85 = 4050000000000"
  "probe_time 4500000000000 Probed90 = 4275000000000" "probe_time 4500000000000 Probed95 = 4500000000000"
  by (simp_all add: probe_time_def as_secs_values fraction_values, simp_all add: f64_eval)

lemma regular_120: "regular_ttl 120000000000"
  by (simp add: regular_ttl_def probe_times_120 as_secs_values f64_div_def fraction_values rnd_of_nat [of 1, simplified])

lemma regular_4500: "regular_ttl 4500000000000"
  by (simp add: regular_ttl_def probe_times_4500 as_secs_values f64_div_def fraction_values rnd_of_nat [of 1, simplified])

lemma irregular_9:
  "next_lifecycle_state (f64_div (as_secs_f64 8100000000) (as_secs_f64 9000000000)) = Some Probed85"
  "probe_time 9000000000 Probed85 = 8100000000"
proof -
  have "f64_div (as_secs_f64 8100000000) 9 = Fin (2026619832316723 / 2251799813685248)" by (simp add: f64_eval)
  then show "next_lifecycle_state (f64_div (as_secs_f64 8100000000) (as_secs_f64 9000000000)) = Some Probed85"
    by (simp add: next_lifecycle_state_def as_secs_values fraction_values)
  show "probe_time 9000000000 Probed85 = 8100000000"
    by (simp add: probe_time_def as_secs_values fraction_values) (simp add: f64_eval)
qed

section \<open>Reports to the client\<close>

text \<open>A client that applies the commands keeps a view of the services by instance and type.\<close>

fun apply_command :: "ZeroConfigCommand \<Rightarrow> (rstr \<times> rstr \<rightharpoonup> InstanceDetails) \<Rightarrow> (rstr \<times> rstr \<rightharpoonup> InstanceDetails)" where
  "apply_command (CreateService i s h v4 v6 p t) m =
     m((i, s) \<mapsto> \<lparr>hostname = h, port = p, det_ipv4s = v4, det_ipv6s = v6, det_txt = t\<rparr>)"
| "apply_command (UpdateService i s h v4 v6 p t) m =
     m((i, s) \<mapsto> \<lparr>hostname = h, port = p, det_ipv4s = v4, det_ipv6s = v6, det_txt = t\<rparr>)"
| "apply_command (DeleteService i s) m = m((i, s) := None)"
| "apply_command (DnsQueries qs) m = m"
| "apply_command Restart m = m"

definition service_id :: "FQServiceName \<Rightarrow> rstr \<times> rstr" where
  "service_id fq = (instance_name fq, service_type fq)"

definition client_view :: "Services \<Rightarrow> rstr \<times> rstr \<rightharpoonup> InstanceDetails" where
  "client_view sv = map_of (map (\<lambda>(fq, d). (service_id fq, d)) sv)"

lemma apply_present [simp]:
  "apply_command (create_command fq d) m = m(service_id fq \<mapsto> d)"
  "apply_command (update_command fq d) m = m(service_id fq \<mapsto> d)"
  "apply_command (delete_command fq) m = m(service_id fq := None)"
  by (cases d; simp add: create_command_def update_command_def delete_command_def service_id_def)+

lemma dom_client_view: "dom (client_view sv) = (service_id \<circ> fst) ` set sv"
  by (simp add: client_view_def dom_map_of_conv_image_fst image_image comp_def case_prod_beta)

lemma apply_present_commands:
  assumes "distinct (map (service_id \<circ> fst) snap)"
    and "\<And>fq d. (fq, d) \<in> set snap \<Longrightarrow> hm_get old fq = Some d \<Longrightarrow> m (service_id fq) = Some d"
  shows "fold apply_command (present_commands old snap) m = m ++ client_view snap"
  using assms
proof (induction snap arbitrary: m)
  case (Cons x snap)
  obtain fq d where x: "x = (fq, d)" by (cases x)
  have notin: "service_id fq \<notin> dom (client_view snap)"
    using Cons.prems(1) by (auto simp: x dom_client_view)
  have first: "fold apply_command (present_commands old [x]) m = m(service_id fq \<mapsto> d)"
    using Cons.prems(2) [of fq d] by (auto simp: x present_commands_def fun_upd_idem split: option.split)
  have "fold apply_command (present_commands old snap) (m(service_id fq \<mapsto> d)) = m(service_id fq \<mapsto> d) ++ client_view snap"
    by (rule Cons.IH) (use Cons.prems in \<open>force simp: x\<close>)+
  also have "\<dots> = m ++ client_view (x # snap)"
    using notin by (auto simp: client_view_def x map_add_upd_left)
  finally show ?case using first by (simp add: present_commands_def)
qed (simp add: present_commands_def client_view_def)

lemma apply_absent_commands:
  "fold apply_command (absent_commands old snap) m i =
     (if \<exists>fq. hm_contains old fq \<and> \<not> hm_contains snap fq \<and> service_id fq = i then None else m i)"
proof (induction old arbitrary: m)
  case Nil
  show ?case by (simp add: absent_commands_def hm_contains_def)
next
  case (Cons x old)
  obtain fq d where x: "x = (fq, d)" by (cases x)
  have "absent_commands (x # old) snap = (if \<not> hm_contains snap fq then [delete_command fq] else []) @ absent_commands old snap"
    by (simp add: absent_commands_def x)
  then show ?case using Cons.IH by (auto simp: x hm_contains_def)
qed

lemma client_view_iff:
  assumes "hm_ok sv" and "inj_on service_id (fst ` set sv)"
  shows "client_view sv i = Some d \<longleftrightarrow> (\<exists>fq. (fq, d) \<in> set sv \<and> service_id fq = i)"
proof -
  have "distinct (map fst (map (\<lambda>(fq, d). (service_id fq, d)) sv))"
    using assms by (simp add: hm_ok_def o_def case_prod_beta distinct_map inj_on_def)
  then show ?thesis unfolding client_view_def by (force simp: map_of_eq_Some_iff)
qed

lemma diff_commands_apply:
  assumes old: "hm_ok old" and snap: "hm_ok snap"
    and inj: "inj_on service_id (fst ` set old \<union> fst ` set snap)"
  shows "fold apply_command (present_commands old snap @ absent_commands old snap) (client_view old) = client_view snap"
proof -
  let ?old = "fst ` set old" let ?new = "fst ` set snap"
  have vo: "client_view old i = Some d \<longleftrightarrow> (\<exists>fq. (fq, d) \<in> set old \<and> service_id fq = i)" for i d
    by (rule client_view_iff [OF old inj_on_subset [OF inj]]) auto
  have vn: "client_view snap i = Some d \<longleftrightarrow> (\<exists>fq. (fq, d) \<in> set snap \<and> service_id fq = i)" for i d
    by (rule client_view_iff [OF snap inj_on_subset [OF inj]]) auto
  have "distinct (map (service_id \<circ> fst) snap)"
    using snap inj_on_subset [OF inj, of ?new] by (simp add: hm_ok_def distinct_map comp_inj_on)
  then have present: "fold apply_command (present_commands old snap) (client_view old) = client_view old ++ client_view snap"
    by (rule apply_present_commands) (use old in \<open>auto simp: vo hm_entries\<close>)
  show ?thesis
  proof
    fix i
    show "fold apply_command (present_commands old snap @ absent_commands old snap) (client_view old) i = client_view snap i"
    proof (cases "client_view snap i")
      case None
      have "hm_contains old fq \<and> \<not> hm_contains snap fq \<and> service_id fq = i" if "(fq, d) \<in> set old" "service_id fq = i" for fq d
        using that None vn [of i] by (force simp: hm_contains_def)
      then have "client_view old i = None" if "\<not> (\<exists>fq. hm_contains old fq \<and> \<not> hm_contains snap fq \<and> service_id fq = i)"
        using that vo [of i] by (metis not_None_eq)
      with None show ?thesis by (auto simp: present apply_absent_commands map_add_None)
    next
      case (Some d)
      then obtain fq where fq: "(fq, d) \<in> set snap" "service_id fq = i" using vn by blast
      have "fq' = fq" if "hm_contains old fq'" "service_id fq' = i" for fq'
        using inj_onD [OF inj, of fq' fq] that fq by (force simp: hm_contains_def)
      then have "\<not> (\<exists>fq. hm_contains old fq \<and> \<not> hm_contains snap fq \<and> service_id fq = i)"
        using fq(1) by (force simp: hm_contains_def)
      with Some show ?thesis by (simp add: present apply_absent_commands)
    qed
  qed
qed

section \<open>Runs of the resolver\<close>

lemma tick_OkD:
  assumes "tick z = Some (Ok ((cs, d), z'))"
  obtains z1 where "attend z = Some (Ok z1)"
    and "z' = convert_dns_query_to_command (tick_tracker_services (create_diff_commands z1))\<lparr>commands := []\<rparr>"
    and "cs = commands (convert_dns_query_to_command (tick_tracker_services (create_diff_commands z1)))"
    and "d = calculate_next_attention_duration (convert_dns_query_to_command (tick_tracker_services (create_diff_commands z1)))"
  using assms by (auto simp: tick_def Let_def)

lemma report_frame:
  "store (create_diff_commands z) = store z" "attention_list (create_diff_commands z) = attention_list z"
  "store (tick_tracker_services z) = store z" "attention_list (tick_tracker_services z) = attention_list z"
  "store (convert_dns_query_to_command z) = store z" "attention_list (convert_dns_query_to_command z) = attention_list z"
  "now (create_diff_commands z) = now z" "now (tick_tracker_services z) = now z"
  "now (convert_dns_query_to_command z) = now z"
  "last_snap_shot (tick_tracker_services z) = last_snap_shot z"
  "last_snap_shot (convert_dns_query_to_command z) = last_snap_shot z"
  "commands (tick_tracker_services z) = commands z"
  "periodic_refresh (create_diff_commands z) = periodic_refresh z"
  "periodic_refresh (tick_tracker_services z) = periodic_refresh z"
  "periodic_refresh (convert_dns_query_to_command z) = periodic_refresh z"
  "tracked_services (convert_dns_query_to_command z) = tracked_services z"
  by (simp_all add: create_diff_commands_def tick_tracker_services_def convert_dns_query_to_command_def Let_def
      split: prod.split)

lemma tick_sound:
  assumes "tick z = Some r" and "zc_inv z"
  obtains cs d z' where "r = Ok ((cs, d), z')" and "zc_inv z'" and "now z' = now z"
    and "due (now z) (attention_list z') = {}" and "last_snap_shot z' = snapshot (store z')"
proof -
  obtain r1 where r1: "attend z = Some r1" using assms(1) by (auto simp: tick_def)
  obtain z1 where z1: "r1 = Ok z1" "zc_inv z1" "now z1 = now z" "due (now z) (attention_list z1) = {}"
    using attend_sound [OF r1 assms(2)] by blast
  let ?z = "convert_dns_query_to_command (tick_tracker_services (create_diff_commands z1))"
  have "r = Ok ((commands ?z, calculate_next_attention_duration ?z), ?z\<lparr>commands := []\<rparr>)"
    using assms(1) r1 z1(1) by (simp add: tick_def Let_def)
  moreover have "zc_inv (?z\<lparr>commands := []\<rparr>)" using z1(2) by (simp add: zc_inv_def report_frame)
  moreover have "last_snap_shot ?z = snapshot (store ?z)"
    by (simp add: report_frame) (simp add: create_diff_commands_def Let_def)
  ultimately show thesis using that z1(3,4) by (simp add: report_frame)
qed

text \<open>The states of a resolver that is fed packets, told the time, ticked, started and stopped.\<close>

inductive zc_reachable :: "('n, 't) simple_dns \<Rightarrow> ZeroConfig \<Rightarrow> bool" for dns where
  new: "zc_reachable dns (ZeroConfig_new t)"
| records: "zc_reachable dns z \<Longrightarrow> push_records dns qs an ad ns z = Ok z' \<Longrightarrow> zc_reachable dns z'"
| time: "zc_reachable dns z \<Longrightarrow> zc_reachable dns (set_time t z)"
| ticked: "zc_reachable dns z \<Longrightarrow> tick z = Some (Ok ((cs, d), z')) \<Longrightarrow> zc_reachable dns z'"
| track: "zc_reachable dns z \<Longrightarrow> zc_reachable dns (track_service s z)"
| refresh: "zc_reachable dns z \<Longrightarrow> zc_reachable dns (set_periodic_refresh b z)"
| start: "zc_reachable dns z \<Longrightarrow> zc_reachable dns (on_start z)"
| stop: "zc_reachable dns z \<Longrightarrow> on_stop z = Some (Ok (cs, z')) \<Longrightarrow> zc_reachable dns z'"

lemma pq_clear_new: "pq_clear q = pq_new"
  by (cases q) (simp add: pq_clear_def pq_new_def)

lemma zc_inv_stop: "zc_inv (z\<lparr>attention_list := pq_clear q, store := Store_clear st\<rparr>)"
  using rrq.empty_spec by (simp add: pq_clear_new zc_inv_def Store_wf_ops covered_def)

lemma reachable_inv: "zc_reachable dns z \<Longrightarrow> zc_inv z"
proof (induction rule: zc_reachable.induct)
  case (new t)
  show ?case by (rule zc_inv_new)
next
  case (records z qs an ad ns z')
  then show ?case using push_records_ok [OF records.IH, of dns qs an ad ns] by auto
next
  case (ticked z cs d z')
  show ?case by (rule tick_sound [OF ticked.hyps(2) ticked.IH]) simp
next
  case (stop z cs z')
  let ?z = "z\<lparr>attention_list := pq_clear (attention_list z), store := Store_clear (store z)\<rparr>"
  obtain d where "tick ?z = Some (Ok ((cs, d), z'))"
    using stop.hyps(2) by (auto simp: on_stop_def)
  then show ?case by (rule tick_sound [OF _ zc_inv_stop]) simp
qed (auto simp: zc_inv_def set_time_def track_service_def set_periodic_refresh_def on_start_def Let_def)

text \<open>Between calls no command is pending and the last snapshot has one entry per service.\<close>

lemma process_records_frame:
  "process_records dns rs z = Ok z' \<Longrightarrow> commands z' = commands z \<and> last_snap_shot z' = last_snap_shot z"
  by (induction dns rs z rule: process_records.induct) (fastforce simp: add_rr_def split: option.splits)+

lemma process_queries_idle:
  "commands (process_queries dns qs z) = commands z \<and> last_snap_shot (process_queries dns qs z) = last_snap_shot z"
  by (induction dns qs z rule: process_queries.induct) (auto simp: Let_def split: option.splits)

lemma tick_idle: "tick z = Some (Ok ((cs, d), z')) \<Longrightarrow> commands z' = [] \<and> hm_ok (last_snap_shot z')"
  by (erule tick_OkD) (simp add: report_frame, simp add: create_diff_commands_def Let_def)

lemma reachable_idle: "zc_reachable dns z \<Longrightarrow> commands z = [] \<and> hm_ok (last_snap_shot z)"
proof (induction rule: zc_reachable.induct)
  case (records z qs an ad ns z')
  then show ?case using process_queries_idle [of dns qs z] process_records_frame [of dns _ "process_queries dns qs z" z']
    by (auto simp: push_records_def Let_def split: if_splits)
next
  case (ticked z cs d z')
  then show ?case using tick_idle by blast
next
  case (stop z cs z')
  then show ?case using tick_idle by (fastforce simp: on_stop_def)
qed (auto simp: ZeroConfig_new_def set_time_def track_service_def set_periodic_refresh_def on_start_def Let_def)

text \<open>A resolver that has received one address record, at a later time.\<close>

lemma one_record:
  fixes dns :: "('n, 't) simple_dns" and rec :: "('n, 't) ResourceRecord" and t t' :: nat
  assumes "rdata rec = A ip"
  defines "r \<equiv> RR_new t (ttl_duration (record_ttl rec)) (RR_A (name_to_string dns (record_name rec)) ip)"
  shows "\<exists>z. zc_reachable dns z \<and> now z = t' \<and>
    pq_contents (attention_list z) = [RRPayload_key (rr_payload r) \<mapsto> r]"
proof -
  let ?z = "ZeroConfig_new t"
  have z: "attention_list ?z = pq_new" "now ?z = t" by (simp_all add: ZeroConfig_new_def track_service_def Let_def)
  obtain q where q: "pq_push rr_ops r pq_new = (Ok q :: (attention_list, unit) outcome)"
    "pq_contents q = [RRPayload_key (rr_payload r) \<mapsto> r]"
    using rrq.push_spec [of pq_new r] rrq.empty_spec by auto
  have "push_records dns [] [rec] [] [] ?z =
      Ok (?z\<lparr>attention_list := q, store := Store_add (rr_payload r) (store ?z)\<rparr>)"
    using q(1) assms(1) by (simp add: push_records_def Let_def record_payload_def add_rr_def z r_def)
  then have "zc_reachable dns (set_time t' (?z\<lparr>attention_list := q, store := Store_add (rr_payload r) (store ?z)\<rparr>))"
    by (intro zc_reachable.time) (rule zc_reachable.records [OF zc_reachable.new])
  then show ?thesis using q(2) by (intro exI conjI) (assumption | simp add: set_time_def)+
qed

text \<open>A concrete stand-in for the names and text attributes of DNS packets.\<close>

definition plain_dns :: "(rstr list, (rstr \<times> rstr option) list) simple_dns" where
  "plain_dns = \<lparr>get_labels = id, name_to_string = concat, txt_attributes = id\<rparr>"

lemma refresh_due_later: "(k, s) \<in> set (fst (refresh_due t ts qs)) \<Longrightarrow> t < next_query_time s"
  by (induction t ts qs rule: refresh_due.induct)
    (auto simp: TrackedService_refresh_def TRACKER_SERVICE_REFRESH_INTERVAL_def split: prod.splits if_splits)

lemma fold_min_greater: "t < x \<Longrightarrow> (\<And>y. y \<in> set ys \<Longrightarrow> t < y) \<Longrightarrow> t < fold min ys (x :: nat)"
  by (induction ys arbitrary: x) auto

lemma next_attention_wait:
  assumes inv: "zc_inv z" and none: "due (now z) (attention_list z) = {}"
    and later: "periodic_refresh z \<longrightarrow> (\<forall>(k, s) \<in> set (tracked_services z). now z < next_query_time s)"
  defines "d \<equiv> calculate_next_attention_duration z"
  shows "0 < d \<and> (\<forall>r \<in> ran (pq_contents (attention_list z)). now z + d \<le> attention_needed_on r)"
proof -
  have q: "pq_invar rr_ops attention_needed_on (attention_list z)" using inv by (simp add: zc_inv_def)
  define d0 where "d0 = (case pq_peek (attention_list z) of
    Some rr \<Rightarrow> attention_needed_on rr - now z | None \<Rightarrow> 60 * 10 ^ 9)"
  have d0: "0 < d0 \<and> (\<forall>r \<in> ran (pq_contents (attention_list z)). now z + d0 \<le> attention_needed_on r)"
  proof (cases "pq_peek (attention_list z)")
    case None
    then show ?thesis using rrq.peek_None [OF q] by (simp add: d0_def)
  next
    case (Some rr)
    have "now z < attention_needed_on rr"
      using none rrq.peek_Some [OF q Some] by (auto simp: due_def not_le)
    then show ?thesis using Some rrq.peek_Some [OF q Some] by (simp add: d0_def)
  qed
  have "d = d0 \<or> (periodic_refresh z \<and> (\<exists>t ts. map (next_query_time \<circ> snd) (tracked_services z) = t # ts \<and>
      d = fold min ts t - now z \<and> d < d0))"
    by (auto simp: d_def calculate_next_attention_duration_def d0_def Let_def split: list.split)
  then show ?thesis
  proof (elim disjE conjE exE)
    fix t ts
    assume p: "periodic_refresh z" and ts: "map (next_query_time \<circ> snd) (tracked_services z) = t # ts"
      and d: "d = fold min ts t - now z" "d < d0"
    have "now z < y" if "y \<in> set (t # ts)" for y
      using that later p unfolding ts [symmetric] by auto
    then have "now z < fold min ts t" by (intro fold_min_greater) simp_all
    with d d0 show ?thesis by force
  qed (use d0 in simp)
qed

text \<open>
  C6: in every state the resolver can reach, each record in the store is on the attention list, so
  that it is looked at again when its time to live runs out; receiving packets does not panic, and a
  tick that returns leaves no record due and the reported services equal to a snapshot of the store.\<close>

theorem resolver_invariant:
  assumes "zc_reachable dns z"
  shows "covered (store z) (attention_list z) \<and>
    (\<exists>z'. push_records dns qs an ad ns z = Ok z') \<and>
    (\<forall>r. tick z = Some r \<longrightarrow> (\<exists>cs d z'. r = Ok ((cs, d), z') \<and> due (now z) (attention_list z') = {} \<and>
       last_snap_shot z' = snapshot (store z')))"
proof -
  have inv: "zc_inv z" by (rule reachable_inv [OF assms])
  have "\<exists>cs d z'. r = Ok ((cs, d), z') \<and> due (now z) (attention_list z') = {} \<and> last_snap_shot z' = snapshot (store z')"
    if "tick z = Some r" for r
    by (rule tick_sound [OF that inv]) blast
  then show ?thesis using inv push_records_ok [OF inv, of dns qs an ad ns] by (auto simp: zc_inv_def)
qed

theorem resolver_invariant_witness:
  "\<exists>z' r. push_records plain_dns [] [r] [] [] (ZeroConfig_new 0) = Ok z' \<and> rdata r = A 1"
proof -
  let ?r = "\<lparr>record_name = [str ''host''], record_ttl = 120, rdata = A 1\<rparr>"
  from resolver_invariant [of plain_dns "ZeroConfig_new 0" "[]" "[?r]" "[]" "[]", OF zc_reachable.new]
  obtain z' where "push_records plain_dns [] [?r] [] [] (ZeroConfig_new 0) = Ok z'" by blast
  then show ?thesis by (intro exI [of _ z'] exI [of _ ?r]) simp
qed

text \<open>
  C38: the wait a tick returns is positive and ends no later than the first record on the attention
  list needs attention, so the driver neither spins nor oversleeps.\<close>

theorem tick_wait:
  assumes "zc_reachable dns z" and "tick z = Some (Ok ((cs, d), z'))"
  shows "0 < d \<and> (\<forall>r \<in> ran (pq_contents (attention_list z')). now z + d \<le> attention_needed_on r)"
proof -
  obtain z1 where z1: "attend z = Some (Ok z1)"
    "z' = convert_dns_query_to_command (tick_tracker_services (create_diff_commands z1))\<lparr>commands := []\<rparr>"
    "d = calculate_next_attention_duration (convert_dns_query_to_command (tick_tracker_services (create_diff_commands z1)))"
    using tick_OkD [OF assms(2)] by metis
  let ?z = "convert_dns_query_to_command (tick_tracker_services (create_diff_commands z1))"
  have s: "zc_inv z1" "now z1 = now z" "due (now z) (attention_list z1) = {}"
    using attend_sound [OF z1(1) reachable_inv [OF assms(1)]] by auto
  have "\<forall>(k, s) \<in> set (tracked_services ?z). now ?z < next_query_time s" if "periodic_refresh ?z"
    using that refresh_due_later unfolding report_frame
    by (auto simp: tick_tracker_services_def report_frame case_prod_beta)
  moreover have "zc_inv ?z" using s(1) by (simp add: zc_inv_def report_frame)
  ultimately have "0 < calculate_next_attention_duration ?z \<and>
      (\<forall>r \<in> ran (pq_contents (attention_list ?z)). now ?z + calculate_next_attention_duration ?z \<le> attention_needed_on r)"
    using s(2,3) by (intro next_attention_wait) (simp_all add: report_frame)
  then show ?thesis using s(2) by (simp add: z1(2,3) report_frame)
qed

text \<open>
  C18: a tick returns whatever the time when the records on the attention list have a time to live
  whose planned probes are recognised as due, such as the 120 and 4500 seconds adb devices announce.\<close>

theorem tick_returns:
  assumes "zc_reachable dns z" and "now z < 2 ^ 53 * 10 ^ 9"
    and "\<forall>r \<in> ran (pq_contents (attention_list z)). regular_ttl (rr_ttl r)"
  shows "\<exists>cs d z'. tick z = Some (Ok ((cs, d), z'))"
proof -
  have "\<exists>z'. attend z = Some (Ok z')"
    using assms(3) regular_progresses [OF _ assms(2)] by (intro attend_ends reachable_inv [OF assms(1)]) blast
  then show ?thesis by (auto simp: tick_def Let_def)
qed

theorem tick_returns_witness:
  "\<exists>z r. ran (pq_contents (attention_list z)) = {r} \<and> rr_ttl r = 120 * 10 ^ 9 \<and> now z = 102 * 10 ^ 9 \<and>
     (\<exists>cs d z'. tick z = Some (Ok ((cs, d), z')))"
proof -
  let ?rec = "\<lparr>record_name = [str ''host''], record_ttl = 120, rdata = A 1\<rparr>"
  let ?r = "RR_new 0 (ttl_duration 120) (RR_A (str ''host'') 1)"
  obtain z where z: "zc_reachable plain_dns z" "now z = 102 * 10 ^ 9"
    "pq_contents (attention_list z) = [RRPayload_key (rr_payload ?r) \<mapsto> ?r]"
    using one_record [where rec = ?rec and ip = 1 and t = 0 and dns = plain_dns and t' = "102 * 10 ^ 9"] by (auto simp: plain_dns_def)
  have ttl: "rr_ttl ?r = 120000000000" by (simp add: RR_new_def ttl_duration_def Let_def)
  have "\<exists>cs d z'. tick z = Some (Ok ((cs, d), z'))"
    by (rule tick_returns [OF z(1)]) (simp_all add: z(2,3) ttl regular_120)
  with z ttl show ?thesis by (intro exI [of _ z] exI [of _ ?r]) simp
qed

text \<open>
  C23: a record of nine seconds makes a tick run for ever when the tick comes 8.1 seconds after the
  record: the fraction of the life time comes out just below 0.9, so the next probe is planned for the
  same instant, again and again.\<close>

theorem tick_never_returns:
  assumes "zc_reachable dns z" and "pq_contents (attention_list z) k = Some r" and "attention_needed_on r \<le> now z"
    and "rr_ttl r = 9 * 10 ^ 9" and "now z = created_on r + 8100000000"
  shows "tick z = None"
proof -
  have "attend z = None"
    by (rule attend_diverges [OF reachable_inv [OF assms(1)] assms(2,3), of Probed85])
      (simp_all add: assms(4,5) lifecycle_fraction_def irregular_9)
  then show ?thesis by (simp add: tick_def)
qed

theorem tick_never_returns_witness:
  "\<exists>z. zc_reachable plain_dns z \<and> now z = 8100000000 \<and> tick z = None"
proof -
  let ?rec = "\<lparr>record_name = [str ''host''], record_ttl = 9, rdata = A 1\<rparr>"
  let ?r = "RR_new 0 (ttl_duration 9) (RR_A (str ''host'') 1)"
  obtain z where z: "zc_reachable plain_dns z" "now z = 8100000000"
    "pq_contents (attention_list z) = [RRPayload_key (rr_payload ?r) \<mapsto> ?r]"
    using one_record [where rec = ?rec and ip = 1 and t = 0 and dns = plain_dns and t' = 8100000000] by (auto simp: plain_dns_def)
  have "from_secs_f64 (f64_mult 9 (3602879701896397 / 4503599627370496)) = 7200000000" by (simp add: f64_eval)
  then have r: "rr_ttl ?r = 9000000000" "created_on ?r = 0" "attention_needed_on ?r = 7200000000"
    by (simp_all add: RR_new_def ttl_duration_def Let_def as_secs_values fraction_values)
  have "tick z = None"
    by (rule tick_never_returns [OF z(1), of "RRPayload_key (rr_payload ?r)" ?r]) (simp_all add: z r)
  with z show ?thesis by blast
qed

text \<open>
  C11: a client that applies the commands of a tick to its view of the previously reported services
  obtains the services of the new snapshot: each appearance, change and disappearance is reported.
  The names of the services, without their domain, must tell them apart.\<close>

theorem tick_commands_report_changes:
  assumes "zc_reachable dns z" and "tick z = Some (Ok ((cs, d), z'))"
    and "inj_on service_id (fst ` set (last_snap_shot z) \<union> fst ` set (snapshot (store z')))"
  shows "fold apply_command cs (client_view (last_snap_shot z)) = client_view (snapshot (store z'))"
proof -
  obtain z1 where z1: "attend z = Some (Ok z1)"
    "z' = convert_dns_query_to_command (tick_tracker_services (create_diff_commands z1))\<lparr>commands := []\<rparr>"
    "cs = commands (convert_dns_query_to_command (tick_tracker_services (create_diff_commands z1)))"
    using tick_OkD [OF assms(2)] by metis
  have frame: "commands z1 = []" "last_snap_shot z1 = last_snap_shot z"
    using attend_sound [OF z1(1) reachable_inv [OF assms(1)]] reachable_idle [OF assms(1)] by auto
  have st: "store z' = store z1" by (simp add: z1(2) report_frame)
  let ?diff = "present_commands (last_snap_shot z) (snapshot (store z1)) @
    absent_commands (last_snap_shot z) (snapshot (store z1))"
  have "commands (create_diff_commands z1) = ?diff" by (simp add: create_diff_commands_def Let_def frame)
  then have "cs = ?diff \<or> (\<exists>qs. cs = ?diff @ [DnsQueries qs])"
    by (auto simp: z1(3) convert_dns_query_to_command_def report_frame)
  then have "fold apply_command cs (client_view (last_snap_shot z)) = fold apply_command ?diff (client_view (last_snap_shot z))"
    by auto
  also have "\<dots> = client_view (snapshot (store z'))"
    unfolding st using assms(3) reachable_idle [OF assms(1)] by (intro diff_commands_apply) (simp_all add: st)
  finally show ?thesis .
qed


text \<open>A device that announces itself with pointer, service and address records.\<close>

definition example_name :: "rstr list" where
  "example_name = [str ''dev'', str ''_adb'', str ''_tcp'', str ''local'']"

definition example_records :: "(rstr list, (rstr \<times> rstr option) list) ResourceRecord list" where
  "example_records =
     [\<lparr>record_name = [str ''adb''], record_ttl = 120, rdata = PTR example_name\<rparr>,
      \<lparr>record_name = example_name, record_ttl = 120, rdata = SRV [str ''host''] 5555\<rparr>,
      \<lparr>record_name = [str ''host''], record_ttl = 120, rdata = A 1\<rparr>]"

lemma example_payloads:
  "List.map_filter (record_payload plain_dns (tracked_services (ZeroConfig_new 0))) example_records =
     [RR_PTR (str ''adb'') (FQServiceName_new (str ''dev'') (str ''_adb._tcp'') (str ''local'')),
      RR_SRV (FQServiceName_new (str ''dev'') (str ''_adb._tcp'') (str ''local'')) (str ''host'') 5555,
      RR_A (str ''host'') 1]"
  by code_simp

lemma process_records_effect:
  assumes "process_records dns rs z = Ok z'" and "zc_inv z"
  shows "store z' = fold Store_add (List.map_filter (record_payload dns (tracked_services z)) rs) (store z) \<and>
    tracked_services z' = tracked_services z \<and> now z' = now z \<and>
    ran (pq_contents (attention_list z')) \<subseteq> ran (pq_contents (attention_list z)) \<union>
      {RR_new (now z) (ttl_duration (record_ttl r)) p | r p. r \<in> set rs}"
  using assms
proof (induction rs arbitrary: z)
  case (Cons r rs)
  show ?case
  proof (cases "record_payload dns (tracked_services z) r")
    case None
    then show ?thesis using Cons.IH [of z] Cons.prems by (simp add: map_filter_def) blast
  next
    case (Some p)
    let ?rr = "RR_new (now z) (ttl_duration (record_ttl r)) p"
    obtain z1 where z1: "add_rr ?rr z = Ok z1" "zc_inv z1" using add_rr_ok [OF Cons.prems(2)] by blast
    obtain q where q: "pq_push rr_ops ?rr (attention_list z) = (Ok q :: (attention_list, unit) outcome)"
      "z1 = z\<lparr>attention_list := q, store := Store_add (rr_payload ?rr) (store z)\<rparr>"
      using z1(1) by (auto simp: add_rr_def)
    have "pq_contents q = (pq_contents (attention_list z))(item_key rr_ops ?rr \<mapsto> ?rr)"
      using rrq.push_Ok [OF _ q(1)] Cons.prems(2) by (simp add: zc_inv_def)
    then have "ran (pq_contents q) \<subseteq> ran (pq_contents (attention_list z)) \<union> {?rr}"
      by (auto simp: ran_def split: if_splits)
    moreover have "rr_payload ?rr = p" by (simp add: RR_new_def Let_def)
    moreover have "process_records dns rs z1 = Ok z'" using Cons.prems(1) Some z1(1) by simp
    ultimately show ?thesis using Cons.IH [OF _ z1(2)] Some q(2) by (simp add: map_filter_def) blast
  qed
qed (simp add: map_filter_def)

lemma example_store:
  "snapshot (fold Store_add [RR_PTR (str ''adb'') (FQServiceName_new (str ''dev'') (str ''_adb._tcp'') (str ''local'')),
      RR_SRV (FQServiceName_new (str ''dev'') (str ''_adb._tcp'') (str ''local'')) (str ''host'') 5555,
      RR_A (str ''host'') 1] Store_new) =
   [(FQServiceName_new (str ''dev'') (str ''_adb._tcp'') (str ''local''),
       \<lparr>hostname = str ''host'', port = 5555, det_ipv4s = {1}, det_ipv6s = {}, det_txt = Mapping.empty\<rparr>)]"
  by code_simp

lemma attend_nothing_due: "zc_inv z \<Longrightarrow> due (now z) (attention_list z) = {} \<Longrightarrow> attend z = Some (Ok z)"
  by (erule attend_cases) (auto simp: attend.simps [of z] due_def)

lemma example_state:
  "\<exists>z. zc_reachable plain_dns z \<and> last_snap_shot z = [] \<and> attend z = Some (Ok z) \<and>
     snapshot (store z) = [(FQServiceName_new (str ''dev'') (str ''_adb._tcp'') (str ''local''),
       \<lparr>hostname = str ''host'', port = 5555, det_ipv4s = {1}, det_ipv6s = {}, det_txt = Mapping.empty\<rparr>)]"
proof -
  let ?z = "ZeroConfig_new 0"
  have z: "store ?z = Store_new" "now ?z = 0" "attention_list ?z = pq_new" "last_snap_shot ?z = []"
    by (simp_all add: ZeroConfig_new_def track_service_def Let_def)
  obtain z' where z': "process_records plain_dns example_records ?z = Ok z'" "zc_inv z'"
    using process_records_ok [OF zc_inv_new] by blast
  note eff = process_records_effect [OF z'(1) zc_inv_new]
  have "push_records plain_dns [] example_records [] [] ?z = Ok z'"
    using z'(1) by (simp add: push_records_def Let_def example_records_def)
  then have "zc_reachable plain_dns z'" by (rule zc_reachable.records [OF zc_reachable.new])
  moreover have "last_snap_shot z' = []" using process_records_frame [OF z'(1)] z(4) by simp
  moreover have "attend z' = Some (Ok z')"
  proof (rule attend_nothing_due [OF z'(2)])
    have "f64_mult 120 (3602879701896397 / 4503599627370496) = 96" by (simp add: f64_eval)
    then have "attention_needed_on (RR_new 0 (ttl_duration 120) p) = 96000000000" for p
      by (simp add: RR_new_def ttl_duration_def Let_def as_secs_values fraction_values from_secs_f64_def round_half_even_def)
    then have "0 < attention_needed_on r" if "r \<in> ran (pq_contents (attention_list z'))" for r
      using eff that rrq.empty_spec unfolding z by (force simp: example_records_def)
    then show "due (now z') (attention_list z') = {}" using eff unfolding z by (force simp: due_def ran_def)
  qed
  moreover have "store z' = fold Store_add [RR_PTR (str ''adb'') (FQServiceName_new (str ''dev'') (str ''_adb._tcp'') (str ''local'')),
      RR_SRV (FQServiceName_new (str ''dev'') (str ''_adb._tcp'') (str ''local'')) (str ''host'') 5555,
      RR_A (str ''host'') 1] Store_new"
    using eff unfolding z example_payloads by blast
  ultimately show ?thesis using example_store by (intro exI [of _ z']) simp
qed

theorem tick_commands_report_changes_witness:
  "\<exists>z cs d z'. last_snap_shot z = [] \<and> tick z = Some (Ok ((cs, d), z')) \<and>
     fold apply_command cs Map.empty (str ''dev'', str ''_adb._tcp'') =
       Some \<lparr>hostname = str ''host'', port = 5555, det_ipv4s = {1}, det_ipv6s = {}, det_txt = Mapping.empty\<rparr>"
proof -
  obtain z where z: "zc_reachable plain_dns z" "last_snap_shot z = []" "attend z = Some (Ok z)"
    "snapshot (store z) = [(FQServiceName_new (str ''dev'') (str ''_adb._tcp'') (str ''local''),
       \<lparr>hostname = str ''host'', port = 5555, det_ipv4s = {1}, det_ipv6s = {}, det_txt = Mapping.empty\<rparr>)]"
    using example_state by blast
  obtain cs d z' where t: "tick z = Some (Ok ((cs, d), z'))" "store z' = store z"
    using z(3) by (simp add: tick_def Let_def report_frame)
  have "fold apply_command cs (client_view []) = client_view (snapshot (store z'))"
    using tick_commands_report_changes [OF z(1) t(1)] z(2,4) t(2) by simp
  then have "fold apply_command cs Map.empty (str ''dev'', str ''_adb._tcp'') =
      Some \<lparr>hostname = str ''host'', port = 5555, det_ipv4s = {1}, det_ipv6s = {}, det_txt = Mapping.empty\<rparr>"
    by (simp add: t(2) z(4) client_view_def service_id_def FQServiceName_new_def)
  with z t show ?thesis by blast
qed

theorem tick_wait_witness:
  "\<exists>z cs d z'. zc_reachable plain_dns z \<and> tick z = Some (Ok ((cs, d), z')) \<and> 0 < d"
proof -
  obtain z where z: "zc_reachable plain_dns z" "attend z = Some (Ok z)" using example_state by blast
  obtain cs d z' where t: "tick z = Some (Ok ((cs, d), z'))" using z(2) by (simp add: tick_def Let_def)
  from tick_wait [OF z(1) t] z(1) t show ?thesis by blast
qed

end
