(* ===== verification/Vendor_Boot.thy ===== *)
theory Vendor_Boot
  imports Boot_Image
begin

text \<open>
  The \<open>vendor_boot\<close> image (\<open>fastboot-protocol/src/vendor_boot.rs\<close>): the header of versions 3 and 4, the
  table of ramdisk fragments, the parser with its checks and the builder. The page size is any number
  but zero here, so sections are aligned by division and not by masking as in \<open>boot_image.rs\<close>.
\<close>

definition VENDOR_BOOT_MAGIC :: bytes where "VENDOR_BOOT_MAGIC = str ''VNDRBOOT''"
definition VENDOR_BOOT_PAGE_SIZE :: nat where "VENDOR_BOOT_PAGE_SIZE = 4096"
definition VENDOR_BOOT_NAME_SIZE :: nat where "VENDOR_BOOT_NAME_SIZE = 16"
definition VENDOR_BOOT_CMDLINE_SIZE :: nat where "VENDOR_BOOT_CMDLINE_SIZE = 2048"
definition VENDOR_RAMDISK_NAME_SIZE :: nat where "VENDOR_RAMDISK_NAME_SIZE = 32"
definition VENDOR_RAMDISK_BOARD_ID_SIZE :: nat where "VENDOR_RAMDISK_BOARD_ID_SIZE = 16"
definition VENDOR_RAMDISK_TABLE_ENTRY_SIZE :: nat where
  "VENDOR_RAMDISK_TABLE_ENTRY_SIZE = 4 + 4 + 4 + VENDOR_RAMDISK_NAME_SIZE + 4 * VENDOR_RAMDISK_BOARD_ID_SIZE"
definition VENDOR_BOOT_HEADER_V3_SIZE :: nat where "VENDOR_BOOT_HEADER_V3_SIZE = 2112"
definition VENDOR_BOOT_HEADER_V4_SIZE :: nat where "VENDOR_BOOT_HEADER_V4_SIZE = 2128"

lemmas vb_sizes = VENDOR_BOOT_PAGE_SIZE_def VENDOR_BOOT_NAME_SIZE_def VENDOR_BOOT_CMDLINE_SIZE_def
  VENDOR_RAMDISK_NAME_SIZE_def VENDOR_RAMDISK_BOARD_ID_SIZE_def VENDOR_RAMDISK_TABLE_ENTRY_SIZE_def
  VENDOR_BOOT_HEADER_V3_SIZE_def VENDOR_BOOT_HEADER_V4_SIZE_def

datatype VendorBootVersion = VB_V3 | VB_V4

datatype VendorBootError =
    VbBufferTooShort nat nat
  | VbInvalidMagic
  | VbUnsupportedVersion u32
  | VbInvalidPageSize u32
  | VbInvalidHeaderSize u32 u32
  | VbUnsupportedTableEntrySize u32
  | VbInvalidTableSize u32 nat
  | VbSectionBounds rstr nat nat nat
  | VbRamdiskEntryOutOfBounds nat u32 u32 u32
  | VbDuplicateRamdiskName rstr
  | VbInvalidRamdiskName nat
  | VbArithmeticOverflow

record VendorBootHeader =
  vb_version :: VendorBootVersion
  vb_page_size :: u32
  vb_kernel_addr :: u32
  vb_ramdisk_addr :: u32
  vb_vendor_ramdisk_size :: u32
  vb_cmdline :: rstr
  vb_tags_addr :: u32
  vb_name :: rstr
  vb_header_size :: u32
  vb_dtb_size :: u32
  vb_dtb_addr :: u64
  vb_table_size :: u32
  vb_table_entry_num :: u32
  vb_table_entry_size :: u32
  vb_bootconfig_size :: u32

record VendorRamdiskTableEntry =
  re_size :: u32
  re_offset :: u32
  re_type :: u32
  re_name :: rstr
  re_board_id :: "u32 list"

definition VendorRamdiskTableEntry_new :: "bytes \<Rightarrow> u32 \<Rightarrow> u32 \<Rightarrow> VendorRamdiskTableEntry" where
  "VendorRamdiskTableEntry_new name sz ty =
     \<lparr>re_size = sz, re_offset = 0, re_type = ty, re_name = from_utf8_lossy name,
      re_board_id = replicate VENDOR_RAMDISK_BOARD_ID_SIZE 0\<rparr>"

record VendorBootSectionOffsets =
  so_header :: nat
  so_ramdisk :: nat
  so_dtb :: nat
  so_table :: nat
  so_bootconfig :: nat
  so_end :: nat

record VendorBootImage =
  vi_header :: VendorBootHeader
  vi_data :: bytes
  vi_entries :: "VendorRamdiskTableEntry list"
  vi_offsets :: VendorBootSectionOffsets

section \<open>The parser\<close>

definition fixed_string :: "bytes \<Rightarrow> rstr" where
  "fixed_string w = from_utf8_lossy (takeWhile (\<lambda>b. b \<noteq> 0) w)"

definition vb_align :: "nat \<Rightarrow> nat \<Rightarrow> (nat, VendorBootError) outcome" where
  "vb_align page n = ok_or (map_option (\<lambda>v. v div page * page) (checked_add_usize n (page - 1))) VbArithmeticOverflow"

definition vb_add :: "nat \<Rightarrow> nat \<Rightarrow> (nat, VendorBootError) outcome" where
  "vb_add a b = ok_or (checked_add_usize a b) VbArithmeticOverflow"

definition section_offsets_for :: "VendorBootHeader \<Rightarrow> (VendorBootSectionOffsets, VendorBootError) outcome" where
  "section_offsets_for h =
     (let page = unat (vb_page_size h) in
      and_then (vb_align page (unat (vb_header_size h))) (\<lambda>hdr.
      let ramdisk = hdr in
      and_then (vb_align page (unat (vb_vendor_ramdisk_size h))) (\<lambda>a. and_then (vb_add ramdisk a) (\<lambda>dtb.
      and_then (vb_align page (unat (vb_dtb_size h))) (\<lambda>a. and_then (vb_add dtb a) (\<lambda>table.
      and_then (vb_align page (unat (vb_table_size h))) (\<lambda>a. and_then (vb_add table a) (\<lambda>bootconfig.
      and_then (vb_align page (unat (vb_bootconfig_size h))) (\<lambda>a. and_then (vb_add bootconfig a) (\<lambda>en.
        Ok \<lparr>so_header = hdr, so_ramdisk = ramdisk, so_dtb = dtb, so_table = table,
            so_bootconfig = bootconfig, so_end = en\<rparr>))))))))))"

definition ensure_section :: "bytes \<Rightarrow> string \<Rightarrow> nat \<Rightarrow> nat \<Rightarrow> (unit, VendorBootError) outcome" where
  "ensure_section data sec off sz =
     and_then (vb_add off sz) (\<lambda>en.
       if en > length data then Err (VbSectionBounds (str sec) off sz (length data)) else Ok ())"

fun read_board_id :: "byteorder \<Rightarrow> bytes \<Rightarrow> nat list \<Rightarrow> (u32 list, VendorBootError) outcome" where
  "read_board_id bo data [] = Ok []"
| "read_board_id bo data (i # is) =
     and_then (get_u32 bo data (44 + i * 4)) (\<lambda>w.
     and_then (read_board_id bo data is) (\<lambda>ws. Ok (w # ws)))"

definition parse_entry :: "byteorder \<Rightarrow> bytes \<Rightarrow> nat \<Rightarrow> (VendorRamdiskTableEntry, VendorBootError) outcome" where
  "parse_entry bo data idx =
     and_then (slice data 12 44) (\<lambda>name_bytes.
     and_then (ok_or (from_utf8 (takeWhile (\<lambda>b. b \<noteq> 0) name_bytes)) (VbInvalidRamdiskName idx)) (\<lambda>name.
     and_then (read_board_id bo data [0..<VENDOR_RAMDISK_BOARD_ID_SIZE]) (\<lambda>board_id.
     and_then (get_u32 bo data 0) (\<lambda>sz. and_then (get_u32 bo data 4) (\<lambda>off. and_then (get_u32 bo data 8) (\<lambda>ty.
       Ok \<lparr>re_size = sz, re_offset = off, re_type = ty, re_name = name, re_board_id = board_id\<rparr>))))))"

text \<open>The loop over the table; \<open>entries\<close> are the entries read so far.\<close>

fun parse_entries ::
  "byteorder \<Rightarrow> bytes \<Rightarrow> nat \<Rightarrow> u32 \<Rightarrow> VendorRamdiskTableEntry list \<Rightarrow> nat list \<Rightarrow>
   (VendorRamdiskTableEntry list, VendorBootError) outcome" where
  "parse_entries bo data table rd_size entries [] = Ok entries"
| "parse_entries bo data table rd_size entries (i # is) =
     (let start = table + i * VENDOR_RAMDISK_TABLE_ENTRY_SIZE in
      and_then (slice data start (start + VENDOR_RAMDISK_TABLE_ENTRY_SIZE)) (\<lambda>raw.
      and_then (parse_entry bo raw i) (\<lambda>entry.
      and_then (ok_or (checked_add_u32 (re_offset entry) (re_size entry)) VbArithmeticOverflow) (\<lambda>en.
        if en > rd_size
        then Err (VbRamdiskEntryOutOfBounds i (re_offset entry) (re_size entry) rd_size)
        else if list_ex (\<lambda>old. re_name old = re_name entry) entries
        then Err (VbDuplicateRamdiskName (re_name entry))
        else parse_entries bo data table rd_size (entries @ [entry]) is))))"

definition v4_field :: "byteorder \<Rightarrow> bytes \<Rightarrow> VendorBootVersion \<Rightarrow> nat \<Rightarrow> (u32, VendorBootError) outcome" where
  "v4_field bo data version i = (if version = VB_V4 then get_u32 bo data i else Ok 0)"

definition read_vb_header ::
  "byteorder \<Rightarrow> bytes \<Rightarrow> VendorBootVersion \<Rightarrow> u32 \<Rightarrow> u32 \<Rightarrow> (VendorBootHeader, VendorBootError) outcome" where
  "read_vb_header bo data version page hsize =
     and_then (get_u32 bo data 16) (\<lambda>kaddr. and_then (get_u32 bo data 20) (\<lambda>raddr.
     and_then (get_u32 bo data 24) (\<lambda>rsize. and_then (slice data 28 2076) (\<lambda>cmd.
     and_then (get_u32 bo data 2076) (\<lambda>tags. and_then (slice data 2080 2096) (\<lambda>nm.
     and_then (get_u32 bo data 2100) (\<lambda>dsize. and_then (get_u64 bo data 2104) (\<lambda>daddr.
     and_then (v4_field bo data version 2112) (\<lambda>tsize. and_then (v4_field bo data version 2116) (\<lambda>tnum.
     and_then (v4_field bo data version 2120) (\<lambda>tent. and_then (v4_field bo data version 2124) (\<lambda>bsize.
       Ok \<lparr>vb_version = version, vb_page_size = page, vb_kernel_addr = kaddr, vb_ramdisk_addr = raddr,
           vb_vendor_ramdisk_size = rsize, vb_cmdline = fixed_string cmd, vb_tags_addr = tags,
           vb_name = fixed_string nm, vb_header_size = hsize, vb_dtb_size = dsize, vb_dtb_addr = daddr,
           vb_table_size = tsize, vb_table_entry_num = tnum, vb_table_entry_size = tent,
           vb_bootconfig_size = bsize\<rparr>))))))))))))"

definition vb_header_len :: "VendorBootVersion \<Rightarrow> nat" where
  "vb_header_len version = (case version of VB_V3 \<Rightarrow> VENDOR_BOOT_HEADER_V3_SIZE | VB_V4 \<Rightarrow> VENDOR_BOOT_HEADER_V4_SIZE)"

definition check_table :: "bytes \<Rightarrow> VendorBootHeader \<Rightarrow> VendorBootSectionOffsets \<Rightarrow> (unit, VendorBootError) outcome" where
  "check_table data h offs =
     (if vb_version h = VB_V4 then
        and_then (ensure_section data ''vendor ramdisk table'' (so_table offs) (so_bootconfig offs - so_table offs)) (\<lambda>_.
        and_then (ensure_section data ''bootconfig'' (so_bootconfig offs) (so_end offs - so_bootconfig offs)) (\<lambda>_.
          if vb_table_entry_size h \<noteq> of_nat VENDOR_RAMDISK_TABLE_ENTRY_SIZE
          then Err (VbUnsupportedTableEntrySize (vb_table_entry_size h))
          else let expected = unat (vb_table_entry_num h) * unat (vb_table_entry_size h) in
            if expected \<ge> 2 ^ 64 then Err VbArithmeticOverflow
            else if expected \<noteq> unat (vb_table_size h) then Err (VbInvalidTableSize (vb_table_size h) expected)
            else Ok ()))
      else Ok ())"

definition parse_version :: "u32 \<Rightarrow> (VendorBootVersion, VendorBootError) outcome" where
  "parse_version raw = (if raw = 3 then Ok VB_V3 else if raw = 4 then Ok VB_V4 else Err (VbUnsupportedVersion raw))"

definition parse_vendor_boot :: "byteorder \<Rightarrow> bytes \<Rightarrow> (VendorBootImage, VendorBootError) outcome" where
  "parse_vendor_boot bo data =
     (if length data < VENDOR_BOOT_HEADER_V3_SIZE
      then Err (VbBufferTooShort VENDOR_BOOT_HEADER_V3_SIZE (length data))
      else if take 8 data \<noteq> VENDOR_BOOT_MAGIC then Err VbInvalidMagic
      else and_then (get_u32 bo data 8) (\<lambda>raw.
        and_then (parse_version raw) (\<lambda>version.
          let header_len = vb_header_len version in
          if length data < header_len then Err (VbBufferTooShort header_len (length data))
          else and_then (get_u32 bo data 12) (\<lambda>page.
            if page = 0 then Err (VbInvalidPageSize page)
            else and_then (get_u32 bo data 2096) (\<lambda>hsize.
              if hsize \<noteq> of_nat header_len then Err (VbInvalidHeaderSize hsize (of_nat header_len))
              else and_then (read_vb_header bo data version page hsize) (\<lambda>h.
              and_then (section_offsets_for h) (\<lambda>offs.
              and_then (ensure_section data ''header'' 0 (so_ramdisk offs)) (\<lambda>_.
              and_then (ensure_section data ''vendor ramdisk'' (so_ramdisk offs) (so_dtb offs - so_ramdisk offs)) (\<lambda>_.
              and_then (ensure_section data ''dtb'' (so_dtb offs) (so_table offs - so_dtb offs)) (\<lambda>_.
              and_then (check_table data h offs) (\<lambda>_.
              and_then (parse_entries bo data (so_table offs) (vb_vendor_ramdisk_size h) []
                  [0..<(if version = VB_V4 then unat (vb_table_entry_num h) else 0)]) (\<lambda>entries.
                Ok \<lparr>vi_header = h, vi_data = data, vi_entries = entries, vi_offsets = offs\<rparr>)))))))))))) "

definition vi_ramdisk :: "VendorBootImage \<Rightarrow> (bytes, VendorBootError) outcome" where
  "vi_ramdisk vi = slice (vi_data vi) (so_ramdisk (vi_offsets vi))
     (so_ramdisk (vi_offsets vi) + unat (vb_vendor_ramdisk_size (vi_header vi)))"

definition vi_dtb :: "VendorBootImage \<Rightarrow> (bytes, VendorBootError) outcome" where
  "vi_dtb vi = slice (vi_data vi) (so_dtb (vi_offsets vi))
     (so_dtb (vi_offsets vi) + unat (vb_dtb_size (vi_header vi)))"

definition vi_bootconfig :: "VendorBootImage \<Rightarrow> (bytes, VendorBootError) outcome" where
  "vi_bootconfig vi = slice (vi_data vi) (so_bootconfig (vi_offsets vi))
     (so_bootconfig (vi_offsets vi) + unat (vb_bootconfig_size (vi_header vi)))"

section \<open>The builder\<close>

record VendorBootBuilder =
  vbb_version :: VendorBootVersion
  vbb_page_size :: u32
  vbb_kernel_addr :: u32
  vbb_ramdisk_addr :: u32
  vbb_cmdline :: rstr
  vbb_tags_addr :: u32
  vbb_name :: rstr
  vbb_dtb_addr :: u64
  vbb_ramdisk :: bytes
  vbb_dtb :: bytes
  vbb_bootconfig :: bytes
  vbb_table_entries :: "VendorRamdiskTableEntry list"

definition VendorBootBuilder_new :: "VendorBootVersion \<Rightarrow> VendorBootBuilder" where
  "VendorBootBuilder_new version =
     \<lparr>vbb_version = version, vbb_page_size = of_nat VENDOR_BOOT_PAGE_SIZE, vbb_kernel_addr = 0, vbb_ramdisk_addr = 0,
      vbb_cmdline = [], vbb_tags_addr = 0, vbb_name = [], vbb_dtb_addr = 0, vbb_ramdisk = [], vbb_dtb = [],
      vbb_bootconfig = [], vbb_table_entries = []\<rparr>"

definition add_table_entry :: "VendorRamdiskTableEntry \<Rightarrow> VendorBootBuilder \<Rightarrow> VendorBootBuilder" where
  "add_table_entry entry b = b\<lparr>vbb_table_entries := vbb_table_entries b @ [entry]\<rparr>"

definition vb_round :: "nat \<Rightarrow> nat \<Rightarrow> nat" where
  "vb_round page n = (n + page - 1) div page * page"

text \<open>\<open>image.resize(align(image.len()), 0)\<close>\<close>

definition vb_pad :: "nat \<Rightarrow> bytes \<Rightarrow> bytes" where
  "vb_pad page img = resize (vb_round page (length img)) 0 img"

fun put_board_id :: "nat \<Rightarrow> u32 list \<Rightarrow> bytes \<Rightarrow> bytes" where
  "put_board_id i [] raw = raw"
| "put_board_id i (w # ws) raw = put_board_id (Suc i) ws (put (44 + i * 4) (u32_to_le w) raw)"

definition encode_entry :: "VendorRamdiskTableEntry \<Rightarrow> bytes" where
  "encode_entry e =
     (let raw = replicate VENDOR_RAMDISK_TABLE_ENTRY_SIZE 0;
          raw = put 0 (u32_to_le (re_size e)) raw;
          raw = put 4 (u32_to_le (re_offset e)) raw;
          raw = put 8 (u32_to_le (re_type e)) raw;
          n = re_name e;
          raw = put 12 (take (min (length n) VENDOR_RAMDISK_NAME_SIZE) n) raw
      in put_board_id 0 (re_board_id e) raw)"

definition encode_vb_header :: "VendorBootBuilder \<Rightarrow> nat \<Rightarrow> nat \<Rightarrow> bytes" where
  "encode_vb_header b hsize table_size =
     (let img = replicate hsize 0;
          img = put 0 VENDOR_BOOT_MAGIC img;
          ver_num = (case vbb_version b of VB_V3 \<Rightarrow> (3 :: u32) | VB_V4 \<Rightarrow> 4);
          img = put 8 (u32_to_le ver_num) img;
          img = put 12 (u32_to_le (vbb_page_size b)) img;
          img = put 16 (u32_to_le (vbb_kernel_addr b)) img;
          img = put 20 (u32_to_le (vbb_ramdisk_addr b)) img;
          img = put 24 (u32_to_le (as_u32 (length (vbb_ramdisk b)))) img;
          cmdline_len = min (length (vbb_cmdline b)) VENDOR_BOOT_CMDLINE_SIZE;
          img = put 28 (take cmdline_len (vbb_cmdline b)) img;
          img = put 2076 (u32_to_le (vbb_tags_addr b)) img;
          name_len = min (length (vbb_name b)) VENDOR_BOOT_NAME_SIZE;
          img = put 2080 (take name_len (vbb_name b)) img;
          img = put 2096 (u32_to_le (as_u32 hsize)) img;
          img = put 2100 (u32_to_le (as_u32 (length (vbb_dtb b)))) img;
          img = put 2104 (u64_to_le (vbb_dtb_addr b)) img
      in if vbb_version b = VB_V4 then
           let img = put 2112 (u32_to_le (as_u32 table_size)) img;
               img = put 2116 (u32_to_le (as_u32 (length (vbb_table_entries b)))) img;
               img = put 2120 (u32_to_le (as_u32 VENDOR_RAMDISK_TABLE_ENTRY_SIZE)) img;
               img = put 2124 (u32_to_le (as_u32 (length (vbb_bootconfig b)))) img
           in img
         else img)"

definition VendorBootBuilder_build :: "VendorBootBuilder \<Rightarrow> (bytes, VendorBootError) outcome" where
  "VendorBootBuilder_build b =
     (if vbb_page_size b = 0 then Err (VbInvalidPageSize 0)
      else
        let hsize = vb_header_len (vbb_version b);
            page = unat (vbb_page_size b);
            table_size = (if vbb_version b = VB_V4
              then length (vbb_table_entries b) * VENDOR_RAMDISK_TABLE_ENTRY_SIZE else 0);
            img = encode_vb_header b hsize table_size;
            img = resize (vb_round page hsize) 0 img;
            img = vb_pad page (img @ vbb_ramdisk b);
            img = vb_pad page (img @ vbb_dtb b)
        in Ok (if vbb_version b = VB_V4 then
                 let img = vb_pad page (foldl (\<lambda>img e. img @ encode_entry e) img (vbb_table_entries b))
                 in vb_pad page (img @ vbb_bootconfig b)
               else img))"

section \<open>The layout of a built image\<close>

lemma vb_zeros: "take n s @ replicate (len - min (length s) n) (0 :: u8) = write_fixed_string s len" if "n = len"
  using that by (simp add: write_fixed_string_eq min_def)

definition vb_fields :: "VendorBootBuilder \<Rightarrow> bytes list" where
  "vb_fields b = [VENDOR_BOOT_MAGIC, u32_to_le (case vbb_version b of VB_V3 \<Rightarrow> 3 | VB_V4 \<Rightarrow> 4),
     u32_to_le (vbb_page_size b), u32_to_le (vbb_kernel_addr b), u32_to_le (vbb_ramdisk_addr b),
     u32_to_le (as_u32 (length (vbb_ramdisk b))), write_fixed_string (vbb_cmdline b) 2048,
     u32_to_le (vbb_tags_addr b), write_fixed_string (vbb_name b) 16,
     u32_to_le (as_u32 (vb_header_len (vbb_version b))), u32_to_le (as_u32 (length (vbb_dtb b))),
     u64_to_le (vbb_dtb_addr b)] @
     (if vbb_version b = VB_V4
      then [u32_to_le (as_u32 (length (vbb_table_entries b) * 108)), u32_to_le (as_u32 (length (vbb_table_entries b))),
        u32_to_le 108, u32_to_le (as_u32 (length (vbb_bootconfig b)))]
      else [])"

lemma length_VENDOR_BOOT_MAGIC [simp]: "length VENDOR_BOOT_MAGIC = 8"
  by (simp add: VENDOR_BOOT_MAGIC_def)

lemma put_string_field:
  assumes "length pre = i"
  shows "put i (take (min (length s) len) s) (pre @ replicate len 0 @ post) = pre @ write_fixed_string s len @ post"
  using assms by (auto simp: put_def write_fixed_string_eq min_def)

lemma put_field:
  assumes "length pre = i" and "length new = len"
  shows "put i new (pre @ replicate len 0 @ post) = pre @ new @ post"
  using assms by (simp add: put_def)

lemma zeros_split: "m \<le> n \<Longrightarrow> replicate n (0 :: u8) = replicate m 0 @ replicate (n - m) 0"
  by (simp flip: replicate_add)

text \<open>A field written behind the fields before it; the rest of the buffer is still zero.\<close>

definition zero_tail :: "bytes \<Rightarrow> nat \<Rightarrow> bytes" where
  "zero_tail xs n = xs @ replicate (n - length xs) 0"

lemma zero_tail_put:
  assumes "i = length xs" and "length xs + length new \<le> n"
  shows "put i new (zero_tail xs n) = zero_tail (xs @ new) n"
  using assms put_field [of xs i new "length new" "replicate (n - length xs - length new) 0"]
    zeros_split [of "length new" "n - length xs"]
  by (simp add: zero_tail_def)

lemmas zero_tail_puts = zero_tail_put [where new = VENDOR_BOOT_MAGIC] zero_tail_put [where new = "u32_to_le w" for w]
  zero_tail_put [where new = "u64_to_le w" for w]

lemma zero_tail_string:
  assumes "i = length xs" and "length xs + len \<le> n"
  shows "put i (take (min (length s) len) s) (zero_tail xs n) = zero_tail (xs @ write_fixed_string s len) n"
  using assms put_string_field [of xs i s len "replicate (n - length xs - len) 0"]
    zeros_split [of len "n - length xs"]
  by (simp add: zero_tail_def)

lemma zero_tail_Nil: "replicate n 0 = zero_tail [] n"
  by (simp add: zero_tail_def)

lemma zero_tail_full: "length xs = n \<Longrightarrow> zero_tail xs n = xs"
  by (simp add: zero_tail_def)

lemma encode_vb_header_flat:
  "encode_vb_header b (vb_header_len (vbb_version b))
     (if vbb_version b = VB_V4 then length (vbb_table_entries b) * 108 else 0) = concat (vb_fields b)"
proof -
  let ?n = "vb_header_len (vbb_version b)"
  have n: "2112 \<le> ?n" "vbb_version b = VB_V4 \<Longrightarrow> ?n = 2128" "vbb_version b = VB_V3 \<Longrightarrow> ?n = 2112"
    by (cases "vbb_version b"; simp add: vb_header_len_def vb_sizes)+
  show ?thesis
    unfolding encode_vb_header_def Let_def zero_tail_Nil
    using n by (cases "vbb_version b") (simp_all add: zero_tail_puts zero_tail_string zero_tail_full vb_sizes vb_fields_def as_u32_def)
qed

lemma length_vb_fields: "length (concat (vb_fields b)) = vb_header_len (vbb_version b)"
  by (cases "vbb_version b") (simp_all add: vb_fields_def vb_header_len_def vb_sizes)

text \<open>A table entry as it is written: the board id follows the name.\<close>

lemma put_board_id_flat:
  "length xs = 44 + 4 * i \<Longrightarrow> 44 + 4 * (i + length ws) = n \<Longrightarrow>
   put_board_id i ws (zero_tail xs n) = xs @ concat (map u32_to_le ws)"
  by (induction ws arbitrary: i xs) (simp_all add: zero_tail_full zero_tail_puts)

lemma encode_entry_flat:
  assumes "length (re_board_id e) = 16"
  shows "encode_entry e = u32_to_le (re_size e) @ u32_to_le (re_offset e) @ u32_to_le (re_type e) @
    write_fixed_string (re_name e) 32 @ concat (map u32_to_le (re_board_id e))"
  unfolding encode_entry_def Let_def zero_tail_Nil
  using assms by (simp add: zero_tail_puts zero_tail_string vb_sizes put_board_id_flat)

lemma length_board_id [simp]: "length (concat (map u32_to_le ws)) = 4 * length ws"
  by (induction ws) simp_all

lemma length_encode_entry: "length (re_board_id e) = 16 \<Longrightarrow> length (encode_entry e) = 108"
  by (simp add: encode_entry_flat)

lemma vb_round_mod: "0 < page \<Longrightarrow> vb_round page n + (n + page - 1) mod page = n + page - 1"
  by (simp add: vb_round_def)

lemma vb_round_bounds:
  assumes "0 < page"
  shows "n \<le> vb_round page n" "vb_round page n < n + page" "page dvd vb_round page n"
  using vb_round_mod [OF assms, of n] mod_less_divisor [OF assms, of "n + page - 1"] assms
  by (linarith, linarith, simp add: vb_round_def)

lemma vb_round_add:
  assumes "0 < page" and "page dvd m"
  shows "vb_round page (m + n) = m + vb_round page n"
proof -
  obtain k where m: "m = page * k" using assms(2) by (elim dvdE)
  have "m + n + page - 1 = (n + page - 1) + page * k" using assms(1) by (simp add: m)
  then have "(m + n + page - 1) div page = k + (n + page - 1) div page"
    using assms(1) by (simp only: div_mult_self2)
  then show ?thesis by (simp add: vb_round_def m distrib_right)
qed

definition vb_section :: "nat \<Rightarrow> bytes \<Rightarrow> bytes" where
  "vb_section page s = s @ replicate (vb_round page (length s) - length s) 0"

lemma length_vb_section: "0 < page \<Longrightarrow> length (vb_section page s) = vb_round page (length s)"
  using vb_round_bounds(1) [of page "length s"] by (simp add: vb_section_def)

lemma vb_pad_section:
  assumes "0 < page" and "page dvd length img"
  shows "vb_pad page (img @ s) = img @ vb_section page s"
  using vb_round_bounds(1) [OF assms(1), of "length s"]
  by (simp add: vb_pad_def vb_round_add [OF assms] resize_extend vb_section_def)

lemma section_offsets:
  assumes "vb_page_size h \<noteq> 0"
  shows "section_offsets_for h =
    (let round = vb_round (unat (vb_page_size h)); hdr = round (unat (vb_header_size h));
         dtb = hdr + round (unat (vb_vendor_ramdisk_size h)); table = dtb + round (unat (vb_dtb_size h));
         bootconfig = table + round (unat (vb_table_size h))
     in Ok \<lparr>so_header = hdr, so_ramdisk = hdr, so_dtb = dtb, so_table = table, so_bootconfig = bootconfig,
            so_end = bootconfig + round (unat (vb_bootconfig_size h))\<rparr>)"
proof -
  let ?p = "unat (vb_page_size h)"
  have p: "0 < ?p" using assms by (simp add: unat_gt_0)
  have small: "vb_round ?p (unat w) < 2 ^ 33" for w :: u32
    using vb_round_bounds(2) [OF p, of "unat w"] u32_less [of w] u32_less [of "vb_page_size h"] by simp
  have al: "vb_align ?p (unat w) = Ok (vb_round ?p (unat w))" for w :: u32
    using p u32_less [of w] u32_less [of "vb_page_size h"]
    by (simp add: vb_align_def checked_add_usize_def usize_max_def vb_round_def)
  have add: "a < 2 ^ 60 \<Longrightarrow> vb_add a (vb_round ?p (unat w)) = Ok (a + vb_round ?p (unat w))" for a and w :: u32
    using small [of w] by (simp add: vb_add_def checked_add_usize_def usize_max_def)
  show ?thesis
    using small [of "vb_header_size h"] small [of "vb_vendor_ramdisk_size h"] small [of "vb_dtb_size h"]
      small [of "vb_table_size h"]
    by (simp add: section_offsets_for_def al add Let_def)
qed

lemma ensure_section_Ok:
  "length data < 2 ^ 63 \<Longrightarrow> off + sz \<le> length data \<Longrightarrow> ensure_section data sec off sz = Ok ()"
  by (simp add: ensure_section_def vb_add_def checked_add_usize_def usize_max_def)

lemma ensure_section_eq_Ok: "ensure_section data sec off sz = Ok u \<longleftrightarrow> off + sz \<le> length data \<and> off + sz \<le> usize_max"
  by (auto simp: ensure_section_def vb_add_def checked_add_usize_def split: if_splits)

lemma ensure_section_noPanic [simp]: "ensure_section data sec off sz \<noteq> Panic"
  by (auto simp: ensure_section_def vb_add_def and_then_eq_Panic)

section \<open>Reading a header and a table\<close>

text \<open>What the header of a built image says.\<close>

definition built_header :: "VendorBootBuilder \<Rightarrow> VendorBootHeader" where
  "built_header b =
     (let v4 = (vbb_version b = VB_V4) in
      \<lparr>vb_version = vbb_version b, vb_page_size = vbb_page_size b, vb_kernel_addr = vbb_kernel_addr b,
       vb_ramdisk_addr = vbb_ramdisk_addr b, vb_vendor_ramdisk_size = as_u32 (length (vbb_ramdisk b)),
       vb_cmdline = stored_string 2048 (vbb_cmdline b), vb_tags_addr = vbb_tags_addr b,
       vb_name = stored_string 16 (vbb_name b), vb_header_size = as_u32 (vb_header_len (vbb_version b)),
       vb_dtb_size = as_u32 (length (vbb_dtb b)), vb_dtb_addr = vbb_dtb_addr b,
       vb_table_size = if v4 then as_u32 (length (vbb_table_entries b) * 108) else 0,
       vb_table_entry_num = if v4 then as_u32 (length (vbb_table_entries b)) else 0,
       vb_table_entry_size = if v4 then 108 else 0,
       vb_bootconfig_size = if v4 then as_u32 (length (vbb_bootconfig b)) else 0\<rparr>)"

definition stored_entry :: "VendorRamdiskTableEntry \<Rightarrow> VendorRamdiskTableEntry" where
  "stored_entry e = e\<lparr>re_name := takeWhile (\<lambda>b. b \<noteq> 0) (take 32 (re_name e))\<rparr>"

lemma stored_entry_simps [simp]:
  "re_offset (stored_entry e) = re_offset e" "re_size (stored_entry e) = re_size e"
  by (simp_all add: stored_entry_def)

lemma fixed_string_at: "fixed_string (take n xs) = stored_string n xs"
  by (simp add: fixed_string_def stored_string_def)

lemma takeWhile_fixed_string:
  "takeWhile (\<lambda>b. b \<noteq> 0) (write_fixed_string s n) = takeWhile (\<lambda>b. b \<noteq> 0) (take n s)"
proof -
  have "takeWhile (\<lambda>b. b \<noteq> 0) (s @ replicate m 0) = takeWhile (\<lambda>b. b \<noteq> (0 :: u8)) s" for m and s
    by (induction s) (auto simp: takeWhile_replicate)
  then show ?thesis by (simp add: write_fixed_string_eq)
qed

context little_endian
begin

lemma v4_field_at:
  "vb_header_len version \<le> length data \<Longrightarrow> i + 4 \<le> 2128 \<Longrightarrow>
   v4_field bo data version i = Ok (if version = VB_V4 then u32_from_le (take 4 (drop i data)) else 0)"
  by (simp add: v4_field_def get_at vb_header_len_def vb_sizes split: VendorBootVersion.splits)

lemma read_vb_header_at:
  assumes "vb_header_len version \<le> length data"
  shows "read_vb_header bo data version page hsize = Ok
    \<lparr>vb_version = version, vb_page_size = page, vb_kernel_addr = u32_from_le (take 4 (drop 16 data)),
     vb_ramdisk_addr = u32_from_le (take 4 (drop 20 data)),
     vb_vendor_ramdisk_size = u32_from_le (take 4 (drop 24 data)),
     vb_cmdline = stored_string 2048 (drop 28 data), vb_tags_addr = u32_from_le (take 4 (drop 2076 data)),
     vb_name = stored_string 16 (drop 2080 data), vb_header_size = hsize,
     vb_dtb_size = u32_from_le (take 4 (drop 2100 data)), vb_dtb_addr = u64_from_le (take 8 (drop 2104 data)),
     vb_table_size = (if version = VB_V4 then u32_from_le (take 4 (drop 2112 data)) else 0),
     vb_table_entry_num = (if version = VB_V4 then u32_from_le (take 4 (drop 2116 data)) else 0),
     vb_table_entry_size = (if version = VB_V4 then u32_from_le (take 4 (drop 2120 data)) else 0),
     vb_bootconfig_size = (if version = VB_V4 then u32_from_le (take 4 (drop 2124 data)) else 0)\<rparr>"
proof -
  have "2112 \<le> length data" using assms by (cases version) (simp_all add: vb_header_len_def vb_sizes)
  then show ?thesis
    by (simp add: read_vb_header_def get_at v4_field_at [OF assms] slice_def fixed_string_at)
qed

lemma built_header_at:
  fixes b rest
  defines "data \<equiv> concat (vb_fields b) @ rest"
  shows "read_vb_header bo data (vbb_version b) (vbb_page_size b) (as_u32 (vb_header_len (vbb_version b))) = Ok (built_header b)"
    and "get_u32 bo data 8 = (Ok (case vbb_version b of VB_V3 \<Rightarrow> 3 | VB_V4 \<Rightarrow> 4) :: (_, VendorBootError) outcome)"
    and "get_u32 bo data 12 = (Ok (vbb_page_size b) :: (_, VendorBootError) outcome)"
    and "get_u32 bo data 2096 = (Ok (as_u32 (vb_header_len (vbb_version b))) :: (_, VendorBootError) outcome)"
    and "take 8 data = VENDOR_BOOT_MAGIC"
proof -
  have len: "vb_header_len (vbb_version b) \<le> length data" by (simp add: data_def length_vb_fields)
  then have len2: "2112 \<le> length data" by (cases "vbb_version b") (simp_all add: vb_header_len_def vb_sizes)
  show "read_vb_header bo data (vbb_version b) (vbb_page_size b) (as_u32 (vb_header_len (vbb_version b))) = Ok (built_header b)"
    unfolding read_vb_header_at [OF len] unfolding data_def
    by (simp add: vb_fields_def built_header_def Let_def stored_write_fixed_string)
  show "get_u32 bo data 8 = (Ok (case vbb_version b of VB_V3 \<Rightarrow> 3 | VB_V4 \<Rightarrow> 4) :: (_, VendorBootError) outcome)"
    "get_u32 bo data 12 = (Ok (vbb_page_size b) :: (_, VendorBootError) outcome)"
    "get_u32 bo data 2096 = (Ok (as_u32 (vb_header_len (vbb_version b))) :: (_, VendorBootError) outcome)"
    using len2 by (simp_all add: get_at) (simp_all add: data_def vb_fields_def)
  show "take 8 data = VENDOR_BOOT_MAGIC" by (simp add: data_def vb_fields_def)
qed

lemma read_board_id_at:
  assumes "length pre = 44"
  shows "read_board_id bo (pre @ concat (map u32_to_le (ws @ vs))) [length ws..<length ws + length vs] = Ok vs"
proof (induction vs arbitrary: ws)
  case (Cons v vs)
  let ?d = "pre @ concat (map u32_to_le (ws @ v # vs))"
  have "get_u32 bo ?d (44 + length ws * 4) = (Ok v :: (_, VendorBootError) outcome)"
    using assms by (simp add: get_at mult.commute)
  moreover have "[length ws..<length ws + length (v # vs)] = length ws # [length (ws @ [v])..<length (ws @ [v]) + length vs]"
    by (simp add: upt_rec)
  ultimately show ?case using Cons.IH [of "ws @ [v]"] by simp
qed simp

lemma parse_entry_encode:
  assumes "length (re_board_id e) = 16" and "utf8_valid (re_name (stored_entry e))"
  shows "parse_entry bo (encode_entry e) i = Ok (stored_entry e)"
proof -
  let ?pre = "u32_to_le (re_size e) @ u32_to_le (re_offset e) @ u32_to_le (re_type e) @ write_fixed_string (re_name e) 32"
  have e: "encode_entry e = ?pre @ concat (map u32_to_le (re_board_id e))"
    using assms(1) by (simp add: encode_entry_flat)
  have "read_board_id bo (encode_entry e) [0..<16] = Ok (re_board_id e)"
    using read_board_id_at [of ?pre "[]" "re_board_id e"] assms(1) by (simp add: e)
  moreover have "get_u32 bo (encode_entry e) 0 = (Ok (re_size e) :: (_, VendorBootError) outcome)"
    "get_u32 bo (encode_entry e) 4 = (Ok (re_offset e) :: (_, VendorBootError) outcome)"
    "get_u32 bo (encode_entry e) 8 = (Ok (re_type e) :: (_, VendorBootError) outcome)"
    by (simp_all add: e get_at)
  moreover have "slice (encode_entry e) 12 44 = (Ok (write_fixed_string (re_name e) 32) :: (_, VendorBootError) outcome)"
    by (simp add: e slice_def)
  ultimately show ?thesis
    using assms(2) by (simp add: parse_entry_def vb_sizes takeWhile_fixed_string from_utf8_def stored_entry_def)
qed

lemma parse_entries_encode:
  assumes "\<forall>e \<in> set (ds @ es). length (re_board_id e) = 16 \<and> utf8_valid (re_name (stored_entry e)) \<and>
      unat (re_offset e) + unat (re_size e) \<le> unat rd"
    and "distinct (map (\<lambda>e. re_name (stored_entry e)) (ds @ es))"
  shows "parse_entries bo (pre @ concat (map encode_entry (ds @ es)) @ post) (length pre) rd (map stored_entry ds)
    [length ds..<length ds + length es] = Ok (map stored_entry (ds @ es))"
  using assms
proof (induction es arbitrary: ds)
  case (Cons e es)
  let ?data = "pre @ concat (map encode_entry (ds @ e # es)) @ post" and ?s = "length pre + length ds * 108"
  from Cons.prems(1) have e: "length (re_board_id e) = 16" "utf8_valid (re_name (stored_entry e))"
    "unat (re_offset e) + unat (re_size e) \<le> unat rd" by auto
  have ds: "\<forall>d \<in> set ds. length (encode_entry d) = 108" using Cons.prems(1) by (auto simp: length_encode_entry)
  then have "length (concat (map encode_entry ds)) = length ds * 108"
    by (induction ds) simp_all
  then have "slice ?data ?s (?s + 108) = (Ok (encode_entry e) :: (_, VendorBootError) outcome)"
    using length_encode_entry [OF e(1)] by (simp add: slice_def)
  moreover have "checked_add_u32 (re_offset e) (re_size e) = Some (re_offset e + re_size e)"
    "\<not> rd < re_offset e + re_size e"
    using e(3) u32_less [of rd] by (auto simp: checked_add_u32_def word_less_nat_alt unat_word_ariths)
  moreover have "\<not> list_ex (\<lambda>old. re_name old = re_name (stored_entry e)) (map stored_entry ds)"
    using Cons.prems(2) by (fastforce simp: list_ex_iff image_iff)
  moreover have upt: "[length ds..<length ds + length (e # es)] = length ds # [length (ds @ [e])..<length (ds @ [e]) + length es]"
    by (simp add: upt_rec)
  moreover have "parse_entries bo ?data (length pre) rd (map stored_entry ds @ [stored_entry e])
      [length (ds @ [e])..<length (ds @ [e]) + length es] = Ok (map stored_entry (ds @ e # es))"
    using Cons.IH [of "ds @ [e]"] Cons.prems by simp
  ultimately show ?case
    unfolding upt parse_entries.simps using parse_entry_encode [OF e(1,2)] by (simp add: vb_sizes del: upt_Suc)
qed simp

end

section \<open>Building and parsing\<close>

text \<open>A builder whose sections fit the 32-bit sizes and whose table passes the checks of the parser.\<close>

definition builder_ok :: "VendorBootBuilder \<Rightarrow> bool" where
  "builder_ok b \<longleftrightarrow> vbb_page_size b \<noteq> 0 \<and> length (vbb_ramdisk b) < 2 ^ 32 \<and> length (vbb_dtb b) < 2 ^ 32 \<and>
     (vbb_version b = VB_V4 \<longrightarrow> length (vbb_bootconfig b) < 2 ^ 32 \<and> length (vbb_table_entries b) * 108 < 2 ^ 32 \<and>
       (\<forall>e \<in> set (vbb_table_entries b). length (re_board_id e) = 16 \<and> utf8_valid (re_name (stored_entry e)) \<and>
          unat (re_offset e) + unat (re_size e) \<le> length (vbb_ramdisk b)) \<and>
       distinct (map (\<lambda>e. re_name (stored_entry e)) (vbb_table_entries b)))"

definition vb_table :: "VendorBootBuilder \<Rightarrow> bytes" where
  "vb_table b = (if vbb_version b = VB_V4 then concat (map encode_entry (vbb_table_entries b)) else [])"

definition vb_config :: "VendorBootBuilder \<Rightarrow> bytes" where
  "vb_config b = (if vbb_version b = VB_V4 then vbb_bootconfig b else [])"

lemma vb_round_0: "0 < page \<Longrightarrow> vb_round page 0 = 0"
  by (simp add: vb_round_def)

lemma vb_section_Nil: "0 < page \<Longrightarrow> vb_section page [] = []"
  by (simp add: vb_section_def vb_round_0)

lemma foldl_append: "foldl (\<lambda>img e. img @ f e) img es = img @ concat (map f es)"
  by (induction es arbitrary: img) simp_all

lemma build_layout:
  assumes "vbb_page_size b \<noteq> 0"
  defines "sec \<equiv> vb_section (unat (vbb_page_size b))"
  shows "VendorBootBuilder_build b =
    Ok (sec (concat (vb_fields b)) @ sec (vbb_ramdisk b) @ sec (vbb_dtb b) @ sec (vb_table b) @ sec (vb_config b))"
proof -
  let ?p = "unat (vbb_page_size b)"
  have p: "0 < ?p" using assms by (simp add: unat_gt_0)
  have dvd: "?p dvd length (sec s)" for s
    unfolding sec_def length_vb_section [OF p] by (rule vb_round_bounds(3) [OF p])
  have head: "resize (vb_round ?p (vb_header_len (vbb_version b))) 0 (concat (vb_fields b)) = sec (concat (vb_fields b))"
    using vb_round_bounds(1) [OF p, of "vb_header_len (vbb_version b)"]
    by (simp add: sec_def vb_section_def length_vb_fields resize_extend)
  have "sec [] = []" unfolding sec_def by (rule vb_section_Nil [OF p])
  moreover have pad: "?p dvd length img \<Longrightarrow> vb_pad ?p (img @ s) = img @ sec s" for img s
    unfolding sec_def by (rule vb_pad_section [OF p])
  ultimately show ?thesis
    using assms(1) encode_vb_header_flat [of b] head dvd
    by (cases "vbb_version b") (simp_all add: VendorBootBuilder_build_def Let_def foldl_append vb_table_def
        vb_config_def vb_sizes flip: append_assoc)
qed


definition built_offsets :: "VendorBootBuilder \<Rightarrow> VendorBootSectionOffsets" where
  "built_offsets b =
     (let round = (\<lambda>s. vb_round (unat (vbb_page_size b)) (length s)); hdr = round (concat (vb_fields b));
          dtb = hdr + round (vbb_ramdisk b); table = dtb + round (vbb_dtb b); bootconfig = table + round (vb_table b)
      in \<lparr>so_header = hdr, so_ramdisk = hdr, so_dtb = dtb, so_table = table, so_bootconfig = bootconfig,
          so_end = bootconfig + round (vb_config b)\<rparr>)"

lemma length_vb_table: "builder_ok b \<Longrightarrow> length (vb_table b) = (if vbb_version b = VB_V4 then length (vbb_table_entries b) * 108 else 0)"
proof -
  have "\<forall>e \<in> set es. length (encode_entry e) = 108 \<Longrightarrow> length (concat (map encode_entry es)) = length es * 108" for es
    by (induction es) simp_all
  moreover assume "builder_ok b"
  ultimately show ?thesis by (simp add: vb_table_def builder_ok_def length_encode_entry)
qed

lemma builder_sizes:
  assumes "builder_ok b"
  shows "unat (vb_header_size (built_header b)) = length (concat (vb_fields b))"
    "unat (vb_vendor_ramdisk_size (built_header b)) = length (vbb_ramdisk b)"
    "unat (vb_dtb_size (built_header b)) = length (vbb_dtb b)"
    "unat (vb_table_size (built_header b)) = length (vb_table b)"
    "unat (vb_bootconfig_size (built_header b)) = length (vb_config b)"
    "vb_page_size (built_header b) = vbb_page_size b" "vbb_page_size b \<noteq> 0"
    "vb_version (built_header b) = vbb_version b"
    "vb_table_entry_size (built_header b) = (if vbb_version b = VB_V4 then 108 else 0)"
    "vbb_version b = VB_V4 \<Longrightarrow> unat (vb_table_entry_num (built_header b)) = length (vbb_table_entries b)"
  using assms length_vb_table [OF assms]
  by (cases "vbb_version b"; simp add: built_header_def Let_def builder_ok_def vb_config_def length_vb_fields
      vb_header_len_def vb_sizes)+

lemma built_section_offsets:
  assumes "builder_ok b"
  shows "section_offsets_for (built_header b) = Ok (built_offsets b)"
  using section_offsets [of "built_header b"] builder_sizes [OF assms]
  by (simp add: built_offsets_def Let_def)

text \<open>The sections of a built image, and where the parser looks for them.\<close>

lemma built_image:
  assumes ok: "builder_ok b" and img: "VendorBootBuilder_build b = Ok img"
  defines "sec \<equiv> vb_section (unat (vbb_page_size b))" and "offs \<equiv> built_offsets b"
  shows "img = sec (concat (vb_fields b)) @ sec (vbb_ramdisk b) @ sec (vbb_dtb b) @ sec (vb_table b) @ sec (vb_config b)"
    and "so_ramdisk offs = length (sec (concat (vb_fields b)))"
    and "so_dtb offs = so_ramdisk offs + length (sec (vbb_ramdisk b))"
    and "so_table offs = so_dtb offs + length (sec (vbb_dtb b))"
    and "so_bootconfig offs = so_table offs + length (sec (vb_table b))"
    and "so_end offs = so_bootconfig offs + length (sec (vb_config b))"
    and "so_end offs = length img" and "length img < 2 ^ 63"
proof -
  let ?p = "unat (vbb_page_size b)"
  have "vbb_page_size b \<noteq> 0" by (rule builder_sizes [OF ok])
  then have p: "0 < ?p" by (simp add: unat_gt_0)
  note len = length_vb_section [OF p, folded sec_def]
  from img build_layout [OF \<open>vbb_page_size b \<noteq> 0\<close>] show
    i: "img = sec (concat (vb_fields b)) @ sec (vbb_ramdisk b) @ sec (vbb_dtb b) @ sec (vb_table b) @ sec (vb_config b)"
    by (simp add: sec_def)
  show o1: "so_ramdisk offs = length (sec (concat (vb_fields b)))"
    "so_dtb offs = so_ramdisk offs + length (sec (vbb_ramdisk b))"
    "so_table offs = so_dtb offs + length (sec (vbb_dtb b))"
    "so_bootconfig offs = so_table offs + length (sec (vb_table b))"
    "so_end offs = so_bootconfig offs + length (sec (vb_config b))"
    by (simp_all add: offs_def built_offsets_def Let_def len)
  then show "so_end offs = length img" by (simp add: i)
  have small: "length (sec s) < 2 ^ 33" if "length s = unat w" for s and w :: u32
    using vb_round_bounds(2) [OF p, of "length s"] u32_less [of w] u32_less [of "vbb_page_size b"] that
    by (simp add: len)
  show "length img < 2 ^ 63"
    unfolding i using small [OF builder_sizes(1) [OF ok, symmetric]] small [OF builder_sizes(2) [OF ok, symmetric]]
      small [OF builder_sizes(3) [OF ok, symmetric]] small [OF builder_sizes(4) [OF ok, symmetric]]
      small [OF builder_sizes(5) [OF ok, symmetric]]
    by simp
qed

lemma section_slice:
  assumes "length pre = i"
  shows "slice (pre @ vb_section page s @ post) i (i + length s) = Ok s"
  using assms by (simp add: slice_def vb_section_def)

lemma built_entries:
  assumes "little_endian bo" and ok: "builder_ok b" and img: "VendorBootBuilder_build b = Ok img"
  shows "parse_entries bo img (so_table (built_offsets b)) (vb_vendor_ramdisk_size (built_header b)) []
    [0..<(if vbb_version b = VB_V4 then unat (vb_table_entry_num (built_header b)) else 0)] =
    Ok (if vbb_version b = VB_V4 then map stored_entry (vbb_table_entries b) else [])"
proof (cases "vbb_version b = VB_V4")
  case True
  let ?sec = "vb_section (unat (vbb_page_size b))"
  note im = built_image [OF ok img]
  let ?pre = "?sec (concat (vb_fields b)) @ ?sec (vbb_ramdisk b) @ ?sec (vbb_dtb b)"
  have "img = ?pre @ concat (map encode_entry ([] @ vbb_table_entries b)) @
      replicate (vb_round (unat (vbb_page_size b)) (length (vb_table b)) - length (vb_table b)) 0 @ ?sec (vb_config b)"
    using im(1) True by (simp add: vb_table_def) (simp add: vb_section_def)
  moreover have "so_table (built_offsets b) = length ?pre" using im(2-4) by simp
  ultimately show ?thesis
    using little_endian.parse_entries_encode [OF assms(1), of "[]" "vbb_table_entries b"
        "vb_vendor_ramdisk_size (built_header b)" ?pre] ok True builder_sizes(2,10) [OF ok]
    by (simp add: builder_ok_def)
qed simp

lemma built_check_table:
  assumes ok: "builder_ok b" and img: "VendorBootBuilder_build b = Ok img"
  shows "check_table img (built_header b) (built_offsets b) = Ok ()"
proof (cases "vbb_version b = VB_V4")
  case True
  have "length (vb_table b) < 2 ^ 32" using ok True length_vb_table [OF ok] by (simp add: builder_ok_def)
  with True show ?thesis
    using built_image(5-8) [OF ok img] builder_sizes [OF ok] length_vb_table [OF ok]
    by (simp add: check_table_def ensure_section_Ok vb_sizes)
qed (simp add: check_table_def builder_sizes [OF ok])

lemma parse_built:
  assumes le: "little_endian bo" and ok: "builder_ok b" and img: "VendorBootBuilder_build b = Ok img"
  shows "parse_vendor_boot bo img = Ok \<lparr>vi_header = built_header b, vi_data = img,
    vi_entries = (if vbb_version b = VB_V4 then map stored_entry (vbb_table_entries b) else []),
    vi_offsets = built_offsets b\<rparr>"
proof -
  let ?sec = "vb_section (unat (vbb_page_size b))"
  note im = built_image [OF ok img]
  obtain rest where rest: "img = concat (vb_fields b) @ rest"
    using im(1) by (simp add: vb_section_def [of _ "concat (vb_fields b)"])
  note hdr = little_endian.built_header_at [OF le, of b rest, folded rest]
  have len: "vb_header_len (vbb_version b) \<le> length img" "VENDOR_BOOT_HEADER_V3_SIZE \<le> length img"
    using length_vb_fields [of b]
    by (simp_all add: rest) (cases "vbb_version b"; simp add: vb_header_len_def vb_sizes)
  have ver: "parse_version (case vbb_version b of VB_V3 \<Rightarrow> 3 | VB_V4 \<Rightarrow> 4) = Ok (vbb_version b)"
    by (cases "vbb_version b") (simp_all add: parse_version_def)
  have ens: "ensure_section img ''header'' 0 (so_ramdisk (built_offsets b)) = Ok ()"
    "ensure_section img ''vendor ramdisk'' (so_ramdisk (built_offsets b)) (so_dtb (built_offsets b) - so_ramdisk (built_offsets b)) = Ok ()"
    "ensure_section img ''dtb'' (so_dtb (built_offsets b)) (so_table (built_offsets b) - so_dtb (built_offsets b)) = Ok ()"
    using im(2-8) by (intro ensure_section_Ok; simp)+
  show ?thesis
    using len hdr ver ens builder_sizes(7) [OF ok] built_section_offsets [OF ok] built_check_table [OF ok img]
      built_entries [OF le ok img]
    by (simp add: parse_vendor_boot_def Let_def not_less as_u32_def)
qed


section \<open>What the parser accepts\<close>

definition entry_inside :: "u32 \<Rightarrow> VendorRamdiskTableEntry \<Rightarrow> bool" where
  "entry_inside rd e \<longleftrightarrow> unat (re_offset e) + unat (re_size e) \<le> unat rd"

lemma parse_entries_sound:
  "parse_entries bo data table rd acc is = Ok es \<Longrightarrow> list_all (entry_inside rd) acc \<Longrightarrow> distinct (map re_name acc) \<Longrightarrow>
   list_all (entry_inside rd) es \<and> distinct (map re_name es) \<and> length es = length acc + length is"
proof (induction bo data table rd acc "is" rule: parse_entries.induct)
  case (2 bo data table rd acc i "is")
  from "2.prems"(1) obtain raw e en where e: "slice data (table + i * VENDOR_RAMDISK_TABLE_ENTRY_SIZE)
        (table + i * VENDOR_RAMDISK_TABLE_ENTRY_SIZE + VENDOR_RAMDISK_TABLE_ENTRY_SIZE) = (Ok raw :: (_, VendorBootError) outcome)"
      "parse_entry bo raw i = Ok e" "checked_add_u32 (re_offset e) (re_size e) = Some en" "\<not> rd < en"
      "\<not> list_ex (\<lambda>old. re_name old = re_name e) acc"
      "parse_entries bo data table rd (acc @ [e]) is = Ok es"
    by (auto simp: Let_def split: if_splits)
  have "entry_inside rd e" using e(3,4) unat_checked_add_u32 [OF e(3)] by (simp add: entry_inside_def word_less_nat_alt)
  moreover have "re_name e \<notin> re_name ` set acc" using e(5) by (auto simp: list_ex_iff)
  ultimately show ?case using "2.IH" [OF refl e(1,2) _ e(4,5)] e(3,6) "2.prems"(2,3) by simp
qed simp

lemma parse_entry_noPanic:
  assumes "length raw = 108"
  shows "parse_entry bo raw i \<noteq> Panic"
proof -
  have "read_board_id bo raw is \<noteq> Panic" if "\<forall>j \<in> set is. j < 16" for "is"
    using that assms by (induction "is") (auto simp: and_then_eq_Panic get_u32_eq_Panic)
  from this [of "[0..<16]"] show ?thesis
    using assms by (auto simp: parse_entry_def and_then_eq_Panic get_u32_eq_Panic slice_eq_Panic vb_sizes)
qed

lemma parse_entries_noPanic:
  "\<forall>i \<in> set is. table + (i * 108 + 108) \<le> length data \<Longrightarrow> parse_entries bo data table rd acc is \<noteq> Panic"
proof (induction bo data table rd acc "is" rule: parse_entries.induct)
  case (2 bo data table rd acc i "is")
  let ?s = "table + i * 108"
  from "2.prems" have sl: "slice data ?s (?s + 108) = (Ok (take 108 (drop ?s data)) :: (_, VendorBootError) outcome)"
    by (simp add: slice_def)
  have len: "length (take 108 (drop ?s data)) = 108" using "2.prems" by (auto simp: min_def)
  show ?case
  proof (cases "parse_entry bo (take 108 (drop ?s data)) i")
    case (Ok e)
    show ?thesis
    proof (cases "checked_add_u32 (re_offset e) (re_size e)")
      case (Some en)
      with sl Ok "2.IH" [OF refl _ Ok, of en] "2.prems" show ?thesis by (simp add: vb_sizes)
    qed (simp add: sl Ok vb_sizes)
  qed (use parse_entry_noPanic [OF len] sl in \<open>simp_all add: vb_sizes\<close>)
qed simp

lemma read_vb_header_given:
  "read_vb_header bo data version page hsize = Ok h \<Longrightarrow>
   vb_version h = version \<and> vb_page_size h = page \<and> vb_header_size h = hsize"
  by (auto simp: read_vb_header_def)

lemma section_offsets_mono:
  assumes "section_offsets_for h = Ok offs" and "vb_page_size h \<noteq> 0"
  shows "unat (vb_header_size h) \<le> so_ramdisk offs"
    "so_ramdisk offs + unat (vb_vendor_ramdisk_size h) \<le> so_dtb offs"
    "so_dtb offs + unat (vb_dtb_size h) \<le> so_table offs"
    "so_table offs + unat (vb_table_size h) \<le> so_bootconfig offs"
    "so_bootconfig offs + unat (vb_bootconfig_size h) \<le> so_end offs"
    "so_end offs < 2 ^ 63"
proof -
  let ?p = "unat (vb_page_size h)"
  have p: "0 < ?p" using assms(2) by (simp add: unat_gt_0)
  note offs = assms(1) [unfolded section_offsets [OF assms(2)] Let_def outcome.inject, symmetric]
  show "unat (vb_header_size h) \<le> so_ramdisk offs"
    "so_ramdisk offs + unat (vb_vendor_ramdisk_size h) \<le> so_dtb offs"
    "so_dtb offs + unat (vb_dtb_size h) \<le> so_table offs"
    "so_table offs + unat (vb_table_size h) \<le> so_bootconfig offs"
    "so_bootconfig offs + unat (vb_bootconfig_size h) \<le> so_end offs"
    using vb_round_bounds(1) [OF p] by (simp_all add: offs)
  have "vb_round ?p (unat w) < 2 ^ 33" for w :: u32
    using vb_round_bounds(2) [OF p, of "unat w"] u32_less [of w] u32_less [of "vb_page_size h"] by simp
  from this [of "vb_header_size h"] this [of "vb_vendor_ramdisk_size h"] this [of "vb_dtb_size h"]
    this [of "vb_table_size h"] this [of "vb_bootconfig_size h"]
  show "so_end offs < 2 ^ 63" by (simp add: offs)
qed

text \<open>The steps of a successful run.\<close>

lemma parse_vendor_boot_steps:
  assumes "parse_vendor_boot bo data = Ok vi"
  shows "vi_data vi = data \<and> vb_page_size (vi_header vi) \<noteq> 0 \<and>
    section_offsets_for (vi_header vi) = Ok (vi_offsets vi) \<and> so_table (vi_offsets vi) \<le> length data \<and>
    check_table data (vi_header vi) (vi_offsets vi) = Ok () \<and>
    parse_entries bo data (so_table (vi_offsets vi)) (vb_vendor_ramdisk_size (vi_header vi)) []
       [0..<(if vb_version (vi_header vi) = VB_V4 then unat (vb_table_entry_num (vi_header vi)) else 0)] =
      Ok (vi_entries vi)"
proof -
  from assms obtain raw version page hsize h offs es where
    h: "read_vb_header bo data version page hsize = Ok h" "page \<noteq> 0" and offs: "section_offsets_for h = Ok offs"
    and dtb: "so_dtb offs + (so_table offs - so_dtb offs) \<le> length data" and ct: "check_table data h offs = Ok ()"
    and es: "parse_entries bo data (so_table offs) (vb_vendor_ramdisk_size h) []
      [0..<(if version = VB_V4 then unat (vb_table_entry_num h) else 0)] = Ok es"
    and vi: "vi = \<lparr>vi_header = h, vi_data = data, vi_entries = es, vi_offsets = offs\<rparr>"
    unfolding parse_vendor_boot_def Let_def and_then_eq_Ok
    by (auto simp: ensure_section_eq_Ok split: if_splits)
  note given = read_vb_header_given [OF h(1)]
  have "so_dtb offs \<le> so_table offs" using section_offsets_mono(3) [OF offs] given h(2) by simp
  with given h(2) offs dtb ct es show ?thesis by (cases "version = VB_V4") (simp_all add: vi)
qed

lemma parse_v3_sizes:
  assumes "parse_vendor_boot bo data = Ok vi" and "vb_version (vi_header vi) \<noteq> VB_V4"
  shows "vb_bootconfig_size (vi_header vi) = 0" "vb_table_size (vi_header vi) = 0"
  using assms unfolding parse_vendor_boot_def Let_def and_then_eq_Ok
  by (auto simp: read_vb_header_def v4_field_def split: if_splits)

lemma check_table_Ok:
  assumes "check_table data h offs = Ok u" and "vb_version h = VB_V4"
  shows "unat (vb_table_entry_num h) * 108 = unat (vb_table_size h)"
    and "so_bootconfig offs + (so_end offs - so_bootconfig offs) \<le> length data"
  using assms by (auto simp: check_table_def ensure_section_eq_Ok vb_sizes Let_def split: if_splits)

text \<open>The layout every accepted image has.\<close>

definition vb_layout :: "VendorBootImage \<Rightarrow> bool" where
  "vb_layout vi \<longleftrightarrow> (let h = vi_header vi; offs = vi_offsets vi in
     unat (vb_header_size h) \<le> so_ramdisk offs \<and>
     so_ramdisk offs + unat (vb_vendor_ramdisk_size h) \<le> so_dtb offs \<and>
     so_dtb offs + unat (vb_dtb_size h) \<le> so_table offs \<and>
     so_table offs + unat (vb_table_size h) \<le> so_bootconfig offs \<and>
     so_bootconfig offs + unat (vb_bootconfig_size h) \<le> length (vi_data vi))"


lemma parse_layout:
  assumes "parse_vendor_boot bo data = Ok vi"
  shows "vb_layout vi"
proof -
  note st = parse_vendor_boot_steps [OF assms]
  then have offs: "section_offsets_for (vi_header vi) = Ok (vi_offsets vi)" "vb_page_size (vi_header vi) \<noteq> 0" by simp_all
  note mono = section_offsets_mono [OF offs]
  show ?thesis
  proof (cases "vb_version (vi_header vi) = VB_V4")
    case True
    with st check_table_Ok(2) mono show ?thesis by (fastforce simp: vb_layout_def Let_def)
  next
    case False
    then have "vb_bootconfig_size (vi_header vi) = 0" "vb_table_size (vi_header vi) = 0"
      using parse_v3_sizes [OF assms] by simp_all
    moreover from this have "so_bootconfig (vi_offsets vi) = so_table (vi_offsets vi)"
      using section_offsets [OF offs(2)] offs(1) by (simp add: Let_def vb_round_0 unat_gt_0 offs(2))
    ultimately show ?thesis using st mono by (simp add: vb_layout_def Let_def)
  qed
qed

lemma read_vb_header_noPanic: "vb_header_len version \<le> length data \<Longrightarrow> read_vb_header bo data version page hsize \<noteq> Panic"
  by (cases version)
    (auto simp: read_vb_header_def v4_field_def vb_header_len_def vb_sizes and_then_eq_Panic slice_eq_Panic
      get_noPanic)

lemma section_offsets_noPanic: "section_offsets_for h \<noteq> Panic"
  by (auto simp: section_offsets_for_def vb_align_def vb_add_def Let_def and_then_eq_Panic)

lemma check_table_noPanic: "check_table data h offs \<noteq> Panic"
  by (auto simp: check_table_def Let_def and_then_eq_Panic split: if_splits)

lemma parse_version_noPanic: "parse_version raw \<noteq> Panic"
  by (simp add: parse_version_def)

lemma table_noPanic:
  assumes offs: "section_offsets_for h = Ok offs" and page: "vb_page_size h \<noteq> 0"
    and ct: "check_table data h offs = Ok ()"
  shows "parse_entries bo data (so_table offs) rd []
    [0..<(if vb_version h = VB_V4 then unat (vb_table_entry_num h) else 0)] \<noteq> Panic"
proof (cases "vb_version h = VB_V4")
  case True
  note ctb = check_table_Ok [OF ct True] and mono = section_offsets_mono [OF offs page]
  show ?thesis
  proof (rule parse_entries_noPanic, intro ballI)
    fix i
    assume "i \<in> set [0..<(if vb_version h = VB_V4 then unat (vb_table_entry_num h) else 0)]"
    then have "Suc i \<le> unat (vb_table_entry_num h)" using True by auto
    then have "Suc i * 108 \<le> unat (vb_table_size h)" using mult_le_mono1 [of "Suc i" _ 108] ctb(1) by simp
    then show "so_table offs + (i * 108 + 108) \<le> length data" using ctb(2) mono(4,5) by simp
  qed
qed simp

lemma parse_vendor_boot_noPanic: "parse_vendor_boot bo data \<noteq> Panic"
proof
  assume "parse_vendor_boot bo data = Panic"
  then obtain version page hsize h offs where
    "read_vb_header bo data version page hsize = Ok h" "page \<noteq> 0"
    and offs: "section_offsets_for h = Ok offs" and ct: "check_table data h offs = Ok ()"
    and es: "parse_entries bo data (so_table offs) (vb_vendor_ramdisk_size h) []
      [0..<(if version = VB_V4 then unat (vb_table_entry_num h) else 0)] = Panic"
    unfolding parse_vendor_boot_def Let_def
    by (auto simp: and_then_eq_Panic get_u32_eq_Panic section_offsets_noPanic check_table_noPanic
        parse_version_noPanic VENDOR_BOOT_HEADER_V3_SIZE_def not_less read_vb_header_noPanic
        split del: if_split split: if_split_asm)
  moreover from this have "vb_version h = version" "vb_page_size h \<noteq> 0"
    using read_vb_header_given by blast+
  ultimately show False using table_noPanic [OF offs _ ct] by blast
qed


section \<open>Properties\<close>


definition sample_builder :: VendorBootBuilder where
  "sample_builder = add_table_entry
     ((VendorRamdiskTableEntry_new (str ''recovery'') 2 2)\<lparr>re_offset := 1\<rparr>)
     (add_table_entry (VendorRamdiskTableEntry_new (str ''platform'') 1 1)
     ((VendorBootBuilder_new VB_V4)\<lparr>vbb_page_size := 1000, vbb_ramdisk := [1, 2, 3], vbb_dtb := [9],
        vbb_bootconfig := [7, 7]\<rparr>))"


text \<open>
  C31: The vendor_boot parser is total and what it accepts is consistent. It panics on no input, and
  the sections of an accepted image lie in order and without overlap inside the image, so that the three
  accessors return and every table entry lies inside the ramdisk, under a name of its own.
\<close>

theorem vendor_boot_parse_sound:
  "parse_vendor_boot bo data \<noteq> Panic \<and>
   (case parse_vendor_boot bo data of
      Ok vi \<Rightarrow> vb_layout vi \<and> list_all (entry_inside (vb_vendor_ramdisk_size (vi_header vi))) (vi_entries vi) \<and>
        distinct (map re_name (vi_entries vi)) \<and>
        vi_ramdisk vi \<noteq> Panic \<and> vi_dtb vi \<noteq> Panic \<and> vi_bootconfig vi \<noteq> Panic
    | _ \<Rightarrow> True)"
proof (cases "parse_vendor_boot bo data")
  case (Ok vi)
  note st = parse_vendor_boot_steps [OF Ok] and lay = parse_layout [OF Ok]
  from st parse_entries_sound [of bo data _ "vb_vendor_ramdisk_size (vi_header vi)" "[]"]
  have "list_all (entry_inside (vb_vendor_ramdisk_size (vi_header vi))) (vi_entries vi)" "distinct (map re_name (vi_entries vi))"
    by auto
  moreover have "vi_ramdisk vi \<noteq> Panic" "vi_dtb vi \<noteq> Panic" "vi_bootconfig vi \<noteq> Panic"
    using lay by (auto simp: vb_layout_def Let_def vi_ramdisk_def vi_dtb_def vi_bootconfig_def slice_eq_Panic)
  ultimately show ?thesis using Ok lay by simp
qed (simp_all add: parse_vendor_boot_noPanic)

end
