(* ===== verification/APacket_Reader.thy ===== *)
theory APacket_Reader
  imports Adb_Header
begin

text \<open>
  The two packet reassemblers of the ADB server (\<open>adb-fastboot-cli/src/server/apacket_reader.rs\<close>).

  \<^item> \<open>APacketReader\<close> is fed with blocks of bytes (\<open>add_bytes\<close>) and keeps a header block, the decoded
    header and a payload block between the calls. The loop over a block is the recursion of
    \<open>process_block\<close>. The specification is \<open>frames\<close>, which cuts the whole stream at once.
  \<^item> \<open>APacketStreamReader\<close> pulls from a \<open>Read\<close> and keeps its state across failing reads.

  \<open>debug_assert_eq!\<close> is not compiled into the release profile and is left out. The error strings of
  \<open>fill\<close> are the constructors of \<open>FillError\<close>, one per \<open>format!\<close> of the source.
\<close>

section \<open>Blocks\<close>

definition MAX_PAYLOAD :: u32 where
  "MAX_PAYLOAD = MAX_PAYLOAD_V2"

record Block =
  bl_buf :: bytes
  bl_pos :: nat

definition Block_new :: "nat \<Rightarrow> Block" where
  "Block_new n = \<lparr>bl_buf = replicate n 0, bl_pos = 0\<rparr>"

definition Block_from_vec :: "bytes \<Rightarrow> Block" where
  "Block_from_vec v = \<lparr>bl_buf = v, bl_pos = 0\<rparr>"

definition Block_remaining :: "Block \<Rightarrow> nat" where
  "Block_remaining b = length (bl_buf b) - bl_pos b"

definition Block_is_full :: "Block \<Rightarrow> bool" where
  "Block_is_full b \<longleftrightarrow> bl_pos b \<ge> length (bl_buf b)"

definition Block_rewind :: "Block \<Rightarrow> Block" where
  "Block_rewind b = b\<lparr>bl_pos := 0\<rparr>"

definition Block_fill_from :: "Block \<Rightarrow> Block \<Rightarrow> Block \<times> Block" where
  "Block_fill_from self src =
     (let n = min (Block_remaining self) (Block_remaining src) in
      if n = 0 then (self, src)
      else (self\<lparr>bl_buf := put (bl_pos self) (take n (drop (bl_pos src) (bl_buf src))) (bl_buf self),
                 bl_pos := bl_pos self + n\<rparr>,
            src\<lparr>bl_pos := bl_pos src + n\<rparr>))"

definition Block_advance :: "nat \<Rightarrow> Block \<Rightarrow> Block" where
  "Block_advance n b = b\<lparr>bl_pos := min (bl_pos b + n) (length (bl_buf b))\<rparr>"

definition Block_clear :: "Block \<Rightarrow> Block" where
  "Block_clear b = \<lparr>bl_buf = replicate (length (bl_buf b)) 0, bl_pos = 0\<rparr>"

definition Block_resize :: "nat \<Rightarrow> Block \<Rightarrow> Block" where
  "Block_resize new_size b = \<lparr>bl_buf = resize new_size 0 (bl_buf b), bl_pos = min (bl_pos b) new_size\<rparr>"

section \<open>The block-fed reader\<close>

record AdbPacket =
  pkt_header :: AdbMessageHeader
  pkt_payload :: bytes

record APacketReader =
  rd_header :: Block
  rd_packet :: "AdbMessageHeader option"
  rd_payload :: "Block option"
  rd_packets :: "AdbPacket list"

definition APacketReader_new :: APacketReader where
  "APacketReader_new =
     \<lparr>rd_header = Block_new HEADER_SIZE, rd_packet = None, rd_payload = None, rd_packets = []\<rparr>"

definition le_u32_at :: "bytes \<Rightarrow> nat \<Rightarrow> (u32, 'e) outcome" where
  "le_u32_at buf i = and_then (slice buf i (i + 4)) (\<lambda>s. Ok (u32_from_le s))"

definition decode_framing_header :: "bytes \<Rightarrow> (AdbMessageHeader, 'e) outcome" where
  "decode_framing_header buf =
     and_then (le_u32_at buf 0) (\<lambda>c. and_then (le_u32_at buf 4) (\<lambda>a0.
     and_then (le_u32_at buf 8) (\<lambda>a1. and_then (le_u32_at buf 12) (\<lambda>dl.
     and_then (le_u32_at buf 16) (\<lambda>dc. and_then (le_u32_at buf 20) (\<lambda>mg.
       Ok \<lparr>command = c, arg0 = a0, arg1 = a1, data_length = dl, data_check = dc, magic = mg\<rparr>))))))"

definition prepare_next :: "APacketReader \<Rightarrow> APacketReader" where
  "prepare_next r = r\<lparr>rd_header := Block_rewind (rd_header r), rd_packet := None, rd_payload := None\<rparr>"

definition push_packet :: "AdbMessageHeader \<Rightarrow> bytes \<Rightarrow> APacketReader \<Rightarrow> APacketReader" where
  "push_packet h p r = r\<lparr>rd_packets := rd_packets r @ [\<lparr>pkt_header = h, pkt_payload = p\<rparr>]\<rparr>"

text \<open>
  The part of \<open>process_block\<close> behind the test for an empty payload, up to the recursive call. The
  last component says whether a packet was completed, so that the rest of the block is processed.
\<close>

definition fill_payload :: "APacketReader \<Rightarrow> Block \<Rightarrow> (APacketReader \<times> Block \<times> bool, unit) outcome" where
  "fill_payload r block =
     (case rd_payload r of
        None \<Rightarrow> Ok (r, block, False)
      | Some pb \<Rightarrow>
          let (pb, block) = Block_fill_from pb block in
          if Block_is_full pb then
            (case rd_packet r of
               None \<Rightarrow> Panic
             | Some hdr \<Rightarrow> Ok (prepare_next (push_packet hdr (bl_buf pb) r), block, True))
          else Ok (r\<lparr>rd_payload := Some pb\<rparr>, block, False))"

definition start_payload :: "APacketReader \<Rightarrow> Block \<Rightarrow> (APacketReader, unit) outcome" where
  "start_payload r block =
     (if rd_payload r = None \<and> Block_remaining block > 0 then
        (case rd_packet r of
           None \<Rightarrow> Panic
         | Some h \<Rightarrow> Ok (r\<lparr>rd_payload := Some (Block_new (unat (data_length h)))\<rparr>))
      else Ok r)"

definition payload_step ::
  "AdbMessageHeader \<Rightarrow> APacketReader \<Rightarrow> Block \<Rightarrow> (APacketReader \<times> Block \<times> bool, unit) outcome" where
  "payload_step h r block =
     (if Block_remaining block = 0 \<and> rd_packet r = None then Ok (r\<lparr>rd_packet := Some h\<rparr>, block, False)
      else let plen = unat (data_length h) in
        if rd_packet r = None \<and> Block_remaining block = plen then
          and_then (slice (bl_buf block) (bl_pos block) (bl_pos block + plen)) (\<lambda>p.
            Ok (prepare_next (push_packet h p (r\<lparr>rd_packet := Some h\<rparr>)), Block_advance plen block, True))
        else
          let r = (if rd_packet r = None
                   then r\<lparr>rd_packet := Some h, rd_payload := Some (Block_new plen)\<rparr> else r) in
          and_then (start_payload r block) (\<lambda>r. fill_payload r block))"

lemma fill_from_remaining:
  "Block_fill_from d s = (d', s') \<Longrightarrow> Block_remaining s' + (bl_pos d' - bl_pos d) = Block_remaining s \<and>
     bl_pos d \<le> bl_pos d' \<and> length (bl_buf d') = length (bl_buf d) \<and>
     (0 < Block_remaining d \<longrightarrow> 0 < Block_remaining s \<longrightarrow> bl_pos d < bl_pos d')"
  by (auto simp: Block_fill_from_def Block_remaining_def Let_def split: if_splits)

lemma payload_step_frame:
  assumes "payload_step h r b = Ok (r', b', True)"
  shows "Block_remaining b' \<le> Block_remaining b \<and> rd_header r' = Block_rewind (rd_header r)"
proof -
  have fill: "fill_payload q b = Ok (r', b', True) \<Longrightarrow>
      Block_remaining b' \<le> Block_remaining b \<and> rd_header r' = Block_rewind (rd_header q)" for q
    using fill_from_remaining
    by (fastforce simp: fill_payload_def prepare_next_def push_packet_def
        split: option.splits prod.splits if_splits)
  have start: "start_payload q b = Ok q' \<Longrightarrow> rd_header q' = rd_header q" for q q'
    by (auto simp: start_payload_def split: if_splits option.splits)
  have "rd_header q' = rd_header r \<Longrightarrow> and_then (start_payload q' b) (\<lambda>r. fill_payload r b) = Ok (r', b', True) \<Longrightarrow>
      Block_remaining b' \<le> Block_remaining b \<and> rd_header r' = Block_rewind (rd_header r)" for q'
    using fill start by fastforce
  from this [of "r\<lparr>rd_packet := Some h, rd_payload := Some (Block_new (unat (data_length h)))\<rparr>"] this [of r]
  show ?thesis using assms
    by (auto simp: payload_step_def Let_def prepare_next_def push_packet_def Block_advance_def
        Block_remaining_def split: if_splits)
qed

text \<open>
  A completed packet rewinds the header block, so the recursion either consumes bytes of the block or
  leaves a header block that is not full.
\<close>

function process_block :: "APacketReader \<Rightarrow> Block \<Rightarrow> (APacketReader \<times> Block, unit) outcome" where
  "process_block r block =
     (if Block_remaining block = 0 then Ok (r, block)
      else case Block_fill_from (rd_header r) block of (hb, block) \<Rightarrow>
        let r = r\<lparr>rd_header := hb\<rparr> in
        if \<not> Block_is_full hb then Ok (r, block)
        else and_then (decode_framing_header (bl_buf hb)) (\<lambda>h.
          if data_length h > MAX_PAYLOAD then Ok (prepare_next r, block)
          else if data_length h = 0 then process_block (prepare_next (push_packet h [] r)) block
          else and_then (payload_step h r block) (\<lambda>(r, block, again).
            if again then process_block r block else Ok (r, block))))"
  by pat_completeness auto

lemma decode_framing_length: "decode_framing_header buf = Ok h \<Longrightarrow> 24 \<le> length buf"
  by (auto simp: decode_framing_header_def le_u32_at_def slice_eq_Ok)

lemma rewind_not_full: "0 < length (bl_buf b) \<Longrightarrow> \<not> Block_is_full (Block_rewind b)"
  by (simp add: Block_is_full_def Block_rewind_def)

lemma process_block_shrinks:
  assumes "0 < Block_remaining block" and "(hb, block1) = Block_fill_from (rd_header r) block"
    and "decode_framing_header (bl_buf hb) = (Ok h :: (_, unit) outcome)"
    and "Block_remaining block2 \<le> Block_remaining block1" and "rd_header r' = Block_rewind hb"
  shows "2 * Block_remaining block2 + (if Block_is_full (rd_header r') then 1 else 0) <
    2 * Block_remaining block + (if Block_is_full (rd_header r) then 1 else (0 :: nat))"
proof -
  have "\<not> Block_is_full (rd_header r')"
    using rewind_not_full [of hb] decode_framing_length [OF assms(3)] assms(5) by fastforce
  moreover have "Block_remaining block1 < Block_remaining block \<or>
      Block_remaining block1 = Block_remaining block \<and> Block_is_full (rd_header r)"
    using fill_from_remaining [OF assms(2) [symmetric]] assms(1)
    by (auto simp: Block_is_full_def Block_remaining_def)
  ultimately show ?thesis using assms(4) by auto
qed

termination process_block
proof (relation "measure (\<lambda>(r, b). 2 * Block_remaining b + (if Block_is_full (rd_header r) then 1 else 0))",
    goal_cases)
  case (2 r block hb block1 r1 h)
  then show ?case
    using process_block_shrinks [of block hb block1 r h block1 "prepare_next (push_packet h [] r1)"]
    by (simp add: prepare_next_def push_packet_def)
next
  case (3 r block hb block1 r1 h x r2 y block2 again)
  then show ?case
    using process_block_shrinks [of block hb block1 r h block2 r2] payload_step_frame [of h r1 block1 r2 block2]
    by simp
qed simp

declare process_block.simps [simp del]

definition add_bytes :: "APacketReader \<Rightarrow> bytes \<Rightarrow> (AdbPacket list \<times> APacketReader, unit) outcome" where
  "add_bytes r data =
     (if data = [] then Ok (rd_packets r, r\<lparr>rd_packets := []\<rparr>)
      else and_then (process_block r (Block_from_vec data)) (\<lambda>(r, _).
        Ok (rd_packets r, r\<lparr>rd_packets := []\<rparr>)))"

definition drain_packets :: "APacketReader \<Rightarrow> AdbPacket list \<times> APacketReader" where
  "drain_packets r = (rd_packets r, r\<lparr>rd_packets := []\<rparr>)"

text \<open>A sequence of \<open>add_bytes\<close> calls: the packets each of them returned.\<close>

fun feed :: "APacketReader \<Rightarrow> bytes list \<Rightarrow> (AdbPacket list list \<times> APacketReader, unit) outcome" where
  "feed r [] = Ok ([], r)"
| "feed r (c # cs) = and_then (add_bytes r c) (\<lambda>(ps, r).
     and_then (feed r cs) (\<lambda>(pss, r). Ok (ps # pss, r)))"

section \<open>The specification: cutting the whole stream\<close>

definition framing_header :: "bytes \<Rightarrow> AdbMessageHeader" where
  "framing_header buf =
     \<lparr>command = u32_from_le (take 4 buf), arg0 = u32_from_le (take 4 (drop 4 buf)),
      arg1 = u32_from_le (take 4 (drop 8 buf)), data_length = u32_from_le (take 4 (drop 12 buf)),
      data_check = u32_from_le (take 4 (drop 16 buf)), magic = u32_from_le (take 4 (drop 20 buf))\<rparr>"

definition payload_size :: "bytes \<Rightarrow> nat" where
  "payload_size s = unat (data_length (framing_header s))"

function frames :: "bytes \<Rightarrow> AdbPacket list \<times> bytes" where
  "frames s =
     (if length s < 24 + payload_size s \<or> length s < 24 then ([], s)
      else let (ps, rest) = frames (drop (24 + payload_size s) s)
        in (\<lparr>pkt_header = framing_header s, pkt_payload = take (payload_size s) (drop 24 s)\<rparr> # ps, rest))"
  by pat_completeness auto
termination by (relation "measure length") auto

text \<open>No header in the stream announces more than \<open>MAX_PAYLOAD\<close> bytes.\<close>

function well_framed :: "bytes \<Rightarrow> bool" where
  "well_framed s =
     (if length s < 24 then True
      else if data_length (framing_header s) > MAX_PAYLOAD then False
      else if length s < 24 + payload_size s then True
      else well_framed (drop (24 + payload_size s) s))"
  by pat_completeness auto
termination by (relation "measure length") auto

declare frames.simps [simp del] well_framed.simps [simp del]

lemma frames_incomplete: "length s < 24 + payload_size s \<or> length s < 24 \<Longrightarrow> frames s = ([], s)"
  by (auto simp: frames.simps)

lemma frames_complete:
  "24 + payload_size s \<le> length s \<Longrightarrow>
   frames s = (\<lparr>pkt_header = framing_header s, pkt_payload = take (payload_size s) (drop 24 s)\<rparr> #
      fst (frames (drop (24 + payload_size s) s)), snd (frames (drop (24 + payload_size s) s)))"
  by (subst frames.simps) (simp add: split_def Let_def)

lemma framing_header_prefix: "24 \<le> length s \<Longrightarrow> framing_header (s @ t) = framing_header s"
  "framing_header (take 24 s) = framing_header s"
  by (simp_all add: framing_header_def drop_take)

lemma payload_size_prefix: "24 \<le> length s \<Longrightarrow> payload_size (s @ t) = payload_size s"
  by (simp add: payload_size_def framing_header_prefix)

lemma decode_framing_header_eq: "24 \<le> length buf \<Longrightarrow> decode_framing_header buf = Ok (framing_header buf)"
  by (simp add: decode_framing_header_def le_u32_at_def slice_Ok framing_header_def)

section \<open>The reader implements the specification\<close>

abbreviation block_rest :: "Block \<Rightarrow> bytes" where
  "block_rest b \<equiv> drop (bl_pos b) (bl_buf b)"

text \<open>The block \<open>b\<close> has the capacity \<open>n\<close> and has been filled with \<open>xs\<close>.\<close>

definition filled :: "Block \<Rightarrow> nat \<Rightarrow> bytes \<Rightarrow> bool" where
  "filled b n xs \<longleftrightarrow> length (bl_buf b) = n \<and> length xs \<le> n \<and> bl_pos b = length xs \<and>
     take (length xs) (bl_buf b) = xs"

lemma filled_new: "filled (Block_new n) n []" "filled b n xs \<Longrightarrow> filled (Block_rewind b) n []"
  by (auto simp: filled_def Block_new_def Block_rewind_def)

lemma filled_full: "filled b n xs \<Longrightarrow> Block_is_full b \<longleftrightarrow> length xs = n"
  unfolding filled_def Block_is_full_def by linarith

lemma filled_buf: "filled b n xs \<Longrightarrow> length xs = n \<Longrightarrow> bl_buf b = xs"
  unfolding filled_def by (metis order_refl take_all)

lemma fill_from_filled:
  assumes "filled b n xs"
  obtains b' src' where "Block_fill_from b src = (b', src')"
    and "filled b' n (xs @ take (n - length xs) (block_rest src))"
    and "block_rest src' = drop (n - length xs) (block_rest src)"
proof -
  obtain b' src' where f: "Block_fill_from b src = (b', src')" by (cases "Block_fill_from b src")
  let ?k = "min (Block_remaining b) (Block_remaining src)"
  from assms have rem: "Block_remaining b = n - length xs" by (simp add: filled_def Block_remaining_def)
  have tk: "take ?k (block_rest src) = take (n - length xs) (block_rest src)"
    by (simp add: rem [unfolded Block_remaining_def] Block_remaining_def min_def)
  have dr: "drop ?k (block_rest src) = drop (n - length xs) (block_rest src)"
    by (cases "n - length xs \<le> Block_remaining src") (simp_all add: rem [unfolded Block_remaining_def] Block_remaining_def min_def)
  have "filled b' n (xs @ take ?k (block_rest src)) \<and> block_rest src' = drop ?k (block_rest src)"
    using f assms
    by (auto simp: Block_fill_from_def Let_def filled_def put_def Block_remaining_def min_def add.commute
        split: if_splits)
  then have "filled b' n (xs @ take (n - length xs) (block_rest src))"
    and "block_rest src' = drop (n - length xs) (block_rest src)"
    unfolding tk dr by blast+
  with f show thesis by (rule that)
qed

text \<open>Between two calls the reader holds the bytes \<open>pend\<close> of an incomplete packet.\<close>

definition reader_holds :: "APacketReader \<Rightarrow> bytes \<Rightarrow> bool" where
  "reader_holds r pend \<longleftrightarrow> filled (rd_header r) 24 (take 24 pend) \<and>
     (if length pend < 24 then rd_packet r = None \<and> rd_payload r = None
      else rd_packet r = Some (framing_header pend) \<and> length pend < 24 + payload_size pend \<and>
        (case rd_payload r of
           None \<Rightarrow> length pend = 24
         | Some pb \<Rightarrow> filled pb (payload_size pend) (drop 24 pend)))"

lemma reader_holds_new: "reader_holds APacketReader_new []"
  using filled_new(1) [of 24] by (simp add: reader_holds_def APacketReader_new_def HEADER_SIZE_def)

lemma reader_holds_incomplete: "reader_holds r pend \<Longrightarrow> frames pend = ([], pend)"
  by (intro frames_incomplete) (auto simp: reader_holds_def split: if_splits)

lemma reader_holds_next:
  "filled (rd_header r) 24 xs \<Longrightarrow> reader_holds (prepare_next r) [] \<and> reader_holds (prepare_next (push_packet h p r)) []"
  using filled_new(2) by (auto simp: reader_holds_def prepare_next_def push_packet_def)

lemma rd_packets_next [simp]:
  "rd_packets (prepare_next r) = rd_packets r"
  "rd_packets (push_packet h p r) = rd_packets r @ [\<lparr>pkt_header = h, pkt_payload = p\<rparr>]"
  by (simp_all add: prepare_next_def push_packet_def)

lemma reader_holds_packets [simp]: "reader_holds (r\<lparr>rd_packets := ps\<rparr>) pend \<longleftrightarrow> reader_holds r pend"
  by (simp add: reader_holds_def)

text \<open>
  What one turn has to achieve on the stream \<open>s\<close>: keep it when it is incomplete, else hand out its
  first packet and leave the rest in the block.
\<close>

abbreviation incomplete :: "bytes \<Rightarrow> bool" where
  "incomplete s \<equiv> length s < 24 + payload_size s \<or> length s < 24"

definition step_ok ::
  "bytes \<Rightarrow> AdbPacket list \<Rightarrow> (APacketReader \<times> Block \<times> bool, unit) outcome \<Rightarrow> bool" where
  "step_ok s ps res \<longleftrightarrow> (\<exists>r' b'.
     if incomplete s
     then res = Ok (r', b', False) \<and> reader_holds r' s \<and> rd_packets r' = ps
     else res = Ok (r', b', True) \<and> reader_holds r' [] \<and> block_rest b' = drop (24 + payload_size s) s \<and>
       rd_packets r' = ps @ [\<lparr>pkt_header = framing_header s, pkt_payload = take (payload_size s) (drop 24 s)\<rparr>])"

lemma fill_payload_ok:
  assumes hb: "filled (rd_header r) 24 (take 24 s)" and s: "24 \<le> length s"
    and pk: "rd_packet r = Some (framing_header s)" and pl: "rd_payload r = Some pb"
    and fl: "filled pb (payload_size s) xs" and rest: "drop 24 s = xs @ block_rest b"
  shows "step_ok s (rd_packets r) (fill_payload r b)"
proof -
  let ?n = "payload_size s"
  from fill_from_filled [OF fl] obtain pb' b' where
    f: "Block_fill_from pb b = (pb', b')" "filled pb' ?n (xs @ take (?n - length xs) (block_rest b))"
    "block_rest b' = drop (?n - length xs) (block_rest b)" .
  from fl have le: "length xs \<le> ?n" by (simp add: filled_def)
  then have tk: "xs @ take (?n - length xs) (block_rest b) = take ?n (drop 24 s)"
    "drop (?n - length xs) (block_rest b) = drop ?n (drop 24 s)"
    by (simp_all only: rest take_append drop_append take_all drop_all append_Nil)
  have len: "length (drop 24 s) = length s - 24" by simp
  show ?thesis
  proof (cases "length s < 24 + ?n")
    case True
    then have "take ?n (drop 24 s) = drop 24 s" by simp
    with f tk have "filled pb' ?n (drop 24 s)" by simp
    moreover from this True have "\<not> Block_is_full pb'" using s by (simp add: filled_full)
    ultimately show ?thesis
      using True hb s pk pl f(1) by (simp add: step_ok_def fill_payload_def reader_holds_def)
  next
    case False
    with f tk have "filled pb' ?n (take ?n (drop 24 s))" by simp
    moreover from this False s have "Block_is_full pb'" "bl_buf pb' = take ?n (drop 24 s)"
      by (simp_all add: filled_full filled_buf)
    moreover have "block_rest b' = drop (24 + ?n) s" using f tk by (simp add: add.commute)
    ultimately show ?thesis
      using False hb s pk pl f(1) reader_holds_next [OF hb] by (simp add: step_ok_def fill_payload_def)
  qed
qed

lemma remaining_rest: "Block_remaining b = length (block_rest b)"
  by (simp add: Block_remaining_def)

lemma payload_step_fresh:
  assumes hb: "filled (rd_header r) 24 (take 24 s)" and s: "24 \<le> length s" and n: "0 < payload_size s"
    and none: "rd_packet r = None" "rd_payload r = None" and rest: "block_rest b = drop 24 s"
  shows "step_ok s (rd_packets r) (payload_step (framing_header s) r b)"
proof -
  let ?n = "payload_size s" and ?h = "framing_header s"
  have n': "unat (data_length ?h) = ?n" by (simp add: payload_size_def)
  have rem: "Block_remaining b = length s - 24" by (simp add: remaining_rest rest)
  consider (header) "length s = 24" | (whole) "length s = 24 + ?n" | (part) "24 < length s" "length s \<noteq> 24 + ?n"
    using s by linarith
  then show ?thesis
  proof cases
    case header
    with n none hb show ?thesis
      by (simp add: step_ok_def payload_step_def rem reader_holds_def)
  next
    case whole
    then have pos: "bl_pos b + ?n = length (bl_buf b)" using n rem by (simp add: Block_remaining_def)
    from whole rest have "block_rest b = take ?n (drop 24 s)" by simp
    then have "slice (bl_buf b) (bl_pos b) (bl_pos b + ?n) = (Ok (take ?n (drop 24 s)) :: (_, unit) outcome)"
      by (simp add: slice_def eq_imp_le [OF pos])
    then show ?thesis
      using whole n none reader_holds_next [of "r\<lparr>rd_packet := Some ?h\<rparr>"] hb rem pos
      by (simp add: step_ok_def payload_step_def n' Block_advance_def)
  next
    case part
    let ?r = "r\<lparr>rd_packet := Some ?h, rd_payload := Some (Block_new ?n)\<rparr>"
    have "step_ok s (rd_packets ?r) (fill_payload ?r b)"
      using hb s filled_new(1) by (intro fill_payload_ok [where xs = "[]"]) (simp_all add: rest)
    moreover from part have "length s - 24 \<noteq> ?n" by linarith
    ultimately show ?thesis using part none rem by (simp add: payload_step_def n' start_payload_def Let_def)
  qed
qed

lemma payload_step_resume:
  assumes r: "reader_holds r pend" and len: "24 \<le> length pend" and rest: "block_rest b \<noteq> []"
  defines "s \<equiv> pend @ block_rest b"
  shows "step_ok s (rd_packets r) (payload_step (framing_header s) r b)"
proof -
  let ?n = "payload_size s"
  have hd: "framing_header s = framing_header pend" "?n = payload_size pend" "take 24 s = take 24 pend"
    using len by (simp_all add: s_def framing_header_prefix payload_size_prefix)
  have hb: "filled (rd_header r) 24 (take 24 s)" and pk: "rd_packet r = Some (framing_header s)"
    using r len hd by (simp_all add: reader_holds_def)
  have s: "24 \<le> length s" "drop 24 s = drop 24 pend @ block_rest b" using len by (simp_all add: s_def)
  have n': "unat (data_length (framing_header s)) = ?n" by (simp add: payload_size_def)
  from rest have rem: "0 < Block_remaining b" by (simp add: remaining_rest)
  show ?thesis
  proof (cases "rd_payload r")
    case None
    let ?r = "r\<lparr>rd_payload := Some (Block_new ?n)\<rparr>"
    from None r len have "length pend = 24" by (simp add: reader_holds_def)
    then have "step_ok s (rd_packets ?r) (fill_payload ?r b)"
      using hb pk s filled_new(1) by (intro fill_payload_ok [where xs = "[]"]) simp_all
    then show ?thesis using None pk rem by (simp add: payload_step_def start_payload_def n' Let_def)
  next
    case (Some pb)
    with r len hd have "filled pb ?n (drop 24 pend)" by (simp add: reader_holds_def)
    with Some hb pk s have "step_ok s (rd_packets r) (fill_payload r b)"
      by (intro fill_payload_ok)
    then show ?thesis using Some pk by (simp add: payload_step_def start_payload_def Let_def)
  qed
qed

lemma well_framed_step:
  assumes "well_framed s" and "24 \<le> length s"
  shows "\<not> data_length (framing_header s) > MAX_PAYLOAD"
    and "24 + payload_size s \<le> length s \<Longrightarrow> well_framed (drop (24 + payload_size s) s)"
  using assms by (subst (asm) well_framed.simps, simp split: if_splits)+

lemma process_block_done: "block_rest b = [] \<Longrightarrow> process_block r b = Ok (r, b)"
  by (subst process_block.simps) (simp add: Block_remaining_def)

text \<open>The header part of a call: either the block ends inside the header, or the header is complete.\<close>

lemma header_step:
  assumes r: "reader_holds r pend" and rest: "block_rest b \<noteq> []"
  defines "s \<equiv> pend @ block_rest b"
  obtains hb b1 where "Block_fill_from (rd_header r) b = (hb, b1)" and "filled hb 24 (take 24 s)"
    and "length pend < 24 \<Longrightarrow> block_rest b1 = drop 24 s"
    and "24 \<le> length pend \<Longrightarrow> b1 = b \<and> hb = rd_header r"
proof -
  from r have fl: "filled (rd_header r) 24 (take 24 pend)" by (simp add: reader_holds_def)
  from fill_from_filled [OF fl] obtain hb b1 where
    f: "Block_fill_from (rd_header r) b = (hb, b1)"
    "filled hb 24 (take 24 pend @ take (24 - length (take 24 pend)) (block_rest b))"
    "block_rest b1 = drop (24 - length (take 24 pend)) (block_rest b)" .
  have tk: "take 24 pend @ take (24 - length (take 24 pend)) (block_rest b) = take 24 s"
    by (cases "length pend < 24") (simp_all add: s_def)
  show thesis
  proof (rule that [OF f(1)])
    show "filled hb 24 (take 24 s)" using f(2) unfolding tk .
    show "block_rest b1 = drop 24 s" if "length pend < 24"
      using f(3) that by (simp add: s_def)
    show "b1 = b \<and> hb = rd_header r" if "24 \<le> length pend"
      using f(1) fl that by (auto simp: Block_fill_from_def Block_remaining_def filled_def)
  qed
qed

lemma payload_step_ok:
  assumes r: "reader_holds r pend" and rest: "block_rest b \<noteq> []"
    and f: "Block_fill_from (rd_header r) b = (hb, b1)" and hb: "filled hb 24 (take 24 (pend @ block_rest b))"
    and b1: "length pend < 24 \<Longrightarrow> block_rest b1 = drop 24 (pend @ block_rest b)"
      "24 \<le> length pend \<Longrightarrow> b1 = b \<and> hb = rd_header r"
    and s: "24 \<le> length (pend @ block_rest b)" "0 < payload_size (pend @ block_rest b)"
  shows "step_ok (pend @ block_rest b) (rd_packets r)
    (payload_step (framing_header (pend @ block_rest b)) (r\<lparr>rd_header := hb\<rparr>) b1)"
proof (cases "length pend < 24")
  case True
  with r b1 hb s show ?thesis
    using payload_step_fresh [of "r\<lparr>rd_header := hb\<rparr>" "pend @ block_rest b" b1]
    by (simp add: reader_holds_def)
next
  case False
  then have len: "24 \<le> length pend" by simp
  with b1(2) have "b1 = b" "r\<lparr>rd_header := hb\<rparr> = r" by simp_all
  with payload_step_resume [OF r len rest] show ?thesis by simp
qed

text \<open>One turn of the recursion, and the loop it makes.\<close>

definition turn :: "APacketReader \<Rightarrow> Block \<Rightarrow> (APacketReader \<times> Block \<times> bool, unit) outcome" where
  "turn r block =
     (case Block_fill_from (rd_header r) block of (hb, block) \<Rightarrow>
        let r = r\<lparr>rd_header := hb\<rparr> in
        if \<not> Block_is_full hb then Ok (r, block, False)
        else and_then (decode_framing_header (bl_buf hb)) (\<lambda>h.
          if data_length h > MAX_PAYLOAD then Ok (prepare_next r, block, False)
          else if data_length h = 0 then Ok (prepare_next (push_packet h [] r), block, True)
          else payload_step h r block))"

lemma process_block_turn:
  "block_rest b \<noteq> [] \<Longrightarrow> process_block r b =
     and_then (turn r b) (\<lambda>(r, b, again). if again then process_block r b else Ok (r, b))"
  by (cases "Block_fill_from (rd_header r) b";
      cases "decode_framing_header (bl_buf (fst (Block_fill_from (rd_header r) b))) :: (_, unit) outcome")
    (simp_all add: process_block.simps [of r b] turn_def remaining_rest Let_def)

lemma turn_ok:
  assumes r: "reader_holds r pend" and rest: "block_rest b \<noteq> []" and wf: "well_framed (pend @ block_rest b)"
  shows "step_ok (pend @ block_rest b) (rd_packets r) (turn r b)"
proof -
  let ?s = "pend @ block_rest b"
  obtain hb b1 where f: "Block_fill_from (rd_header r) b = (hb, b1)" and hb: "filled hb 24 (take 24 ?s)"
    and b1: "length pend < 24 \<Longrightarrow> block_rest b1 = drop 24 ?s"
      "24 \<le> length pend \<Longrightarrow> b1 = b \<and> hb = rd_header r"
    using header_step [OF r rest] by metis
  let ?r = "r\<lparr>rd_header := hb\<rparr>" and ?h = "framing_header ?s"
  show ?thesis
  proof (cases "length ?s < 24")
    case True
    then have fl: "filled hb 24 ?s" using hb by simp
    with True have "turn r b = Ok (?r, b1, False)" by (simp add: turn_def f filled_full)
    moreover have "reader_holds ?r ?s" using fl True r by (simp add: reader_holds_def)
    ultimately show ?thesis using True by (simp add: step_ok_def)
  next
    case False
    then have s: "24 \<le> length ?s" and l24: "length (take 24 ?s) = 24" by simp_all
    have full: "Block_is_full hb" and "bl_buf hb = take 24 ?s"
      using filled_full [OF hb] filled_buf [OF hb] l24 by blast+
    then have dec: "decode_framing_header (bl_buf hb) = (Ok ?h :: (_, unit) outcome)"
      using l24 by (simp only: decode_framing_header_eq framing_header_prefix)
    note small = well_framed_step(1) [OF wf s]
    show ?thesis
    proof (cases "data_length ?h = 0")
      case True
      then have n0: "payload_size ?s = 0" by (simp add: payload_size_def)
      with r have "length pend < 24" by (cases "length pend < 24") (simp_all add: reader_holds_def payload_size_prefix)
      with b1(1) s n0 True small f full dec reader_holds_next [of ?r] hb show ?thesis
        by (simp add: step_ok_def turn_def)
    next
      case nz: False
      then have "0 < payload_size ?s" by (simp add: payload_size_def unat_gt_0)
      then have "step_ok ?s (rd_packets r) (payload_step ?h ?r b1)"
        by (intro payload_step_ok [OF r rest f hb b1 s])
      then show ?thesis using f full dec small nz by (simp add: turn_def)
    qed
  qed
qed

lemma process_block_ok:
  "reader_holds r pend \<Longrightarrow> well_framed (pend @ block_rest b) \<Longrightarrow>
   \<exists>r' b'. process_block r b = Ok (r', b') \<and> rd_packets r' = rd_packets r @ fst (frames (pend @ block_rest b)) \<and>
     reader_holds r' (snd (frames (pend @ block_rest b)))"
proof (induction "length (pend @ block_rest b)" arbitrary: r b pend rule: less_induct)
  case less
  let ?s = "pend @ block_rest b" and ?n = "payload_size (pend @ block_rest b)"
  show ?case
  proof (cases "block_rest b = []")
    case True
    with less.prems show ?thesis by (simp add: process_block_done reader_holds_incomplete)
  next
    case rest: False
    from turn_ok [OF less.prems(1) rest less.prems(2)] have step: "step_ok ?s (rd_packets r) (turn r b)" .
    show ?thesis
    proof (cases "incomplete ?s")
      case True
      with step obtain r2 b2 where "turn r b = Ok (r2, b2, False)" "reader_holds r2 ?s" "rd_packets r2 = rd_packets r"
        unfolding step_ok_def by (simp only: if_True) blast
      then show ?thesis
        unfolding process_block_turn [OF rest] frames_incomplete [OF True] by simp
    next
      case False
      with step obtain r2 b2 where st: "turn r b = Ok (r2, b2, True)"
        and r2: "reader_holds r2 []" "block_rest b2 = drop (24 + ?n) ?s"
          "rd_packets r2 = rd_packets r @ [\<lparr>pkt_header = framing_header ?s, pkt_payload = take ?n (drop 24 ?s)\<rparr>]"
        unfolding step_ok_def by (simp only: if_False) blast
      from False have ge: "24 + ?n \<le> length ?s" "24 \<le> length ?s" by simp_all
      have "length ([] @ block_rest b2) < length ?s" unfolding r2(2) using ge by simp
      moreover have "well_framed ([] @ block_rest b2)"
        unfolding r2(2) append_Nil by (rule well_framed_step(2) [OF less.prems(2) ge(2) ge(1)])
      ultimately obtain r3 b3 where "process_block r2 b2 = Ok (r3, b3)"
        "rd_packets r3 = rd_packets r2 @ fst (frames (drop (24 + ?n) ?s))"
        "reader_holds r3 (snd (frames (drop (24 + ?n) ?s)))"
        using less.hyps [OF _ r2(1), of b2] unfolding r2(2) append_Nil by blast
      then show ?thesis
        unfolding frames_complete [OF ge(1)] process_block_turn [OF rest] st r2(3) by simp
    qed
  qed
qed

lemma add_bytes_ok:
  assumes "reader_holds r pend" and "rd_packets r = []" and "well_framed (pend @ data)"
  obtains r' where "add_bytes r data = Ok (fst (frames (pend @ data)), r')" and "rd_packets r' = []"
    and "reader_holds r' (snd (frames (pend @ data)))"
proof (cases "data = []")
  case True
  with assms show thesis
    by (intro that [of r]) (simp_all add: add_bytes_def reader_holds_incomplete)
next
  case False
  have "block_rest (Block_from_vec data) = data" by (simp add: Block_from_vec_def)
  with process_block_ok [OF assms(1), of "Block_from_vec data"] assms(3) obtain r' b' where
    "process_block r (Block_from_vec data) = Ok (r', b')" "rd_packets r' = rd_packets r @ fst (frames (pend @ data))"
    "reader_holds r' (snd (frames (pend @ data)))" by auto
  with False assms(2) show thesis
    by (intro that [of "r'\<lparr>rd_packets := []\<rparr>"]) (simp_all add: add_bytes_def)
qed

text \<open>Cutting a longer stream goes on where the cut of a prefix stopped.\<close>

lemma frames_append:
  "frames (s @ t) = (fst (frames s) @ fst (frames (snd (frames s) @ t)), snd (frames (snd (frames s) @ t)))"
proof (induction s rule: frames.induct)
  case (1 s)
  show ?case
  proof (cases "incomplete s")
    case True
    then show ?thesis by (simp add: frames_incomplete)
  next
    case False
    then have len: "24 + payload_size s \<le> length s" "24 \<le> length s" by simp_all
    then have "frames (s @ t) = (\<lparr>pkt_header = framing_header s, pkt_payload = take (payload_size s) (drop 24 s)\<rparr> #
        fst (frames (drop (24 + payload_size s) s @ t)), snd (frames (drop (24 + payload_size s) s @ t)))"
      by (subst frames_complete) (simp_all add: payload_size_prefix framing_header_prefix)
    with "1.IH" [OF False] frames_complete [OF len(1)] show ?thesis by simp
  qed
qed

lemma well_framed_append:
  "well_framed (s @ t) \<longleftrightarrow> well_framed s \<and> well_framed (snd (frames s) @ t)"
proof (induction s rule: well_framed.induct)
  case (1 s)
  show ?case
  proof (cases "incomplete s \<or> data_length (framing_header s) > MAX_PAYLOAD")
    case True
    then consider "length s < 24" | "24 \<le> length s" "data_length (framing_header s) > MAX_PAYLOAD"
      | "24 \<le> length s" "length s < 24 + payload_size s" "\<not> data_length (framing_header s) > MAX_PAYLOAD"
      by linarith
    then show ?thesis
    proof cases
      case 2
      then show ?thesis
        by (simp add: well_framed.simps [of s] well_framed.simps [of "s @ t"] framing_header_prefix)
    qed (simp_all add: frames_incomplete well_framed.simps [of s])
  next
    case False
    then have len: "24 + payload_size s \<le> length s" "24 \<le> length s"
      and small: "\<not> data_length (framing_header s) > MAX_PAYLOAD" by auto
    have "well_framed (s @ t) = well_framed (drop (24 + payload_size s) s @ t)"
      using len small by (simp add: well_framed.simps [of "s @ t"] framing_header_prefix payload_size_prefix)
    moreover have "well_framed s = well_framed (drop (24 + payload_size s) s)"
      using len small by (simp add: well_framed.simps [of s])
    ultimately show ?thesis using 1 len small frames_complete [OF len(1)] by simp
  qed
qed

lemma feed_ok:
  "reader_holds r pend \<Longrightarrow> rd_packets r = [] \<Longrightarrow> well_framed (pend @ concat cs) \<Longrightarrow>
   \<exists>pss r'. feed r cs = Ok (pss, r') \<and> length pss = length cs \<and>
     concat pss = fst (frames (pend @ concat cs)) \<and> reader_holds r' (snd (frames (pend @ concat cs)))"
proof (induction cs arbitrary: r pend)
  case Nil
  then show ?case by (simp add: reader_holds_incomplete)
next
  case (Cons c cs)
  let ?p = "pend @ c"
  from Cons.prems(3) have wf: "well_framed ?p" "well_framed (snd (frames ?p) @ concat cs)"
    using well_framed_append [of ?p "concat cs"] by simp_all
  from add_bytes_ok [OF Cons.prems(1,2) wf(1)] obtain r1 where
    r1: "add_bytes r c = Ok (fst (frames ?p), r1)" "rd_packets r1 = []" "reader_holds r1 (snd (frames ?p))" .
  from Cons.IH [OF r1(3,2) wf(2)] r1(1) show ?case
    using frames_append [of ?p "concat cs"] by auto
qed

section \<open>The pulling reader\<close>

datatype PacketReadState = NeedHeader | NeedPayload nat

record APacketStreamReader =
  sr_reader :: net
  sr_buf :: bytes
  sr_state :: PacketReadState
  sr_pending :: "AdbMessageHeader option"
  sr_offset :: u64

datatype FillError =
    ReadFailed IoError
  | EofDuringHeader
  | BadHeader HeaderError
  | PayloadTooLarge nat
  | EofDuringPayload

type_synonym fill_result = "((AdbMessageHeader \<times> bytes) option, FillError) outcome"

definition APacketStreamReader_new :: "net \<Rightarrow> APacketStreamReader" where
  "APacketStreamReader_new net =
     \<lparr>sr_reader = net, sr_buf = [], sr_state = NeedHeader, sr_pending = None, sr_offset = 0\<rparr>"

definition tmp_len :: nat where
  "tmp_len = 8192"

text \<open>\<open>buf.extend_from_slice(&tmp[..n]); stream_offset += n\<close>\<close>

definition sr_extend :: "net \<Rightarrow> bytes \<Rightarrow> APacketStreamReader \<Rightarrow> APacketStreamReader" where
  "sr_extend net bs sr = sr\<lparr>sr_reader := net, sr_buf := sr_buf sr @ bs, sr_offset := sr_offset sr + of_nat (length bs)\<rparr>"

text \<open>The header is decoded in the state \<open>NeedHeader\<close> and either returned or remembered.\<close>

definition take_header :: "byteorder \<Rightarrow> APacketStreamReader \<Rightarrow> (fill_result + unit) \<times> APacketStreamReader" where
  "take_header bo sr =
     (case and_then (slice (sr_buf sr) 0 HEADER_SIZE) (AdbMessageHeader_decode bo) of
        Panic \<Rightarrow> (Inl Panic, sr)
      | Err e \<Rightarrow> (Inl (Err (BadHeader e)), sr)
      | Ok h \<Rightarrow>
          let data_len = unat (data_length h) in
          if data_len > unat MAX_PAYLOAD then (Inl (Err (PayloadTooLarge data_len)), sr)
          else if data_len = 0 then (Inl (Ok (Some (h, []))), sr\<lparr>sr_buf := drop HEADER_SIZE (sr_buf sr)\<rparr>)
          else (Inr (), sr\<lparr>sr_state := NeedPayload (data_len + HEADER_SIZE), sr_pending := Some h\<rparr>))"

definition take_payload :: "APacketStreamReader \<Rightarrow> fill_result \<times> APacketStreamReader" where
  "take_payload sr =
     (case sr_pending sr of
        None \<Rightarrow> (Panic, sr)
      | Some h \<Rightarrow>
          let sr = sr\<lparr>sr_pending := None\<rparr>; data_len = unat (data_length h) in
          case slice (sr_buf sr) HEADER_SIZE (HEADER_SIZE + data_len) of
            Ok payload \<Rightarrow> (Ok (Some (h, payload)),
              sr\<lparr>sr_buf := drop (HEADER_SIZE + data_len) (sr_buf sr), sr_state := NeedHeader\<rparr>)
          | Err e \<Rightarrow> (Err e, sr)
          | Panic \<Rightarrow> (Panic, sr))"

lemma tmp_len_pos: "0 < tmp_len"
  by (simp add: tmp_len_def)

lemma take_header_state:
  "take_header bo sr = (Inr u, sr') \<Longrightarrow> sr_reader sr' = sr_reader sr \<and> sr_state sr' \<noteq> NeedHeader"
  by (auto simp: take_header_def Let_def split: outcome.splits if_splits)

function fill :: "byteorder \<Rightarrow> APacketStreamReader \<Rightarrow> fill_result \<times> APacketStreamReader" where
  "fill bo sr =
     (case sr_state sr of
        NeedHeader \<Rightarrow>
          if length (sr_buf sr) < HEADER_SIZE then
            (case stream_read tmp_len (sr_reader sr) of
               (Ok bs, net) \<Rightarrow>
                 if bs = [] then
                   (if sr_buf sr = [] then Ok None else Err EofDuringHeader, sr\<lparr>sr_reader := net\<rparr>)
                 else fill bo (sr_extend net bs sr)
             | (Err e, net) \<Rightarrow> (Err (ReadFailed e), sr\<lparr>sr_reader := net\<rparr>)
             | (Panic, net) \<Rightarrow> (Panic, sr\<lparr>sr_reader := net\<rparr>))
          else (case take_header bo sr of
               (Inl res, sr) \<Rightarrow> (res, sr)
             | (Inr _, sr) \<Rightarrow> fill bo sr)
      | NeedPayload remaining \<Rightarrow>
          if length (sr_buf sr) < remaining then
            (case stream_read (min (remaining - length (sr_buf sr)) tmp_len) (sr_reader sr) of
               (Ok bs, net) \<Rightarrow>
                 if bs = [] then (Err EofDuringPayload, sr\<lparr>sr_reader := net\<rparr>)
                 else fill bo (sr_extend net bs sr)
             | (Err e, net) \<Rightarrow> (Err (ReadFailed e), sr\<lparr>sr_reader := net\<rparr>)
             | (Panic, net) \<Rightarrow> (Panic, sr\<lparr>sr_reader := net\<rparr>))
          else take_payload sr)"
  by pat_completeness auto
termination
proof (relation "measure (\<lambda>(bo, sr). 2 * net_size (sr_reader sr) + (if sr_state sr = NeedHeader then 1 else 0))",
    goal_cases)
  case (2 bo sr x net bs)
  then show ?case using stream_read_shrinks(1) [of bs net tmp_len "sr_reader sr"] by (simp add: sr_extend_def)
next
  case (3 bo sr x sr' u)
  then show ?case using take_header_state [of bo sr u sr'] by simp
next
  case (4 bo sr remaining x net bs)
  then show ?case
    using stream_read_shrinks(1) [of bs net "min (remaining - length (sr_buf sr)) tmp_len" "sr_reader sr"]
    by (simp add: sr_extend_def)
qed simp

declare fill.simps [simp del]

text \<open>Calling \<open>fill\<close> again and again.\<close>

fun fill_times :: "byteorder \<Rightarrow> nat \<Rightarrow> APacketStreamReader \<Rightarrow> fill_result list \<times> APacketStreamReader" where
  "fill_times bo 0 sr = ([], sr)"
| "fill_times bo (Suc n) sr =
     (let (res, sr) = fill bo sr; (rs, sr) = fill_times bo n sr in (res # rs, sr))"

fun delivered :: "fill_result \<Rightarrow> (AdbMessageHeader \<times> bytes) list" where
  "delivered (Ok (Some m)) = [m]"
| "delivered _ = []"

section \<open>The pulling reader on an unreliable stream\<close>

text \<open>The bytes a stream will deliver and the number of reads that will fail.\<close>

fun net_bytes :: "net \<Rightarrow> bytes" where
  "net_bytes [] = []"
| "net_bytes (Seg s # net) = s @ net_bytes net"
| "net_bytes (IoFail e # net) = net_bytes net"

fun net_fails :: "net \<Rightarrow> nat" where
  "net_fails [] = 0"
| "net_fails (Seg s # net) = net_fails net"
| "net_fails (IoFail e # net) = Suc (net_fails net)"

lemma stream_read_flaky:
  assumes "Seg [] \<notin> set net" and "0 < n" and "stream_read n net = (res, net')"
  obtains (data) bs where "res = Ok bs" "bs \<noteq> []" "net_bytes net = bs @ net_bytes net'" "net_fails net' = net_fails net"
      "Seg [] \<notin> set net'"
  | (eof) "res = Ok []" "net_bytes net = []" "net_fails net = 0" "net' = []"
  | (fail) e where "res = Err e" "net_bytes net' = net_bytes net" "net_fails net = Suc (net_fails net')"
      "Seg [] \<notin> set net'"
proof (cases net rule: net_bytes.cases)
  case (2 s rest)
  with assms show thesis by (intro data [of "take n s"]) (auto split: if_splits)
qed (use assms eof fail in auto)

text \<open>What the reader has buffered and will still read are the messages \<open>ms\<close>.\<close>

definition stream_holds :: "byteorder \<Rightarrow> APacketStreamReader \<Rightarrow> (AdbMessageHeader \<times> bytes) list \<Rightarrow> bool" where
  "stream_holds bo sr ms \<longleftrightarrow> Seg [] \<notin> set (sr_reader sr) \<and>
     sr_buf sr @ net_bytes (sr_reader sr) = send_all bo ms \<and>
     (case sr_state sr of NeedHeader \<Rightarrow> True
      | NeedPayload k \<Rightarrow> ms \<noteq> [] \<and> sr_pending sr = Some (fst (hd ms)) \<and> k = unat (data_length (fst (hd ms))) + 24)"

definition fill_ok ::
  "byteorder \<Rightarrow> nat \<Rightarrow> (AdbMessageHeader \<times> bytes) list \<Rightarrow> fill_result \<times> APacketStreamReader \<Rightarrow> bool" where
  "fill_ok bo fails ms out \<longleftrightarrow> (case out of (res, sr) \<Rightarrow>
     (\<exists>e. res = Err (ReadFailed e) \<and> stream_holds bo sr ms \<and> fails = Suc (net_fails (sr_reader sr))) \<or>
     fails = net_fails (sr_reader sr) \<and>
       (case ms of [] \<Rightarrow> res = Ok None \<and> fails = 0 | m # ms' \<Rightarrow> res = Ok (Some m) \<and> stream_holds bo sr ms'))"

lemma stream_holds_read:
  assumes "stream_holds bo sr ms"
  shows "sr_reader sr = net0 \<Longrightarrow> net_bytes net0 = bs @ net_bytes net \<Longrightarrow> Seg [] \<notin> set net \<Longrightarrow>
      stream_holds bo (sr_extend net bs sr) ms"
    and "net_bytes net = net_bytes (sr_reader sr) \<Longrightarrow> Seg [] \<notin> set net \<Longrightarrow> stream_holds bo (sr\<lparr>sr_reader := net\<rparr>) ms"
  using assms by (auto simp: stream_holds_def sr_extend_def split: PacketReadState.splits)

lemma sendable_frame:
  "sendable (h, p) \<Longrightarrow> length p = unat (data_length h) \<and> data_length h \<le> MAX_PAYLOAD \<and> magic_ok h"
  by (auto simp: sendable_def verify_payload_def MAX_PAYLOAD_def split: if_splits)

context little_endian
begin

lemma length_send_message: "length (send_message bo [] h p) = 24 + length p"
  by (simp add: send_message_def Let_def)

lemma take_header_ok:
  assumes "stream_holds bo sr ms" and "\<forall>m \<in> set ms. sendable m" and st: "sr_state sr = NeedHeader"
    and buf: "24 \<le> length (sr_buf sr)"
  obtains h p ms' where "ms = (h, p) # ms'" and "data_length h = 0" "p = []"
      "take_header bo sr = (Inl (Ok (Some (h, p))), sr\<lparr>sr_buf := drop 24 (sr_buf sr)\<rparr>)"
      "stream_holds bo (sr\<lparr>sr_buf := drop 24 (sr_buf sr)\<rparr>) ms'"
  | sr' where "take_header bo sr = (Inr (), sr')" "stream_holds bo sr' ms" "sr_reader sr' = sr_reader sr"
proof -
  from assms have all: "sr_buf sr @ net_bytes (sr_reader sr) = send_all bo ms" by (simp add: stream_holds_def)
  with buf have "ms \<noteq> []" by (auto simp: send_all_def)
  then obtain h p ms' where ms: "ms = (h, p) # ms'" by (metis list.exhaust surj_pair)
  with assms(2) have hp: "length p = unat (data_length h)" "data_length h \<le> MAX_PAYLOAD" "magic_ok h"
    using sendable_frame by auto
  let ?e = "AdbMessageHeader_encode bo h (replicate 24 0)"
  have enc: "send_all bo ms = ?e @ p @ send_all bo ms'"
    by (simp add: ms send_all_Cons send_message_def Let_def)
  have "take 24 (sr_buf sr) = take 24 (send_all bo ms)" using buf by (simp flip: all)
  then have tk: "take 24 (sr_buf sr) = ?e" by (simp add: enc)
  have dec: "AdbMessageHeader_decode bo (take 24 (sr_buf sr)) = Ok h"
    using decode_encode [of "replicate 24 0" h "[]"] hp(3) by (simp add: tk)
  have dr: "drop 24 (sr_buf sr) @ net_bytes (sr_reader sr) = p @ send_all bo ms'"
    using buf arg_cong [OF all, of "drop 24"] by (simp add: enc)
  have small: "\<not> unat MAX_PAYLOAD < unat (data_length h)" using hp(2) by (simp add: word_le_nat_alt)
  show thesis
  proof (cases "data_length h = 0")
    case True
    then show thesis
      using assms(1) hp dec dr st ms buf
      by (intro that(1) [of h p ms']) (simp_all add: take_header_def slice_def HEADER_SIZE_def stream_holds_def)
  next
    case False
    then have "unat (data_length h) \<noteq> 0" by (simp add: unat_eq_0)
    then show thesis
      using assms(1) dec small st ms buf
      by (intro that(2) [of "sr\<lparr>sr_state := NeedPayload (unat (data_length h) + 24), sr_pending := Some h\<rparr>"])
        (simp_all add: take_header_def slice_def HEADER_SIZE_def stream_holds_def)
  qed
qed

lemma take_payload_ok:
  assumes "stream_holds bo sr ms" and "\<forall>m \<in> set ms. sendable m" and st: "sr_state sr = NeedPayload k"
    and buf: "k \<le> length (sr_buf sr)"
  obtains m ms' sr' where "ms = m # ms'" and "take_payload sr = (Ok (Some m), sr')" "stream_holds bo sr' ms'"
    "sr_reader sr' = sr_reader sr"
proof -
  from assms(1) st obtain h p ms' where ms: "ms = (h, p) # ms'"
    by (cases ms) (auto simp: stream_holds_def)
  with assms(1,2) st have hp: "length p = unat (data_length h)" "k = 24 + length p" "sr_pending sr = Some h"
    using sendable_frame by (auto simp: stream_holds_def)
  have all: "sr_buf sr @ net_bytes (sr_reader sr) = AdbMessageHeader_encode bo h (replicate 24 0) @ p @ send_all bo ms'"
    using assms(1) by (simp add: stream_holds_def ms send_all_Cons send_message_def Let_def)
  have "take (length p) (drop 24 (sr_buf sr)) = p"
    using buf hp arg_cong [OF all, of "\<lambda>s. take (length p) (drop 24 s)"] by simp
  moreover have "drop (24 + length p) (sr_buf sr) @ net_bytes (sr_reader sr) = send_all bo ms'"
    using buf hp arg_cong [OF all, of "drop (24 + length p)"] by simp
  ultimately show thesis
    using assms(1) buf hp ms
    by (intro that [of "(h, p)" ms' "sr\<lparr>sr_pending := None, sr_buf := drop (24 + length p) (sr_buf sr), sr_state := NeedHeader\<rparr>"])
      (simp_all add: take_payload_def slice_def HEADER_SIZE_def stream_holds_def)
qed

end

lemma fill_ok_read:
  assumes holds: "stream_holds bo sr ms" and n: "0 < n" and read: "stream_read n (sr_reader sr) = (res, net)"
    and data: "\<And>bs. res = Ok bs \<Longrightarrow> bs \<noteq> [] \<Longrightarrow> stream_holds bo (sr_extend net bs sr) ms \<Longrightarrow>
      fill_ok bo (net_fails (sr_reader (sr_extend net bs sr))) ms (fill bo (sr_extend net bs sr))"
    and eof: "net_bytes (sr_reader sr) = [] \<Longrightarrow> fill_ok bo 0 ms (at_end, sr\<lparr>sr_reader := []\<rparr>)"
  shows "fill_ok bo (net_fails (sr_reader sr)) ms
    (case res of Ok bs \<Rightarrow> if bs = [] then (at_end, sr\<lparr>sr_reader := net\<rparr>) else fill bo (sr_extend net bs sr)
     | Err e \<Rightarrow> (Err (ReadFailed e), sr\<lparr>sr_reader := net\<rparr>)
     | Panic \<Rightarrow> (Panic, sr\<lparr>sr_reader := net\<rparr>))"
proof -
  have "Seg [] \<notin> set (sr_reader sr)" using holds by (simp add: stream_holds_def)
  from this n read show ?thesis
  proof (cases rule: stream_read_flaky)
    case (data bs)
    with assms(4) [of bs] stream_holds_read(1) [OF holds refl data(3,5)] show ?thesis
      by (simp add: sr_extend_def)
  next
    case eof
    with assms(5) show ?thesis by simp
  next
    case (fail e)
    with stream_holds_read(2) [OF holds fail(2,4)] show ?thesis by (simp add: fill_ok_def)
  qed
qed

lemma send_all_short:
  assumes "length (send_all bo ms) < 24"
  shows "little_endian bo \<Longrightarrow> ms = []"
  using assms by (cases ms) (auto simp: send_all_Cons little_endian.length_send_message)

lemma fill_step:
  "little_endian bo \<Longrightarrow> stream_holds bo sr ms \<Longrightarrow> \<forall>m \<in> set ms. sendable m \<Longrightarrow>
   fill_ok bo (net_fails (sr_reader sr)) ms (fill bo sr)"
proof (induction bo sr rule: fill.induct)
  case (1 bo sr)
  note le = "1.prems"(1) and holds = "1.prems"(2) and send = "1.prems"(3)
  have all: "sr_buf sr @ net_bytes (sr_reader sr) = send_all bo ms" using holds by (simp add: stream_holds_def)
  show ?case
  proof (cases "sr_state sr")
    case NeedHeader
    show ?thesis
    proof (cases "length (sr_buf sr) < HEADER_SIZE")
      case True
      obtain res net where read: "stream_read tmp_len (sr_reader sr) = (res, net)" by fastforce
      have "fill_ok bo 0 ms (if sr_buf sr = [] then Ok None else Err EofDuringHeader, sr\<lparr>sr_reader := []\<rparr>)"
        if "net_bytes (sr_reader sr) = []"
        using send_all_short [of bo ms] le all that True by (auto simp: HEADER_SIZE_def fill_ok_def send_all_def)
      from fill_ok_read [OF holds tmp_len_pos read "1.IH"(1) [OF NeedHeader True read [symmetric] _ _ le _ send] this]
      show ?thesis using NeedHeader True by (subst fill.simps) (cases res; simp add: read)
    next
      case False
      then have "24 \<le> length (sr_buf sr)" by (simp add: HEADER_SIZE_def)
      from little_endian.take_header_ok [OF le holds send NeedHeader this] show ?thesis
      proof cases
        case 1
        with NeedHeader False show ?thesis by (subst fill.simps) (simp add: fill_ok_def)
      next
        case (2 sr')
        with "1.IH"(2) [OF NeedHeader False 2(1) [symmetric] refl le 2(2) send] NeedHeader False show ?thesis
          by (subst fill.simps) simp
      qed
    qed
  next
    case (NeedPayload k)
    show ?thesis
    proof (cases "length (sr_buf sr) < k")
      case True
      obtain res net where
        read: "stream_read (min (k - length (sr_buf sr)) tmp_len) (sr_reader sr) = (res, net)" by fastforce
      have "length (send_all bo ms) \<ge> k"
        using holds send NeedPayload le sendable_frame
        by (cases ms) (auto simp: stream_holds_def send_all_Cons little_endian.length_send_message)
      then have "fill_ok bo 0 ms (Err EofDuringPayload, sr\<lparr>sr_reader := []\<rparr>)" if "net_bytes (sr_reader sr) = []"
        using all True that by auto
      from fill_ok_read [OF holds _ read "1.IH"(3) [OF NeedPayload True read [symmetric] _ _ le _ send] this]
      show ?thesis using NeedPayload True tmp_len_pos by (subst fill.simps) (cases res; simp add: read)
    next
      case False
      then have "k \<le> length (sr_buf sr)" by simp
      from little_endian.take_payload_ok [OF le holds send NeedPayload this] obtain m ms' sr' where
        "ms = m # ms'" "take_payload sr = (Ok (Some m), sr')" "stream_holds bo sr' ms'" "sr_reader sr' = sr_reader sr" .
      with NeedPayload False show ?thesis by (subst fill.simps) (simp add: fill_ok_def)
    qed
  qed
qed


lemma fill_times_ok:
  "little_endian bo \<Longrightarrow> stream_holds bo sr ms \<Longrightarrow> \<forall>m \<in> set ms. sendable m \<Longrightarrow>
   \<exists>rs sr'. fill_times bo (length ms + net_fails (sr_reader sr)) sr = (rs, sr') \<and>
     concat (map delivered rs) = ms \<and> fst (fill bo sr') = Ok None"
proof (induction "length ms + net_fails (sr_reader sr)" arbitrary: ms sr)
  case 0
  with fill_step [OF "0.prems"] show ?case by (auto simp: fill_ok_def split: prod.splits)
next
  case (Suc n)
  obtain res sr1 where f: "fill bo sr = (res, sr1)" by fastforce
  with fill_step [OF Suc.prems] consider
    (failed) e where "res = Err (ReadFailed e)" "stream_holds bo sr1 ms" "net_fails (sr_reader sr) = Suc (net_fails (sr_reader sr1))"
    | (got) m ms' where "ms = m # ms'" "res = Ok (Some m)" "stream_holds bo sr1 ms'" "net_fails (sr_reader sr1) = net_fails (sr_reader sr)"
    using Suc.hyps(2) by (auto simp: fill_ok_def split: list.splits)
  then show ?case
  proof cases
    case failed
    with Suc.hyps(1) [of ms sr1] Suc.hyps(2) Suc.prems f show ?thesis by auto
  next
    case got
    with Suc.hyps(1) [of ms' sr1] Suc.hyps(2) Suc.prems f show ?thesis by auto
  qed
qed

section \<open>Messages as frames\<close>

definition to_packet :: "AdbMessageHeader \<times> bytes \<Rightarrow> AdbPacket" where
  "to_packet m = \<lparr>pkt_header = fst m, pkt_payload = snd m\<rparr>"

text \<open>A message whose header announces its payload; magic and checksum are not looked at.\<close>

definition framed :: "AdbMessageHeader \<times> bytes \<Rightarrow> bool" where
  "framed m \<longleftrightarrow> length (snd m) = unat (data_length (fst m)) \<and> data_length (fst m) \<le> MAX_PAYLOAD"

context little_endian
begin

lemma framing_header_send: "framing_header (send_message bo [] h p @ t) = h"
  by (cases h) (simp add: framing_header_def send_message_def Let_def encode_concat)

lemma frames_send:
  assumes "framed (h, p)"
  shows "frames (send_message bo [] h p @ t) = (to_packet (h, p) # fst (frames t), snd (frames t))"
    and "well_framed (send_message bo [] h p @ t) = well_framed t"
proof -
  let ?s = "send_message bo [] h p @ t"
  have n: "payload_size ?s = length p" using assms by (simp add: payload_size_def framing_header_send framed_def)
  have dr: "drop (24 + length p) ?s = t" "take (length p) (drop 24 ?s) = p"
    by (simp_all add: send_message_def Let_def)
  show "frames ?s = (to_packet (h, p) # fst (frames t), snd (frames t))"
    using frames_complete [of ?s] by (simp add: n dr length_send_message framing_header_send to_packet_def del: drop_append)
  show "well_framed ?s = well_framed t"
    unfolding well_framed.simps [of ?s] n dr framing_header_send
    using assms by (auto simp: framed_def length_send_message)
qed

lemma frames_part:
  assumes "framed (h, p)" and "strict_prefix part (send_message bo [] h p)"
  shows "frames part = ([], part)" and "well_framed part"
proof -
  from assms(2) obtain t where t: "send_message bo [] h p = part @ t" "t \<noteq> []"
    by (auto simp: strict_prefix_def prefix_def)
  then have len: "length part < 24 + length p" using length_send_message [of h p] by (metis length_append length_greater_0_conv less_add_same_cancel1)
  have hd: "framing_header part = h" if "24 \<le> length part"
    using framing_header_send [of h p "[]"] framing_header_prefix(1) [OF that, of t] by (simp add: t)
  then have "payload_size part = length p" if "24 \<le> length part"
    using that assms(1) by (simp add: payload_size_def framed_def)
  with len show "frames part = ([], part)" by (cases "24 \<le> length part") (simp_all add: frames_incomplete)
  show "well_framed part"
    using len hd assms(1) \<open>24 \<le> length part \<Longrightarrow> payload_size part = length p\<close>
    by (subst well_framed.simps) (auto simp: framed_def)
qed

lemma frames_send_all:
  "\<forall>m \<in> set ms. framed m \<Longrightarrow>
   frames (send_all bo ms @ t) = (map to_packet ms @ fst (frames t), snd (frames t)) \<and>
   well_framed (send_all bo ms @ t) = well_framed t"
proof (induction ms)
  case (Cons m ms)
  obtain h p where "m = (h, p)" by fastforce
  with Cons show ?case using frames_send [of h p "send_all bo ms @ t"] by (simp add: send_all_Cons)
qed (simp add: send_all_def)

lemma oversized_add:
  assumes "reader_holds r []" and "rd_packets r = []" and "data_length h > MAX_PAYLOAD"
  shows "\<exists>r'. add_bytes r (AdbMessageHeader_encode bo h (replicate 24 0) @ rest) = Ok ([], r') \<and>
    reader_holds r' [] \<and> rd_packets r' = []"
proof -
  let ?d = "AdbMessageHeader_encode bo h (replicate 24 0) @ rest"
  let ?b = "Block_from_vec ?d"
  have d: "block_rest ?b = ?d" "?d \<noteq> []"
    using length_encode [of "replicate 24 0" h] by (auto simp: Block_from_vec_def simp del: length_encode)
  obtain hb b1 where f: "Block_fill_from (rd_header r) ?b = (hb, b1)" and fl: "filled hb 24 (take 24 ?d)"
    using header_step [OF assms(1), of ?b] d by (metis append_Nil)
  have "take 24 ?d = send_message bo [] h []" by (simp add: send_message_def Let_def)
  moreover from this have l24: "length (take 24 ?d) = 24" by (simp add: length_send_message)
  ultimately have "bl_buf hb = send_message bo [] h []" "Block_is_full hb"
    using filled_buf [OF fl] filled_full [OF fl] by metis+
  then have "turn r ?b = Ok (prepare_next (r\<lparr>rd_header := hb\<rparr>), b1, False)"
    using assms(3) framing_header_send [of h "[]" "[]"]
    by (simp add: turn_def f decode_framing_header_eq length_send_message)
  then show ?thesis
    using d assms reader_holds_next [of "r\<lparr>rd_header := hb\<rparr>"] fl process_block_turn [of ?b r]
    by (simp add: add_bytes_def prepare_next_def)
qed

end

section \<open>Properties\<close>

text \<open>
  C15: The block-fed reader reassembles a stream however it is cut. When the blocks handed to
  \<open>add_bytes\<close>, of any sizes and in any number, hold a sequence of messages followed by a proper prefix
  of a further one, no call panics and the calls together return exactly these messages, in order,
  whatever their magic and checksum are.
\<close>

theorem apacket_reader_chunking:
  assumes "little_endian bo" and "\<forall>m \<in> set ms. framed m" and "framed (h, p)"
    and "strict_prefix part (send_message bo [] h p)" and "concat blocks = send_all bo ms @ part"
  shows "\<exists>pss r. feed APacketReader_new blocks = Ok (pss, r) \<and> length pss = length blocks \<and>
    concat pss = map to_packet ms"
proof -
  note part = little_endian.frames_part [OF assms(1,3,4)]
  note all = little_endian.frames_send_all [OF assms(1,2), of part]
  with part have "well_framed ([] @ concat blocks)" by (simp add: assms(5))
  from feed_ok [OF reader_holds_new _ this] all part show ?thesis
    by (auto simp: assms(5) APacketReader_new_def)
qed

theorem apacket_reader_chunking_witness:
  "\<exists>pss r. feed APacketReader_new
      [take 5 (send_all std_byteorder sample_messages), drop 5 (send_all std_byteorder sample_messages), [1, 2]] =
     Ok (pss, r) \<and> length pss = 3 \<and> concat pss = map to_packet sample_messages"
proof -
  have "\<forall>m \<in> set sample_messages. framed m"
    by (simp add: sample_messages_def framed_def MAX_PAYLOAD_def MAX_PAYLOAD_V2_def word_le_nat_alt)
  moreover have "framed (\<lparr>command = 0x201, arg0 = 0, arg1 = 0, data_length = 0, data_check = 0, magic = 0\<rparr>, [])"
    by (simp add: framed_def)
  moreover have "strict_prefix [1, 2] (send_message std_byteorder []
      \<lparr>command = 0x201, arg0 = 0, arg1 = 0, data_length = 0, data_check = 0, magic = 0\<rparr> [])"
    by (simp add: send_message_def Let_def little_endian.encode_concat [OF std_byteorder_little_endian]
        le_eval strict_prefix_def prefix_def)
  ultimately show ?thesis
    using apacket_reader_chunking [OF std_byteorder_little_endian, where ms = sample_messages and part = "[1, 2]" and
        blocks = "[take 5 (send_all std_byteorder sample_messages), drop 5 (send_all std_byteorder sample_messages), [1, 2]]"]
    by (simp add: append_assoc [symmetric] numeral_3_eq_3 del: append_assoc)
qed

text \<open>
  C35: A header that announces more than \<open>MAX_PAYLOAD\<close> bytes makes the reader lose messages, and which
  ones depends on how the stream is cut. The rest of the block with the header is discarded without an
  error, so messages that follow in the same block are lost; the same messages in the next block are
  returned.
\<close>

theorem oversized_header_drops_block:
  assumes "little_endian bo" and "data_length h > MAX_PAYLOAD" and "\<forall>m \<in> set ms. framed m"
  shows "(\<exists>r. feed APacketReader_new [AdbMessageHeader_encode bo h (replicate 24 0) @ send_all bo ms] = Ok ([[]], r)) \<and>
    (\<exists>r. feed APacketReader_new [AdbMessageHeader_encode bo h (replicate 24 0), send_all bo ms] =
      Ok ([[], map to_packet ms], r))"
proof (intro conjI)
  have new: "reader_holds APacketReader_new []" "rd_packets APacketReader_new = []"
    by (rule reader_holds_new) (simp add: APacketReader_new_def)
  note over = little_endian.oversized_add [OF assms(1) new assms(2)]
  from over [of "send_all bo ms"] show "\<exists>r. feed APacketReader_new [AdbMessageHeader_encode bo h (replicate 24 0) @ send_all bo ms] = Ok ([[]], r)"
    by auto
  from over [of "[]"] obtain r where
    r: "add_bytes APacketReader_new (AdbMessageHeader_encode bo h (replicate 24 0)) = Ok ([], r)"
    "reader_holds r []" "rd_packets r = []" by auto
  have "frames [] = ([], [])" "well_framed []" by (simp_all add: frames_incomplete well_framed.simps)
  with little_endian.frames_send_all [OF assms(1,3), of "[]"] add_bytes_ok [OF r(2,3), of "send_all bo ms"] r(1)
  show "\<exists>r. feed APacketReader_new [AdbMessageHeader_encode bo h (replicate 24 0), send_all bo ms] =
      Ok ([[], map to_packet ms], r)"
    by auto
qed

theorem oversized_header_drops_block_witness:
  "\<exists>h. data_length h > MAX_PAYLOAD \<and>
    (\<exists>r. feed APacketReader_new
       [AdbMessageHeader_encode std_byteorder h (replicate 24 0) @ send_all std_byteorder sample_messages] = Ok ([[]], r)) \<and>
    (\<exists>r. feed APacketReader_new
       [AdbMessageHeader_encode std_byteorder h (replicate 24 0), send_all std_byteorder sample_messages] =
       Ok ([[], map to_packet sample_messages], r))"
proof -
  let ?h = "\<lparr>command = A_WRTE, arg0 = 1, arg1 = 1, data_length = 0xFFFFFFFF, data_check = 0, magic = 0\<rparr>"
  have "data_length ?h > MAX_PAYLOAD" by (simp add: MAX_PAYLOAD_def MAX_PAYLOAD_V2_def word_less_nat_alt)
  moreover have "\<forall>m \<in> set sample_messages. framed m"
    by (simp add: sample_messages_def framed_def MAX_PAYLOAD_def MAX_PAYLOAD_V2_def word_le_nat_alt)
  ultimately show ?thesis using oversized_header_drops_block [OF std_byteorder_little_endian] by blast
qed

text \<open>
  C16: The pulling reader survives failing reads. On a stream that carries valid messages, cut
  anywhere and interrupted by any number of failing reads, as many calls of \<open>fill\<close> as there are
  messages and failures return every message exactly once and in order, and the next call reports the
  end of the stream: a failure inside a header or a payload loses nothing.
\<close>

theorem stream_reader_resumes:
  assumes "little_endian bo" and "\<forall>m \<in> set ms. sendable m" and "Seg [] \<notin> set net"
    and "net_bytes net = send_all bo ms"
  shows "\<exists>rs sr. fill_times bo (length ms + net_fails net) (APacketStreamReader_new net) = (rs, sr) \<and>
    concat (map delivered rs) = ms \<and> fst (fill bo sr) = Ok None"
proof -
  have "stream_holds bo (APacketStreamReader_new net) ms"
    using assms by (simp add: stream_holds_def APacketStreamReader_new_def)
  from fill_times_ok [OF assms(1) this assms(2)] show ?thesis by (simp add: APacketStreamReader_new_def)
qed

theorem stream_reader_resumes_witness:
  "\<exists>rs sr. fill_times std_byteorder 4 (APacketStreamReader_new
      [Seg (take 25 (send_all std_byteorder sample_messages)), IoFail WouldBlock,
       Seg (drop 25 (send_all std_byteorder sample_messages))]) = (rs, sr) \<and>
    concat (map delivered rs) = sample_messages \<and> fst (fill std_byteorder sr) = Ok None"
proof -
  let ?b = "send_all std_byteorder sample_messages"
  have "length ?b = 76"
    by (simp add: sample_messages_def send_all_Cons little_endian.length_send_message [OF std_byteorder_little_endian])
      (simp add: send_all_def)
  then have "Seg [] \<notin> set [Seg (take 25 ?b), IoFail WouldBlock, Seg (drop 25 ?b)]" by auto
  moreover have "\<forall>m \<in> set sample_messages. sendable m" by (simp add: sample_messages_def sendable_new)
  moreover have "length sample_messages = 3" by (simp add: sample_messages_def)
  ultimately show ?thesis
    using stream_reader_resumes [OF std_byteorder_little_endian, of sample_messages
        "[Seg (take 25 ?b), IoFail WouldBlock, Seg (drop 25 ?b)]"]
    by (simp only: net_bytes.simps net_fails.simps append_take_drop_id append_Nil2) simp
qed

end
