(* ===== verification/IO_Vector.thy ===== *)
theory IO_Vector
  imports Rust_Prelude
begin

text \<open>
  The block buffer of the ADB server (\<open>IOVector\<close> of \<open>adb-fastboot-cli/src/server/types.rs\<close>): data is
  kept in the blocks it arrived in, and draining skips bytes of the first block instead of moving the
  rest. The abstraction is the list of buffered bytes. A subtraction of \<open>usize\<close> values that would be
  negative is a \<open>Panic\<close> here; the lemmas show that it never happens.
\<close>

record IOVector =
  io_blocks :: "bytes list"
  front_skip :: nat
  total_len :: nat

definition usize_sub :: "nat \<Rightarrow> nat \<Rightarrow> (nat, 'e) outcome" where
  "usize_sub a b = (if b \<le> a then Ok (a - b) else Panic)"

definition IOVector_new :: IOVector where
  "IOVector_new = \<lparr>io_blocks = [], front_skip = 0, total_len = 0\<rparr>"

definition IOVector_is_empty :: "IOVector \<Rightarrow> bool" where
  "IOVector_is_empty v \<longleftrightarrow> total_len v = 0"

definition IOVector_len :: "IOVector \<Rightarrow> nat" where
  "IOVector_len v = total_len v"

definition IOVector_append :: "bytes \<Rightarrow> IOVector \<Rightarrow> IOVector" where
  "IOVector_append bs v =
     (if bs = [] then v else v\<lparr>io_blocks := io_blocks v @ [bs], total_len := total_len v + length bs\<rparr>)"

text \<open>The loop of \<open>copy_to\<close> over the blocks: the final \<open>dst_offset\<close> and the destination.\<close>

fun copy_blocks ::
  "nat \<Rightarrow> nat \<Rightarrow> bytes list \<Rightarrow> nat \<Rightarrow> nat \<Rightarrow> nat \<Rightarrow> bytes \<Rightarrow> (nat \<times> bytes, unit) outcome" where
  "copy_blocks skip offset [] remaining dst_offset logical_pos dst = Ok (dst_offset, dst)"
| "copy_blocks skip offset (block # blocks) remaining dst_offset logical_pos dst =
     (let block_data_start = (if logical_pos = 0 then skip else 0) in
      and_then (usize_sub (length block) block_data_start) (\<lambda>block_logical_size.
        let block_start = logical_pos; block_end = block_start + block_logical_size in
        if offset \<ge> block_end then copy_blocks skip offset blocks remaining dst_offset block_end dst
        else
          let rel = (if offset > block_start then block_data_start + (offset - block_start)
                     else block_data_start) in
          and_then (usize_sub (length block) rel) (\<lambda>available.
            let to_copy = min remaining available in
            and_then (slice block rel (rel + to_copy)) (\<lambda>part.
              if dst_offset + to_copy \<le> length dst then
                let dst = put dst_offset part dst in
                if remaining - to_copy = 0 then Ok (dst_offset + to_copy, dst)
                else copy_blocks skip offset blocks (remaining - to_copy) (dst_offset + to_copy) block_end dst
              else Panic))))"

definition copy_to :: "nat \<Rightarrow> bytes \<Rightarrow> IOVector \<Rightarrow> (nat \<times> bytes, unit) outcome" where
  "copy_to offset dst v =
     (if offset \<ge> total_len v \<or> dst = [] then Ok (0, dst)
      else copy_blocks (front_skip v) offset (io_blocks v) (min (length dst) (total_len v - offset)) 0 0 dst)"

definition peek :: "nat \<Rightarrow> IOVector \<Rightarrow> (bytes option, unit) outcome" where
  "peek len v =
     (if total_len v < len then Ok None
      else and_then (copy_to 0 (replicate len 0) v) (\<lambda>(_, buf). Ok (Some buf)))"

text \<open>The loop of \<open>drain_front\<close>, on the blocks, \<open>front_skip\<close> and \<open>total_len\<close>.\<close>

fun drain_blocks :: "nat \<Rightarrow> bytes list \<Rightarrow> nat \<Rightarrow> nat \<Rightarrow> (IOVector, unit) outcome" where
  "drain_blocks remaining [] skip tot = Ok \<lparr>io_blocks = [], front_skip = skip, total_len = tot\<rparr>"
| "drain_blocks remaining (block # blocks) skip tot =
     (if remaining = 0 then Ok \<lparr>io_blocks = block # blocks, front_skip = skip, total_len = tot\<rparr>
      else and_then (usize_sub (length block) skip) (\<lambda>available.
        if available \<le> remaining then
          and_then (usize_sub tot available) (\<lambda>tot. drain_blocks (remaining - available) blocks 0 tot)
        else
          and_then (usize_sub tot remaining) (\<lambda>tot.
            Ok \<lparr>io_blocks = block # blocks, front_skip = skip + remaining, total_len = tot\<rparr>)))"

definition drain_front :: "nat \<Rightarrow> IOVector \<Rightarrow> (IOVector, unit) outcome" where
  "drain_front len v =
     (if len > total_len v then Panic
      else if len = 0 then Ok v
      else drain_blocks len (io_blocks v) (front_skip v) (total_len v))"

definition IOVector_clear :: "IOVector \<Rightarrow> IOVector" where
  "IOVector_clear v = v\<lparr>io_blocks := [], front_skip := 0, total_len := 0\<rparr>"

definition coalesce :: "IOVector \<Rightarrow> bytes \<times> IOVector" where
  "coalesce v =
     (if io_blocks v = [] then ([], v)
      else let result = concat (io_blocks v)
        in (result, v\<lparr>io_blocks := [result], front_skip := 0\<rparr>))"

section \<open>Sequences of operations, on the buffer and on a list of bytes\<close>

datatype io_op = Append bytes | CopyTo nat bytes | Peek nat | DrainFront nat | Clear

datatype io_out = Unit | Copied nat bytes | Peeked "bytes option"

fun io_step :: "IOVector \<Rightarrow> io_op \<Rightarrow> (io_out \<times> IOVector, unit) outcome" where
  "io_step v (Append bs) = Ok (Unit, IOVector_append bs v)"
| "io_step v (CopyTo offset dst) = and_then (copy_to offset dst v) (\<lambda>(n, dst). Ok (Copied n dst, v))"
| "io_step v (Peek n) = and_then (peek n v) (\<lambda>p. Ok (Peeked p, v))"
| "io_step v (DrainFront n) = and_then (drain_front n v) (\<lambda>v. Ok (Unit, v))"
| "io_step v Clear = Ok (Unit, IOVector_clear v)"

fun queue_step :: "bytes \<Rightarrow> io_op \<Rightarrow> (io_out \<times> bytes, unit) outcome" where
  "queue_step q (Append bs) = Ok (Unit, q @ bs)"
| "queue_step q (CopyTo offset dst) =
     (let part = take (length dst) (drop offset q)
      in Ok (Copied (length part) (part @ drop (length part) dst), q))"
| "queue_step q (Peek n) = Ok (Peeked (if length q < n then None else Some (take n q)), q)"
| "queue_step q (DrainFront n) = (if length q < n then Panic else Ok (Unit, drop n q))"
| "queue_step q Clear = Ok (Unit, [])"

fun run_ops :: "('s \<Rightarrow> io_op \<Rightarrow> (io_out \<times> 's, unit) outcome) \<Rightarrow> 's \<Rightarrow> io_op list \<Rightarrow> (io_out list \<times> 's, unit) outcome" where
  "run_ops step s [] = Ok ([], s)"
| "run_ops step s (op # ops) = and_then (step s op) (\<lambda>(out, s).
     and_then (run_ops step s ops) (\<lambda>(outs, s). Ok (out # outs, s)))"

section \<open>The buffer implements the list\<close>

definition io_abs :: "IOVector \<Rightarrow> bytes" where
  "io_abs v = drop (front_skip v) (concat (io_blocks v))"

definition io_inv :: "IOVector \<Rightarrow> bool" where
  "io_inv v \<longleftrightarrow> [] \<notin> set (io_blocks v) \<and> total_len v = length (io_abs v) \<and>
     (case io_blocks v of [] \<Rightarrow> front_skip v = 0 | b # _ \<Rightarrow> front_skip v < length b)"

lemma io_new: "io_inv IOVector_new" "io_abs IOVector_new = []"
  by (simp_all add: io_inv_def io_abs_def IOVector_new_def)

lemma io_append:
  assumes "io_inv v"
  shows "io_inv (IOVector_append bs v)" and "io_abs (IOVector_append bs v) = io_abs v @ bs"
  using assms
  by (auto simp: io_inv_def io_abs_def IOVector_append_def split: list.splits)

lemma put_put:
  "i + length xs + length ys \<le> length buf \<Longrightarrow> put (i + length xs) ys (put i xs buf) = put i (xs @ ys) buf"
  by (simp add: put_def ac_simps)

lemma copy_blocks_ok:
  assumes "[] \<notin> set bs" and "logical_pos = 0 \<Longrightarrow> (case bs of [] \<Rightarrow> skip = 0 | b # _ \<Rightarrow> skip < length b)"
    and "part = drop (offset - logical_pos) (drop (if logical_pos = 0 then skip else 0) (concat bs))"
    and "0 < remaining" and "remaining \<le> length part" and "dst_offset + remaining \<le> length dst"
  shows "copy_blocks skip offset bs remaining dst_offset logical_pos dst =
    Ok (dst_offset + remaining, put dst_offset (take remaining part) dst)"
  using assms
proof (induction bs arbitrary: part remaining dst_offset logical_pos dst)
  case Nil
  then show ?case by simp
next
  case (Cons b bs part remaining doff lpos dst)
  define sk where "sk = (if lpos = 0 then skip else 0)"
  have sk: "sk < length b" using Cons.prems(1,2) by (auto simp: sk_def)
  define bend where "bend = lpos + (length b - sk)"
  have bend: "lpos < bend" "usize_sub (length b) sk = (Ok (length b - sk) :: (_, unit) outcome)"
    using sk by (simp_all add: bend_def usize_sub_def)
  have part: "part = drop (offset - lpos) (drop sk b @ concat bs)" using Cons.prems(3) sk by (simp add: sk_def)
  show ?case
  proof (cases "offset \<ge> bend")
    case True
    then have "offset - lpos - (length b - sk) = offset - bend" "length b - sk \<le> offset - lpos"
      by (simp_all add: bend_def) 
    then have "part = drop (offset - bend) (concat bs)" using part by simp
    moreover have "bend \<noteq> 0" using bend by simp
    ultimately have "copy_blocks skip offset bs remaining doff bend dst =
        Ok (doff + remaining, put doff (take remaining part) dst)"
      using Cons.prems(1,4-6) by (intro Cons.IH) simp_all
    then show ?thesis using True bend(2) unfolding bend_def by (simp add: sk_def [symmetric])
  next
    case False
    define rel where "rel = sk + (offset - lpos)"
    have rel: "rel < length b" using False sk by (auto simp: rel_def bend_def)
    have rel': "(if offset > lpos then sk + (offset - lpos) else sk) = rel" by (simp add: rel_def)
    have part': "part = drop rel b @ concat bs" using part rel by (simp add: rel_def add.commute)
    let ?a = "length b - rel"
    have fits: "doff + min remaining ?a \<le> length dst" using Cons.prems(6) by linarith
    have "slice b rel (rel + min remaining ?a) = (Ok (take (min remaining ?a) (drop rel b)) :: (_, unit) outcome)"
      using rel by (simp add: slice_def)
    then have step: "copy_blocks skip offset (b # bs) remaining doff lpos dst =
        (if remaining \<le> ?a then Ok (doff + remaining, put doff (take remaining (drop rel b)) dst)
         else copy_blocks skip offset bs (remaining - ?a) (doff + ?a) bend (put doff (drop rel b) dst))"
      using False bend(2) rel fits
      by (simp add: sk_def [symmetric] bend_def [symmetric] rel' usize_sub_def Let_def min_def split: if_splits)
    show ?thesis
    proof (cases "remaining \<le> ?a")
      case True
      then show ?thesis unfolding step part' by simp
    next
      case more: False
      have "copy_blocks skip offset bs (remaining - ?a) (doff + ?a) bend (put doff (drop rel b) dst) =
          Ok (doff + ?a + (remaining - ?a), put (doff + ?a) (take (remaining - ?a) (concat bs)) (put doff (drop rel b) dst))"
        using Cons.prems(1,5,6) more part' rel bend False by (intro Cons.IH) auto
      moreover have "put (doff + ?a) (take (remaining - ?a) (concat bs)) (put doff (drop rel b) dst) =
          put doff (take remaining part) dst"
        using put_put [of doff "drop rel b" "take (remaining - ?a) (concat bs)" dst] Cons.prems(5,6) more part'
        by simp
      ultimately show ?thesis unfolding step using more by simp
    qed
  qed
qed

lemma drain_blocks_ok:
  assumes "[] \<notin> set bs" and "(case bs of [] \<Rightarrow> skip = 0 | b # _ \<Rightarrow> skip < length b)"
    and "tot = length (drop skip (concat bs))" and "n \<le> tot"
  shows "\<exists>v. drain_blocks n bs skip tot = Ok v \<and> io_inv v \<and> io_abs v = drop n (drop skip (concat bs))"
  using assms
proof (induction n bs skip tot rule: drain_blocks.induct)
  case (1 n skip tot)
  then show ?case by (simp add: io_inv_def io_abs_def)
next
  case (2 n b bs skip tot)
  from "2.prems" have skip: "skip < length b" "b \<noteq> []" "[] \<notin> set bs" by auto
  then have all: "drop skip (concat (b # bs)) = drop skip b @ concat bs" by simp
  show ?case
  proof (cases "n = 0 \<or> n < length b - skip")
    case True
    with "2.prems" skip show ?thesis by (auto simp: usize_sub_def io_inv_def io_abs_def add.commute)
  next
    case False
    let ?a = "length b - skip"
    have "(case bs of [] \<Rightarrow> (0 :: nat) = 0 | b # _ \<Rightarrow> 0 < length b)" using skip(3) by (cases bs) auto
    with "2.IH" [of ?a "tot - ?a"] False skip "2.prems" show ?thesis
      by (auto simp: usize_sub_def)
  qed
qed


lemma io_copy_to:
  assumes "io_inv v"
  shows "copy_to offset dst v = (let part = take (length dst) (drop offset (io_abs v))
    in Ok (length part, part @ drop (length part) dst))"
proof (cases "offset \<ge> total_len v \<or> dst = []")
  case True
  with assms show ?thesis by (auto simp: copy_to_def io_inv_def)
next
  case False
  let ?r = "min (length dst) (total_len v - offset)"
  have len: "total_len v = length (io_abs v)" using assms by (simp add: io_inv_def)
  have "copy_blocks (front_skip v) offset (io_blocks v) ?r 0 0 dst =
      Ok (0 + ?r, put 0 (take ?r (drop offset (io_abs v))) dst)"
    using assms False by (intro copy_blocks_ok) (auto simp: io_inv_def io_abs_def)
  moreover have "take ?r (drop offset (io_abs v)) = take (length dst) (drop offset (io_abs v))"
    by (simp add: len min_def)
  ultimately show ?thesis using False by (simp add: copy_to_def put_def Let_def len min.commute)
qed

lemma io_peek:
  assumes "io_inv v"
  shows "peek n v = Ok (if length (io_abs v) < n then None else Some (take n (io_abs v)))"
proof -
  have "total_len v = length (io_abs v)" using assms by (simp add: io_inv_def)
  then show ?thesis by (simp add: peek_def io_copy_to [OF assms] Let_def)
qed

lemma io_drain:
  assumes "io_inv v"
  shows "length (io_abs v) < n \<Longrightarrow> drain_front n v = Panic"
    and "n \<le> length (io_abs v) \<Longrightarrow> \<exists>v'. drain_front n v = Ok v' \<and> io_inv v' \<and> io_abs v' = drop n (io_abs v)"
proof -
  have len: "total_len v = length (io_abs v)" using assms by (simp add: io_inv_def)
  show "drain_front n v = Panic" if "length (io_abs v) < n" using that by (simp add: drain_front_def len)
  show "\<exists>v'. drain_front n v = Ok v' \<and> io_inv v' \<and> io_abs v' = drop n (io_abs v)" if "n \<le> length (io_abs v)"
    using that assms drain_blocks_ok [of "io_blocks v" "front_skip v" "total_len v" n]
    by (auto simp: drain_front_def len io_inv_def io_abs_def)
qed

text \<open>One operation on a buffer that holds \<open>q\<close>.\<close>

definition simulates :: "(io_out \<times> IOVector, unit) outcome \<Rightarrow> (io_out \<times> bytes, unit) outcome \<Rightarrow> bool" where
  "simulates concrete abstract \<longleftrightarrow>
     (case abstract of Ok (out, q) \<Rightarrow> (\<exists>v. concrete = Ok (out, v) \<and> io_inv v \<and> io_abs v = q)
      | Err e \<Rightarrow> concrete = Err e | Panic \<Rightarrow> concrete = Panic)"

lemma io_step_simulates:
  assumes "io_inv v"
  shows "simulates (io_step v op) (queue_step (io_abs v) op)"
proof (cases op)
  case (Append bs)
  with io_append [OF assms] show ?thesis by (simp add: simulates_def)
next
  case (DrainFront n)
  with io_drain [OF assms, of n] show ?thesis by (auto simp: simulates_def not_less)
next
  case Clear
  then show ?thesis by (simp add: simulates_def IOVector_clear_def io_inv_def io_abs_def)
qed (simp_all add: simulates_def assms io_copy_to [OF assms] io_peek [OF assms] Let_def)

lemma run_ops_simulates:
  "io_inv v \<Longrightarrow>
   (case run_ops queue_step (io_abs v) ops of
      Ok (outs, q) \<Rightarrow> (\<exists>v'. run_ops io_step v ops = Ok (outs, v') \<and> io_inv v' \<and> io_abs v' = q)
    | Err e \<Rightarrow> run_ops io_step v ops = Err e | Panic \<Rightarrow> run_ops io_step v ops = Panic)"
proof (induction ops arbitrary: v)
  case (Cons op ops)
  show ?case
  proof (cases "queue_step (io_abs v) op")
    case (Ok oq)
    obtain out q where oq: "oq = (out, q)" by fastforce
    with Ok io_step_simulates [OF Cons.prems, of op] obtain v1 where
      v1: "io_step v op = Ok (out, v1)" "io_inv v1" "io_abs v1 = q" by (auto simp: simulates_def)
    from Cons.IH [OF v1(2)] v1 Ok oq show ?thesis
      by (cases "run_ops queue_step q ops") auto
  qed (use io_step_simulates [OF Cons.prems, of op] in \<open>simp_all add: simulates_def\<close>)
qed simp

section \<open>Properties\<close>


text \<open>
  \<open>coalesce\<close> returns the buffered bytes only when no byte of the first block has been drained.
  Otherwise the drained bytes come back: they precede the buffered bytes in the result, and the buffer
  itself, whose length is unchanged, afterwards delivers them again in place of its last bytes.
\<close>

theorem coalesce_resurrects:
  assumes "run_ops io_step IOVector_new ops = Ok (outs, v)" and "run_ops queue_step [] ops = Ok (outs', q)"
  shows "(fst (coalesce v) = q \<longleftrightarrow> front_skip v = 0) \<and>
    (\<exists>drained. length drained = front_skip v \<and> fst (coalesce v) = drained @ q \<and>
      io_abs (snd (coalesce v)) = drained @ q \<and> IOVector_len (snd (coalesce v)) = length q)"
proof -
  from run_ops_simulates [OF io_new(1), of ops] assms have v: "io_inv v" "io_abs v = q"
    by (auto simp: io_new(2))
  let ?d = "take (front_skip v) (concat (io_blocks v))"
  have "length ?d = front_skip v" using v(1) by (auto simp: io_inv_def split: list.splits)
  moreover have "fst (coalesce v) = ?d @ q" "io_abs (snd (coalesce v)) = ?d @ q"
    "IOVector_len (snd (coalesce v)) = length q"
    using v by (auto simp: coalesce_def io_abs_def io_inv_def IOVector_len_def Let_def)
  ultimately show ?thesis by (metis append_self_conv2 length_0_conv)
qed

theorem coalesce_resurrects_witness:
  "\<exists>v. run_ops io_step IOVector_new [Append [1, 2, 3], DrainFront 1] = Ok ([Unit, Unit], v) \<and>
     fst (coalesce v) \<noteq> [2, 3]"
proof -
  let ?ops = "[Append [1, 2, 3], DrainFront 1]"
  let ?v = "\<lparr>io_blocks = [[1, 2, 3]], front_skip = 1, total_len = 3 - 1\<rparr>"
  have "run_ops io_step IOVector_new ?ops = Ok ([Unit, Unit], ?v)" "run_ops queue_step [] ?ops = Ok ([Unit, Unit], [2, 3])"
    by (simp_all add: IOVector_append_def IOVector_new_def drain_front_def usize_sub_def)
  with coalesce_resurrects [of ?ops "[Unit, Unit]" ?v "[Unit, Unit]" "[2, 3]"] show ?thesis by auto
qed

end
