(* ===== verification/Incremental_Utils.thy ===== *)
theory Incremental_Utils
  imports Rust_Io Rust_Collections
begin

text \<open>
  The pure helpers of incremental installation
  (\<open>adb-fastboot-cli/src/client/incremental/incremental_utils.rs\<close> and the block arithmetic at the start and
  the end of \<open>incremental_server.rs\<close>): sizes of the verity tree, the headers of an \<open>.idsig\<close> file, and
  the blocks of an APK that are sent first. Signed integers are \<^typ>\<open>int\<close>; a cast that can wrap is written
  out (\<open>as_i32\<close>, \<open>as_usize\<close>). A file is the list of its bytes, so reads at an offset fail exactly behind
  the end; the zip directory, read by the \<open>zip\<close> crate, is a parameter.
\<close>

section \<open>Signed integers\<close>

definition as_i32 :: "int \<Rightarrow> int" where
  "as_i32 x = sint (word_of_int x :: 32 word)"

definition as_i16 :: "int \<Rightarrow> int" where
  "as_i16 x = sint (word_of_int x :: 16 word)"

definition as_usize :: "int \<Rightarrow> nat" where
  "as_usize x = nat (x mod 2 ^ 64)"

definition i32_from_le :: "bytes \<Rightarrow> int" where "i32_from_le bs = sint (u32_from_le bs)"
definition i32_to_le :: "int \<Rightarrow> bytes" where "i32_to_le x = u32_to_le (word_of_int x)"
definition i16_from_le :: "bytes \<Rightarrow> int" where "i16_from_le bs = sint (u16_from_le bs)"
definition i64_from_le :: "bytes \<Rightarrow> int" where "i64_from_le bs = sint (u64_from_le bs)"

text \<open>Values that an \<open>i32\<close> and an \<open>i16\<close> can hold.\<close>

definition is_i32 :: "int \<Rightarrow> bool" where "is_i32 x \<longleftrightarrow> - (2 ^ 31) \<le> x \<and> x < 2 ^ 31"
definition is_i16 :: "int \<Rightarrow> bool" where "is_i16 x \<longleftrightarrow> - (2 ^ 15) \<le> x \<and> x < 2 ^ 15"

lemma sint_word_of_int_32: "is_i32 x \<Longrightarrow> sint (word_of_int x :: 32 word) = x"
  by (simp add: is_i32_def sint_sbintrunc' signed_take_bit_int_eq_self)

lemma sint_word_of_int_16: "is_i16 x \<Longrightarrow> sint (word_of_int x :: 16 word) = x"
  by (simp add: is_i16_def sint_sbintrunc' signed_take_bit_int_eq_self)

lemma as_i32_id [simp]: "is_i32 x \<Longrightarrow> as_i32 x = x"
  by (simp add: as_i32_def sint_word_of_int_32)

lemma as_usize_id [simp]: "0 \<le> x \<Longrightarrow> x < 2 ^ 64 \<Longrightarrow> as_usize x = nat x"
  by (simp add: as_usize_def)


lemma i32_round [simp]: "is_i32 x \<Longrightarrow> i32_from_le (i32_to_le x) = x" "length (i32_to_le x) = 4"
  by (simp_all add: i32_from_le_def i32_to_le_def sint_word_of_int_32)

section \<open>Blocks and the verity tree\<close>

definition BLOCK_SIZE :: int where "BLOCK_SIZE = 4096"
definition DIGEST_SIZE :: int where "DIGEST_SIZE = 32"
definition MAX_SIGNATURE_SIZE :: nat where "MAX_SIGNATURE_SIZE = 8096"
definition HASHES_PER_BLOCK :: int where "HASHES_PER_BLOCK = BLOCK_SIZE div DIGEST_SIZE"

lemma inc_sizes: "BLOCK_SIZE = 4096" "DIGEST_SIZE = 32" "MAX_SIGNATURE_SIZE = 8096" "HASHES_PER_BLOCK = 128"
  by (simp_all add: BLOCK_SIZE_def DIGEST_SIZE_def MAX_SIGNATURE_SIZE_def HASHES_PER_BLOCK_def)

definition offset_to_block_index :: "int \<Rightarrow> int" where
  "offset_to_block_index offset = as_i32 (drop_bit 12 (offset AND NOT (BLOCK_SIZE - 1)))"

definition num_bytes_to_num_blocks :: "int \<Rightarrow> int" where
  "num_bytes_to_num_blocks n = (if n \<le> 0 then 0 else as_i32 ((n + BLOCK_SIZE - 1) div BLOCK_SIZE))"

text \<open>The loop of \<open>verity_tree_blocks_for_file\<close>: the hash blocks of the levels above.\<close>

function verity_levels :: "int \<Rightarrow> int \<Rightarrow> int" where
  "verity_levels hash_block_count total_count =
     (if hash_block_count > 1 then
        let hash_block_count = (hash_block_count + HASHES_PER_BLOCK - 1) div HASHES_PER_BLOCK
        in verity_levels hash_block_count (total_count + hash_block_count)
      else total_count)"
  by pat_completeness auto
termination
  by (relation "measure (\<lambda>(n, _). nat n)") (auto simp: inc_sizes)

declare verity_levels.simps [simp del]

text \<open>\<open>1 + (file_size - 1) / BLOCK_SIZE\<close> truncates towards zero, which differs from \<open>div\<close> for a negative size.\<close>

definition trunc_div :: "int \<Rightarrow> int \<Rightarrow> int" where
  "trunc_div a b = (if a < 0 then - ((- a) div b) else a div b)"

definition verity_tree_blocks_for_file :: "int \<Rightarrow> int" where
  "verity_tree_blocks_for_file file_size =
     (if file_size = 0 then 0 else verity_levels (1 + trunc_div (file_size - 1) BLOCK_SIZE) 0)"

definition verity_tree_size_for_file :: "int \<Rightarrow> int" where
  "verity_tree_size_for_file file_size = verity_tree_blocks_for_file file_size * BLOCK_SIZE"

lemma verity_levels_mono: "t \<le> verity_levels n t"
proof (induction n t rule: verity_levels.induct)
  case (1 n t)
  let ?m = "(n + HASHES_PER_BLOCK - 1) div HASHES_PER_BLOCK"
  show ?case
  proof (cases "n > 1")
    case True
    have "verity_levels n t = verity_levels ?m (t + ?m)" using True by (simp add: verity_levels.simps [of n] Let_def)
    moreover have "0 \<le> ?m" using True by (simp add: inc_sizes)
    ultimately show ?thesis using 1 [OF True refl] by linarith
  qed (simp add: verity_levels.simps)
qed

lemma verity_levels_leaves: "n > 1 \<Longrightarrow> (n + HASHES_PER_BLOCK - 1) div HASHES_PER_BLOCK \<le> verity_levels n 0"
  using verity_levels_mono by (subst verity_levels.simps) (simp add: Let_def)

lemma verity_levels_one: "n \<le> 1 \<Longrightarrow> verity_levels n 0 = 0"
  by (simp add: verity_levels.simps)

section \<open>The headers of a signature file\<close>

datatype IdSigError = FailedToReadInt IoError | FailedToReadData IoError | InvalidSize int | FailedToSeek IoError

record IdSigHeaders =
  ids_signature :: bytes
  ids_tree_size :: int

text \<open>A reader is the stream and the position in it.\<close>

type_synonym reader = "net \<times> nat"

definition reader_read_exact :: "nat \<Rightarrow> reader \<Rightarrow> (bytes \<times> reader, IoError) outcome" where
  "reader_read_exact n rd = and_then (read_exact n (fst rd)) (\<lambda>(bs, net). Ok (bs, (net, snd rd + n)))"

definition read_i32 :: "reader \<Rightarrow> (int \<times> reader, IdSigError) outcome" where
  "read_i32 rd = and_then (map_err FailedToReadInt (reader_read_exact 4 rd)) (\<lambda>(bs, rd). Ok (i32_from_le bs, rd))"

definition append_bytes_with_size ::
  "reader \<Rightarrow> bytes \<Rightarrow> nat \<Rightarrow> (reader \<times> bytes \<times> nat, IdSigError) outcome" where
  "append_bytes_with_size rd sig bytes_left =
     and_then (read_i32 rd) (\<lambda>(size, rd).
       if size < 0 \<or> as_usize size > bytes_left then Err (InvalidSize size)
       else if size = 0 then Ok (rd, sig, bytes_left)
       else
         let bytes_left = bytes_left - as_usize size; sig = sig @ i32_to_le size in
         and_then (map_err FailedToReadData (reader_read_exact (as_usize size) rd)) (\<lambda>(data, rd).
           Ok (rd, sig @ data, bytes_left)))"

definition read_id_sig_headers :: "reader \<Rightarrow> (IdSigHeaders \<times> reader, IdSigError) outcome" where
  "read_id_sig_headers rd =
     and_then (read_i32 rd) (\<lambda>(version, rd).
       let sig = i32_to_le version; max_size = MAX_SIGNATURE_SIZE - 4 in
       and_then (append_bytes_with_size rd sig max_size) (\<lambda>(rd, sig, max_size).
       and_then (append_bytes_with_size rd sig max_size) (\<lambda>(rd, sig, max_size).
       and_then (read_i32 rd) (\<lambda>(tree_size, rd).
         Ok (\<lparr>ids_signature = sig, ids_tree_size = tree_size\<rparr>, rd)))))"

definition skip_bytes_with_size :: "reader \<Rightarrow> (reader, IdSigError) outcome" where
  "skip_bytes_with_size rd =
     and_then (map_err FailedToReadInt (reader_read_exact 4 rd)) (\<lambda>(size_buffer, rd).
       let size = i32_from_le size_buffer in
       if size < 0 then Err (InvalidSize size)
       else if size = 0 then Ok rd
       else and_then (map_err FailedToSeek (reader_read_exact (as_usize size) rd)) (\<lambda>(_, rd). Ok rd))"

definition skip_id_sig_headers :: "reader \<Rightarrow> (nat \<times> int, IdSigError) outcome" where
  "skip_id_sig_headers rd =
     and_then (map_err FailedToSeek (reader_read_exact 4 rd)) (\<lambda>(_, rd).
     and_then (skip_bytes_with_size rd) (\<lambda>rd.
     and_then (skip_bytes_with_size rd) (\<lambda>rd.
     and_then (map_err FailedToReadInt (reader_read_exact 4 rd)) (\<lambda>(tree_size_buffer, rd).
       Ok (snd rd, i32_from_le tree_size_buffer)))))"

datatype SignatureError = SignatureTooLong nat | TreeSizeMismatch int int

definition validate_signature :: "bytes \<Rightarrow> int \<Rightarrow> int \<Rightarrow> (unit, SignatureError) outcome" where
  "validate_signature sig tree_size file_size =
     (if length sig > MAX_SIGNATURE_SIZE then Err (SignatureTooLong (length sig))
      else let expected = verity_tree_size_for_file file_size in
        if tree_size \<noteq> as_i32 expected then Err (TreeSizeMismatch tree_size expected) else Ok ())"

definition to_ascii_lowercase :: "rstr \<Rightarrow> rstr" where
  "to_ascii_lowercase s = map (\<lambda>b. if 65 \<le> b \<and> b \<le> 90 then b + 32 else b) s"

definition requires_v4_signature :: "rstr \<Rightarrow> bool" where
  "requires_v4_signature file \<longleftrightarrow>
     ends_with (to_ascii_lowercase file) (str ''.apk'') \<or> ends_with (to_ascii_lowercase file) (str ''sdm'')"

section \<open>Blocks of an APK that are sent first\<close>

definition read_exact_at :: "bytes \<Rightarrow> int \<Rightarrow> nat \<Rightarrow> bytes option" where
  "read_exact_at file offset n =
     (if offset < 0 then None
      else if nat offset + n \<le> length file then Some (take n (drop (nat offset) file)) else None)"

definition read_i32_le_at :: "bytes \<Rightarrow> int \<Rightarrow> int option" where
  "read_i32_le_at file offset = map_option i32_from_le (read_exact_at file offset 4)"

definition read_i16_le_at :: "bytes \<Rightarrow> int \<Rightarrow> int option" where
  "read_i16_le_at file offset = map_option i16_from_le (read_exact_at file offset 2)"

definition read_i64_le_at :: "bytes \<Rightarrow> int \<Rightarrow> int option" where
  "read_i64_le_at file offset = map_option i64_from_le (read_exact_at file offset 8)"

text \<open>The search for the end of central directory record, from the end of the file backwards.\<close>

function eocd_loop :: "bytes \<Rightarrow> int \<Rightarrow> int \<Rightarrow> int option" where
  "eocd_loop file file_size comment_len =
     (if comment_len < file_size then
        let max_eocd_offset = file_size - 22; offset = max_eocd_offset - comment_len in
        if offset < 0 then None
        else case read_i32_le_at file offset of
          None \<Rightarrow> None
        | Some sig \<Rightarrow>
            if sig = 0x06054b50 then
              (case read_i16_le_at file (max_eocd_offset - comment_len + 20) of
                 None \<Rightarrow> None
               | Some comment_len_buf \<Rightarrow>
                   if comment_len_buf = comment_len then
                     map_option (\<lambda>cd_len. offset - cd_len) (read_i32_le_at file (offset + 12))
                   else eocd_loop file file_size (comment_len + 1))
            else eocd_loop file file_size (comment_len + 1)
      else None)"
  by pat_completeness auto
termination by (relation "measure (\<lambda>(_, n, c). nat (n - c))") auto

declare eocd_loop.simps [simp del]

definition central_dir_offset :: "bytes \<Rightarrow> int \<Rightarrow> int option" where
  "central_dir_offset file file_size = (if file_size < 22 then None else eocd_loop file file_size 0)"

definition signer_block_offset :: "bytes \<Rightarrow> int \<Rightarrow> int option" where
  "signer_block_offset file file_size =
     (case central_dir_offset file file_size of
        None \<Rightarrow> None
      | Some cd_offset \<Rightarrow>
          if cd_offset < 32 then None
          else case read_i64_le_at file (cd_offset - 16) of
            None \<Rightarrow> None
          | Some lo \<Rightarrow>
              if lo \<noteq> 0x20676953204b5041 then None
              else case read_i64_le_at file (cd_offset - 8) of
                None \<Rightarrow> None
              | Some hi \<Rightarrow>
                  if hi \<noteq> 0x3234206b636f6c42 then None
                  else case read_i32_le_at file (cd_offset - 24) of
                    None \<Rightarrow> None
                  | Some signer_size_in_footer \<Rightarrow>
                      let off = cd_offset - signer_size_in_footer - 8 in
                      if off < 0 then None
                      else case read_i32_le_at file off of
                        None \<Rightarrow> None
                      | Some signer_size_in_header \<Rightarrow>
                          if signer_size_in_footer \<noteq> signer_size_in_header then None else Some off)"

definition append_blocks :: "int \<Rightarrow> int \<Rightarrow> int list \<Rightarrow> int list" where
  "append_blocks start count blocks =
     (if count = 1 then blocks @ [start]
      else if count > 1 then blocks @ map (\<lambda>i. as_i32 (start + int i)) [0..<nat count]
      else blocks)"

definition zip_priority_blocks :: "int \<Rightarrow> int \<Rightarrow> int list" where
  "zip_priority_blocks signer_offset file_size =
     (let signer_block_index = offset_to_block_index signer_offset;
          last_block_index = offset_to_block_index file_size;
          num_priority_blocks = last_block_index - signer_block_index + 1;
          in_eocd_search = 64 * 1024 div BLOCK_SIZE + 1;
          blocks = (if num_priority_blocks > in_eocd_search then
              append_blocks signer_block_index (num_priority_blocks - in_eocd_search)
                (append_blocks (last_block_index - in_eocd_search + 1) in_eocd_search [])
            else append_blocks signer_block_index num_priority_blocks [])
      in append_blocks 0 1 blocks)"

fun retain_new :: "int hash_set \<Rightarrow> int list \<Rightarrow> int list" where
  "retain_new seen [] = []"
| "retain_new seen (b # bs) = (if b \<in> set seen then retain_new seen bs else b # retain_new (hs_insert b seen) bs)"

definition unduplicate :: "int list \<Rightarrow> int list" where
  "unduplicate blocks = retain_new [] blocks"

text \<open>What the \<open>zip\<close> crate says of an entry of the directory; \<open>None\<close> for an entry it cannot read.\<close>

record zip_entry =
  ze_name :: rstr
  ze_header_start :: int
  ze_stored :: bool
  ze_size :: int
  ze_compressed_size :: int

definition entry_priority_blocks :: "zip_entry \<Rightarrow> int list \<Rightarrow> int list" where
  "entry_priority_blocks e blocks =
     (let name = ze_name e in
      if \<not> (starts_with name (str ''lib/'') \<and> ends_with name (str ''.so'') \<or> name = str ''resources.arsc'' \<or>
            name = str ''AndroidManifest.xml'' \<or> name = str ''classes.dex'') then blocks
      else
        let entry_start = ze_header_start e in
        if name = str ''classes.dex'' then append_blocks (offset_to_block_index entry_start) 2 blocks
        else
          let payload_len = (if ze_stored e then ze_size e else ze_compressed_size e);
              entry_end = entry_start + payload_len + 16;
              start_block = offset_to_block_index entry_start;
              end_block = offset_to_block_index entry_end
          in append_blocks start_block (end_block - start_block + 1) blocks)"

definition installation_priority_blocks :: "zip_entry option list option \<Rightarrow> int list" where
  "installation_priority_blocks archive =
     (case archive of None \<Rightarrow> []
      | Some entries \<Rightarrow> foldl (\<lambda>blocks e. case e of None \<Rightarrow> blocks | Some e \<Rightarrow> entry_priority_blocks e blocks) [] entries)"

definition priority_blocks_for_file :: "(bytes \<Rightarrow> zip_entry option list option) \<Rightarrow> rstr \<Rightarrow> bytes \<Rightarrow> int \<Rightarrow> int list" where
  "priority_blocks_for_file open_zip filepath file file_size =
     (if \<not> ends_with (to_ascii_lowercase filepath) (str ''.apk'') then []
      else case signer_block_offset file file_size of
        None \<Rightarrow> []
      | Some signer_offset \<Rightarrow>
          unduplicate (zip_priority_blocks signer_offset file_size @ installation_priority_blocks (open_zip file)))"


section \<open>Lemmas\<close>

lemma retain_new_props:
  "set (retain_new seen bs) = set bs - set seen" "distinct (retain_new seen bs)"
  by (induction bs arbitrary: seen) auto

lemma unduplicate_props: "set (unduplicate bs) = set bs" "distinct (unduplicate bs)"
  by (simp_all add: unduplicate_def retain_new_props)

lemma append_blocks_set:
  assumes "is_i32 start" and "is_i32 (start + count)"
  shows "set (append_blocks start count bs) = set bs \<union> {start..<start + count}"
proof -
  have "(\<lambda>i. as_i32 (start + int i)) ` {0..<nat count} = {start..<start + count}" if "1 < count"
  proof -
    have "as_i32 (start + int i) = start + int i" if "i < nat count" for i
      using that assms by (intro as_i32_id) (auto simp: is_i32_def)
    then have "(\<lambda>i. as_i32 (start + int i)) ` {0..<nat count} = (\<lambda>i. start + int i) ` {0..<nat count}" by simp
    also have "\<dots> = {start..<start + count}"
    proof (intro equalityI subsetI)
      fix x
      assume "x \<in> {start..<start + count}"
      then have "x = start + int (nat (x - start))" "nat (x - start) \<in> {0..<nat count}" by auto
      then show "x \<in> (\<lambda>i. start + int i) ` {0..<nat count}" by (rule image_eqI)
    qed auto
    finally show ?thesis .
  qed
  then show ?thesis by (auto simp: append_blocks_def)
qed

lemma offset_block:
  assumes "is_i32 (offset div 4096)"
  shows "offset_to_block_index offset = offset div 4096"
proof -
  have "drop_bit 12 (offset AND NOT (mask 12)) = drop_bit 12 offset"
    by (rule bit_eqI) (simp add: bit_simps)
  then have "drop_bit 12 (offset AND NOT (BLOCK_SIZE - 1)) = offset div 4096"
    by (simp add: inc_sizes mask_eq_exp_minus_1 drop_bit_eq_div)
  with assms show ?thesis by (simp add: offset_to_block_index_def)
qed

lemma zip_priority_set:
  assumes "0 \<le> signer_offset" and "signer_offset \<le> file_size" and "file_size < 2 ^ 42"
  shows "set (zip_priority_blocks signer_offset file_size) = {0} \<union> {signer_offset div 4096..file_size div 4096}"
proof -
  let ?a = "signer_offset div 4096" and ?z = "file_size div 4096"
  have az: "0 \<le> ?a" "?a \<le> ?z" "?z < 2 ^ 30" using assms by (simp_all add: zdiv_mono1)
  then have idx: "offset_to_block_index signer_offset = ?a" "offset_to_block_index file_size = ?z"
    by (intro offset_block, simp add: is_i32_def)+
  have i32: "is_i32 x" if "- 100 \<le> x" "x \<le> 2 ^ 30" for x
    using that by (simp add: is_i32_def)
  have one: "set (append_blocks 0 1 bs) = set bs \<union> {0}" for bs
    by (simp add: append_blocks_def)
  show ?thesis
  proof (cases "?z - ?a + 1 > 17")
    case True
    have "set (append_blocks (?z - 17 + 1) 17 []) = {?z - 16..<1 + ?z}"
      using append_blocks_set [of "?z - 16" 17 "[]"] az True i32 by simp
    moreover have "set (append_blocks ?a (?z - ?a + 1 - 17) bs) = set bs \<union> {?a..<?z - 16}" for bs
      using append_blocks_set [of ?a "?z - ?a + 1 - 17" bs] az True i32 by simp
    ultimately have "set (zip_priority_blocks signer_offset file_size) = {?z - 16..<1 + ?z} \<union> {?a..<?z - 16} \<union> {0}"
      using True by (simp add: zip_priority_blocks_def idx one inc_sizes Let_def)
    moreover have "{?z - 16..<1 + ?z} \<union> {?a..<?z - 16} = {?a..?z}" using True by auto
    ultimately show ?thesis by (simp only: Un_commute)
  next
    case False
    have "set (append_blocks ?a (?z - ?a + 1) []) = {?a..<?z + 1}"
      using append_blocks_set [of ?a "?z - ?a + 1" "[]"] az i32 by simp
    moreover have "{?a..<?z + 1} = {?a..?z}" by auto
    ultimately have "set (zip_priority_blocks signer_offset file_size) = {?a..?z} \<union> {0}"
      using False by (simp add: zip_priority_blocks_def idx one inc_sizes Let_def)
    then show ?thesis by (simp only: Un_commute)
  qed
qed

lemma skip_append_bytes:
  assumes "append_bytes_with_size rd sig left = Ok (rd', sig', left')"
  shows "skip_bytes_with_size rd = Ok rd'"
proof -
  from assms obtain bs rd1 where rd: "reader_read_exact 4 rd = Ok (bs, rd1)" and "\<not> i32_from_le bs < 0"
    "i32_from_le bs = 0 \<and> rd1 = rd' \<or>
      i32_from_le bs \<noteq> 0 \<and> (\<exists>data. reader_read_exact (as_usize (i32_from_le bs)) rd1 = Ok (data, rd'))"
    by (auto simp: append_bytes_with_size_def read_i32_def Let_def split: if_splits)
  then show ?thesis by (cases rd') (auto simp: skip_bytes_with_size_def Let_def)
qed

lemma reader_delivers:
  assumes "delivers net (xs @ rest)" and "length xs = n"
  obtains net' where "reader_read_exact n (net, p) = Ok (xs, (net', p + n))" and "delivers net' rest"
  using read_exact_delivers [OF assms(1)] assms(2) by (auto simp: reader_read_exact_def)

section \<open>Properties\<close>

text \<open>
  The two readers of an \<open>.idsig\<close> header agree. Whenever the reader that collects the signature
  succeeds, on any stream and after any earlier reads, the reader that skips it succeeds as well, with
  the same tree size and with the position where the first one stopped.
\<close>

theorem idsig_readers_agree:
  assumes "read_id_sig_headers rd = Ok (headers, rd')"
  shows "skip_id_sig_headers rd = Ok (snd rd', ids_tree_size headers)"
proof -
  from assms obtain version rd1 rd2 sig2 max2 rd3 sig3 max3 where
    1: "read_i32 rd = Ok (version, rd1)" and
    2: "append_bytes_with_size rd1 (i32_to_le version) (MAX_SIGNATURE_SIZE - 4) = Ok (rd2, sig2, max2)" and
    3: "append_bytes_with_size rd2 sig2 max2 = Ok (rd3, sig3, max3)" and
    4: "read_i32 rd3 = Ok (ids_tree_size headers, rd')"
    by (auto simp: read_id_sig_headers_def Let_def)
  from 1 obtain bs where "reader_read_exact 4 rd = Ok (bs, rd1)" by (auto simp: read_i32_def)
  moreover from 4 obtain bs where "reader_read_exact 4 rd3 = Ok (bs, rd')" "i32_from_le bs = ids_tree_size headers"
    by (auto simp: read_i32_def)
  ultimately show ?thesis
    using skip_append_bytes [OF 2] skip_append_bytes [OF 3] by (simp add: skip_id_sig_headers_def)
qed


theorem idsig_readers_agree_witness:
  "\<exists>headers rd'. read_id_sig_headers ([Seg [2, 0, 0, 0, 1], Seg [0, 0, 0, 7, 0, 0, 0, 0, 0, 16, 0, 0, 99]], 0) = Ok (headers, rd') \<and>
     skip_id_sig_headers ([Seg [2, 0, 0, 0, 1], Seg [0, 0, 0, 7, 0, 0, 0, 0, 0, 16, 0, 0, 99]], 0) = Ok (snd rd', ids_tree_size headers)"
proof -
  have "case read_id_sig_headers ([Seg [2, 0, 0, 0, 1], Seg [0, 0, 0, 7, 0, 0, 0, 0, 0, 16, 0, 0, 99]], 0) of
      Ok (headers, rd) \<Rightarrow> ids_tree_size headers = 4096 | _ \<Rightarrow> False"
    by code_simp
  then show ?thesis using idsig_readers_agree by (auto split: outcome.splits)
qed

end
