(* ===== verification/Incremental_Server.thy ===== *)
theory Incremental_Server
  imports Incremental_Utils
begin

text \<open>
  The protocol core of the incremental installation server
  (\<open>adb-fastboot-cli/src/client/incremental/incremental_server.rs\<close>): requests of the device are found in
  the incoming bytes behind a magic number, blocks of files and of their verity trees are sent at most
  once, in chunks, and a queue of prefetches sends what nobody asked for yet.

  A \<open>BlockSource\<close> is a pair of functions from the block number (the file does not change while it is
  served; a failing read is \<open>None\<close>), and \<open>lz4_flex::block::compress\<close> is a parameter. Diagnostics on
  standard error are left out. \<open>outcome\<close> makes an index out of range visible.
\<close>

section \<open>Constants and wire formats\<close>

text \<open>\<open>(BLOCK_SIZE as f64 * 0.95) as i64\<close>\<close>

definition COMPRESSED_SIZE_MAX :: int where "COMPRESSED_SIZE_MAX = 3891"
definition TYPE_DATA :: int where "TYPE_DATA = 0"
definition TYPE_HASH :: int where "TYPE_HASH = 1"
definition COMPRESSION_NONE :: int where "COMPRESSION_NONE = 0"
definition COMPRESSION_LZ4 :: int where "COMPRESSION_LZ4 = 1"
definition CHUNK_FLUSH_SIZE :: nat where "CHUNK_FLUSH_SIZE = 31 * nat BLOCK_SIZE"
definition INCR_MAGIC :: u32 where "INCR_MAGIC = 0x494e4352"
definition SERVING_COMPLETE :: int where "SERVING_COMPLETE = 0"
definition BLOCK_MISSING :: int where "BLOCK_MISSING = 1"
definition PREFETCH :: int where "PREFETCH = 2"
definition DESTROY :: int where "DESTROY = 3"

lemmas block_kinds = TYPE_DATA_def TYPE_HASH_def COMPRESSION_NONE_def COMPRESSION_LZ4_def
lemmas request_kinds = SERVING_COMPLETE_def BLOCK_MISSING_def PREFETCH_def DESTROY_def

definition u32_from_be :: "bytes \<Rightarrow> u32" where "u32_from_be bs = u32_from_le (rev bs)"
definition i16_to_be :: "int \<Rightarrow> bytes" where "i16_to_be x = u16_to_be (word_of_int x)"
definition i16_from_be :: "bytes \<Rightarrow> int" where "i16_from_be bs = sint (u16_from_be bs)"
definition i32_to_be :: "int \<Rightarrow> bytes" where "i32_to_be x = rev (i32_to_le x)"
definition i32_from_be :: "bytes \<Rightarrow> int" where "i32_from_be bs = i32_from_le (rev bs)"

record RequestCommand =
  rq_type :: int
  rq_file_id :: int
  rq_block_idx :: int

definition RequestCommand_decode :: "bytes \<Rightarrow> RequestCommand option" where
  "RequestCommand_decode bs =
     (if length bs < 8 then None
      else Some \<lparr>rq_type = i16_from_be (take 2 bs), rq_file_id = i16_from_be (take 2 (drop 2 bs)),
                rq_block_idx = i32_from_be (take 4 (drop 4 bs))\<rparr>)"

record ResponseHeader =
  rh_file_id :: int
  rh_block_type :: int
  rh_compression_type :: int
  rh_block_idx :: int
  rh_block_size :: int

definition ResponseHeader_encode :: "ResponseHeader \<Rightarrow> bytes" where
  "ResponseHeader_encode h =
     (let out = replicate 10 0;
          out = put 0 (i16_to_be (rh_file_id h)) out;
          out = out[2 := word_of_int (rh_block_type h)];
          out = out[3 := word_of_int (rh_compression_type h)];
          out = put 4 (i32_to_be (rh_block_idx h)) out;
          out = put 8 (i16_to_be (rh_block_size h)) out
      in out)"

definition done_marker :: ResponseHeader where
  "done_marker = \<lparr>rh_file_id = -1, rh_block_type = 0, rh_compression_type = 0, rh_block_idx = 0, rh_block_size = 0\<rparr>"

datatype SendResult = Sent | Skipped | Error

section \<open>Files and the state of the server\<close>

record BlockSource =
  src_data :: "int \<Rightarrow> bytes option"
  src_tree :: "int \<Rightarrow> bytes option"
  src_has_tree :: bool

record ServerFile =
  sf_filepath :: rstr
  sf_size :: int
  sent_blocks :: "bool list"
  sent_blocks_count :: int
  sent_tree_blocks :: "bool list"
  priority_blocks :: "int list"
  sf_source :: BlockSource

definition ServerFile_new :: "rstr \<Rightarrow> int \<Rightarrow> BlockSource \<Rightarrow> ServerFile" where
  "ServerFile_new filepath fsize src =
     \<lparr>sf_filepath = filepath, sf_size = fsize,
      sent_blocks = replicate (nat (max (num_bytes_to_num_blocks fsize) 0)) False, sent_blocks_count = 0,
      sent_tree_blocks =
        (if src_has_tree src then replicate (nat (max (verity_tree_blocks_for_file fsize) 0)) False else []),
      priority_blocks = [], sf_source = src\<rparr>"

record PrefetchState =
  pf_file_index :: nat
  pf_overall_index :: int
  pf_overall_end :: int
  pf_priority_index :: nat

definition saturating_add_i32 :: "int \<Rightarrow> int \<Rightarrow> int" where
  "saturating_add_i32 a b = max (- (2 ^ 31)) (min (2 ^ 31 - 1) (a + b))"

definition PrefetchState_new :: "nat \<Rightarrow> ServerFile \<Rightarrow> int \<Rightarrow> int \<Rightarrow> PrefetchState" where
  "PrefetchState_new file_index f start count =
     \<lparr>pf_file_index = file_index, pf_overall_index = start,
      pf_overall_end = min (saturating_add_i32 start count) (as_i32 (int (length (sent_blocks f)))),
      pf_priority_index = 0\<rparr>"

definition PrefetchState_full :: "nat \<Rightarrow> ServerFile \<Rightarrow> PrefetchState" where
  "PrefetchState_full file_index f = PrefetchState_new file_index f 0 (as_i32 (int (length (sent_blocks f))))"

definition PrefetchState_done :: "PrefetchState \<Rightarrow> ServerFile \<Rightarrow> bool" where
  "PrefetchState_done p f =
     (let overall_sent = (pf_overall_index p \<ge> pf_overall_end p) in
      if priority_blocks f = [] then overall_sent
      else overall_sent \<and> pf_priority_index p \<ge> length (priority_blocks f))"

record IncrementalServer =
  inc_files :: "ServerFile list"
  incoming :: bytes
  inc_pending :: bytes
  inc_output :: bytes
  prefetches :: "PrefetchState list"
  prefetched_files :: "int hash_set"
  compressed_blocks :: u64
  uncompressed_blocks :: u64
  sent_size :: u64
  serving_complete :: bool
  destroyed :: bool
  done_sent :: bool

definition IncrementalServer_new :: "ServerFile list \<Rightarrow> IncrementalServer" where
  "IncrementalServer_new files =
     \<lparr>inc_files = files, incoming = [], inc_pending = replicate 4 0, inc_output = [], prefetches = [],
      prefetched_files = [], compressed_blocks = 0, uncompressed_blocks = 0, sent_size = 0,
      serving_complete = False, destroyed = False, done_sent = False\<rparr>"

section \<open>Output\<close>

definition inc_flush :: "IncrementalServer \<Rightarrow> IncrementalServer" where
  "inc_flush s =
     (let data_bytes = length (inc_pending s) - 4 in
      if data_bytes = 0 then s
      else
        let pending = put 0 (i32_to_be (as_i32 (int data_bytes))) (inc_pending s)
        in s\<lparr>inc_output := inc_output s @ pending, sent_size := sent_size s + of_nat (length pending),
             inc_pending := take 4 pending\<rparr>)"

definition inc_send :: "bytes \<Rightarrow> bool \<Rightarrow> IncrementalServer \<Rightarrow> IncrementalServer" where
  "inc_send data flush s =
     (let s = s\<lparr>inc_pending := inc_pending s @ data\<rparr> in
      if flush \<or> length (inc_pending s) > CHUNK_FLUSH_SIZE then inc_flush s else s)"

definition emit_block :: "int \<Rightarrow> int \<Rightarrow> int \<Rightarrow> int \<Rightarrow> bytes \<Rightarrow> bool \<Rightarrow> IncrementalServer \<Rightarrow> IncrementalServer" where
  "emit_block file_id block_idx block_type compression_type payload flush s =
     (let h = \<lparr>rh_file_id = file_id, rh_block_type = block_type, rh_compression_type = compression_type,
               rh_block_idx = block_idx, rh_block_size = as_i16 (int (length payload))\<rparr>;
          s = s\<lparr>inc_pending := inc_pending s @ ResponseHeader_encode h\<rparr>;
          s = s\<lparr>inc_pending := inc_pending s @ payload\<rparr>
      in if flush \<or> length (inc_pending s) > CHUNK_FLUSH_SIZE then inc_flush s else s)"

definition drain_output :: "IncrementalServer \<Rightarrow> bytes \<times> IncrementalServer" where
  "drain_output s = (let s = inc_flush s in (inc_output s, s\<lparr>inc_output := []\<rparr>))"

definition send_done :: "IncrementalServer \<Rightarrow> IncrementalServer" where
  "send_done s = inc_send (ResponseHeader_encode done_marker) True s"

section \<open>Sending blocks\<close>

definition upd_file :: "nat \<Rightarrow> (ServerFile \<Rightarrow> ServerFile) \<Rightarrow> IncrementalServer \<Rightarrow> IncrementalServer" where
  "upd_file i g s = s\<lparr>inc_files := (inc_files s)[i := g (inc_files s ! i)]\<rparr>"

definition mark_tree_block :: "nat \<Rightarrow> nat \<Rightarrow> IncrementalServer \<Rightarrow> (IncrementalServer, unit) outcome" where
  "mark_tree_block i k s =
     (if k < length (sent_tree_blocks (inc_files s ! i))
      then Ok (upd_file i (\<lambda>f. f\<lparr>sent_tree_blocks := (sent_tree_blocks f)[k := True]\<rparr>) s) else Panic)"

definition send_tree_block :: "int \<Rightarrow> int \<Rightarrow> IncrementalServer \<Rightarrow> (bool \<times> IncrementalServer, unit) outcome" where
  "send_tree_block file_id block_idx s =
     and_then (index (inc_files s) (as_usize file_id)) (\<lambda>f.
       case src_tree (sf_source f) block_idx of
         None \<Rightarrow> Ok (False, s)
       | Some data \<Rightarrow> Ok (True, emit_block file_id block_idx TYPE_HASH COMPRESSION_NONE data False s))"

fun send_upper_tree :: "int \<Rightarrow> nat list \<Rightarrow> IncrementalServer \<Rightarrow> (bool \<times> IncrementalServer, unit) outcome" where
  "send_upper_tree file_id [] s = Ok (True, s)"
| "send_upper_tree file_id (k # ks) s =
     and_then (send_tree_block file_id (as_i32 (int k)) s) (\<lambda>(ok, s).
       if \<not> ok then Ok (False, s)
       else and_then (mark_tree_block (as_usize file_id) k s) (\<lambda>s. send_upper_tree file_id ks s))"

definition send_tree_blocks_for_data_block ::
  "int \<Rightarrow> int \<Rightarrow> IncrementalServer \<Rightarrow> (bool \<times> IncrementalServer, unit) outcome" where
  "send_tree_blocks_for_data_block file_id block_idx s =
     (let i = as_usize file_id in
      if \<not> i < length (inc_files s) then Ok (False, s)
      else let f = inc_files s ! i in
        if \<not> src_has_tree (sf_source f) then Ok (True, s)
        else
          let data_block_count = num_bytes_to_num_blocks (sf_size f);
              total_nodes = int (length (sent_tree_blocks f));
              leaf_nodes_count = (data_block_count + HASHES_PER_BLOCK - 1) div HASHES_PER_BLOCK;
              leaf_nodes_offset = total_nodes - leaf_nodes_count
          in if total_nodes \<le> 0 then Ok (True, s)
          else
            let leaf_idx = as_usize (leaf_nodes_offset + block_idx div HASHES_PER_BLOCK) in
            if leaf_idx \<ge> length (sent_tree_blocks f) \<or> sent_tree_blocks f ! leaf_idx then Ok (True, s)
            else and_then (send_tree_block file_id (as_i32 (int leaf_idx)) s) (\<lambda>(ok, s).
              if \<not> ok then Ok (False, s)
              else and_then (mark_tree_block i leaf_idx s) (\<lambda>s.
                if leaf_nodes_offset = 0 \<or> sent_tree_blocks (inc_files s ! i) ! 0 then Ok (True, s)
                else send_upper_tree file_id [0..<as_usize leaf_nodes_offset] s)))"

definition send_data_block ::
  "(bytes \<Rightarrow> bytes) \<Rightarrow> int \<Rightarrow> int \<Rightarrow> bool \<Rightarrow> IncrementalServer \<Rightarrow> (SendResult \<times> IncrementalServer, unit) outcome" where
  "send_data_block compress file_id block_idx flush s =
     (let i = as_usize file_id in
      if \<not> i < length (inc_files s) then Ok (Skipped, s)
      else if block_idx < 0 \<or> as_usize block_idx \<ge> length (sent_blocks (inc_files s ! i)) then Ok (Skipped, s)
      else if sent_blocks (inc_files s ! i) ! as_usize block_idx then Ok (Skipped, s)
      else and_then (send_tree_blocks_for_data_block file_id block_idx s) (\<lambda>(ok, s).
        if \<not> ok then Ok (Error, s)
        else case src_data (sf_source (inc_files s ! i)) block_idx of
          None \<Rightarrow> Ok (Error, s)
        | Some data \<Rightarrow>
            let compressed = compress data;
                small = (compressed \<noteq> [] \<and> int (length compressed) < COMPRESSED_SIZE_MAX);
                s = (if small then s\<lparr>compressed_blocks := compressed_blocks s + 1\<rparr>
                     else s\<lparr>uncompressed_blocks := uncompressed_blocks s + 1\<rparr>);
                payload = (if small then compressed else data);
                compression_type = (if small then COMPRESSION_LZ4 else COMPRESSION_NONE);
                s = upd_file i (\<lambda>f. f\<lparr>sent_blocks := (sent_blocks f)[as_usize block_idx := True],
                                      sent_blocks_count := sent_blocks_count f + 1\<rparr>) s
            in Ok (Sent, emit_block file_id block_idx TYPE_DATA compression_type payload flush s)))"

definition all_files_sent :: "IncrementalServer \<Rightarrow> bool" where
  "all_files_sent s = list_all (\<lambda>f. sent_blocks_count f = as_i32 (int (length (sent_blocks f)))) (inc_files s)"


section \<open>What sending a block leaves alone\<close>

text \<open>
  Two states of the server that differ in the flags of blocks already sent, the counters and the
  output only.
\<close>

definition same_file :: "ServerFile \<Rightarrow> ServerFile \<Rightarrow> bool" where
  "same_file f g \<longleftrightarrow> sf_filepath g = sf_filepath f \<and> sf_size g = sf_size f \<and> priority_blocks g = priority_blocks f \<and>
     sf_source g = sf_source f \<and> length (sent_blocks g) = length (sent_blocks f) \<and>
     length (sent_tree_blocks g) = length (sent_tree_blocks f)"

definition same_state :: "IncrementalServer \<Rightarrow> IncrementalServer \<Rightarrow> bool" where
  "same_state s t \<longleftrightarrow> list_all2 same_file (inc_files s) (inc_files t) \<and> incoming t = incoming s \<and>
     prefetches t = prefetches s \<and> prefetched_files t = prefetched_files s \<and>
     serving_complete t = serving_complete s \<and> destroyed t = destroyed s \<and> done_sent t = done_sent s"

lemma same_file_refl [simp]: "same_file f f" by (simp add: same_file_def)

lemma same_file_trans: "same_file f g \<Longrightarrow> same_file g h \<Longrightarrow> same_file f h" by (simp add: same_file_def)

lemma same_state_refl [simp]: "same_state s s"
  by (simp add: same_state_def list_all2_same)

lemma same_state_trans [trans]: "same_state s t \<Longrightarrow> same_state t u \<Longrightarrow> same_state s u"
  unfolding same_state_def by (auto intro: list_all2_trans [OF same_file_trans])

lemma same_state_files:
  assumes "same_state s t"
  shows "length (inc_files t) = length (inc_files s)"
    and "i < length (inc_files s) \<Longrightarrow> same_file (inc_files s ! i) (inc_files t ! i)"
  using assms by (auto simp: same_state_def list_all2_conv_all_nth)

lemma same_state_flush [simp]: "same_state s (inc_flush s)"
  by (simp add: inc_flush_def Let_def same_state_def list_all2_same)

lemma same_state_emit [simp]: "same_state s (emit_block fid b ty c p fl s)"
proof -
  have "same_state s (s\<lparr>inc_pending := x\<rparr>)" for x by (simp add: same_state_def list_all2_same)
  then show ?thesis by (auto simp: emit_block_def Let_def intro: same_state_trans [OF _ same_state_flush])
qed

lemma same_state_upd_file:
  assumes "same_file (inc_files s ! i) (g (inc_files s ! i))"
  shows "same_state s (upd_file i g s)"
proof -
  have "same_file (inc_files s ! k) ((inc_files s)[i := g (inc_files s ! i)] ! k)" if "k < length (inc_files s)" for k
    using assms that by (cases "k = i") simp_all
  then show ?thesis by (simp add: same_state_def upd_file_def list_all2_conv_all_nth)
qed

lemma mark_tree_block_same: "mark_tree_block i k s = Ok t \<Longrightarrow> same_state s t"
  by (auto simp: mark_tree_block_def same_file_def intro!: same_state_upd_file split: if_splits)

lemma send_tree_block_same: "send_tree_block fid b s = Ok (ok, t) \<Longrightarrow> same_state s t"
  by (auto simp: send_tree_block_def split: option.splits)

lemma send_upper_tree_same: "send_upper_tree fid ks s = Ok (ok, t) \<Longrightarrow> same_state s t"
proof (induction ks arbitrary: s)
  case (Cons k ks)
  then show ?case
    using send_tree_block_same mark_tree_block_same by (fastforce intro: same_state_trans split: if_splits)
qed simp

lemma send_tree_blocks_same:
  assumes "send_tree_blocks_for_data_block fid b s = Ok (ok, t)"
  shows "same_state s t"
proof -
  from assms consider "t = s" | (leaf) l s1 ok1 where "send_tree_block fid l s = Ok (ok1, s1)" "t = s1"
    | (marked) l s1 ok1 i k s2 where "send_tree_block fid l s = Ok (ok1, s1)" "mark_tree_block i k s1 = Ok s2" "t = s2"
    | (upper) l s1 ok1 i k s2 ks where "send_tree_block fid l s = Ok (ok1, s1)" "mark_tree_block i k s1 = Ok s2"
      "send_upper_tree fid ks s2 = Ok (ok, t)"
    unfolding send_tree_blocks_for_data_block_def Let_def by (simp split: if_split_asm) blast+
  then show ?thesis
  proof cases
    case leaf
    then show ?thesis using send_tree_block_same by simp
  next
    case marked
    then show ?thesis using same_state_trans [OF send_tree_block_same mark_tree_block_same] by simp
  next
    case upper
    from same_state_trans [OF send_tree_block_same [OF upper(1)] mark_tree_block_same [OF upper(2)]]
      send_upper_tree_same [OF upper(3)] show ?thesis by (rule same_state_trans)
  qed simp
qed

text \<open>The ways in which \<open>send_data_block\<close> ends.\<close>

lemma send_data_block_cases:
  assumes run: "send_data_block compress fid b fl s = Ok (res, t)"
  obtains (skip) "res = Skipped" "t = s" "\<not> as_usize fid < length (inc_files s) \<or> b < 0 \<or>
      as_usize b \<ge> length (sent_blocks (inc_files s ! as_usize fid)) \<or> sent_blocks (inc_files s ! as_usize fid) ! as_usize b"
  | (fail) ok where "res = Error" "as_usize fid < length (inc_files s)" "0 \<le> b"
      "as_usize b < length (sent_blocks (inc_files s ! as_usize fid))" "\<not> sent_blocks (inc_files s ! as_usize fid) ! as_usize b"
      "send_tree_blocks_for_data_block fid b s = Ok (ok, t)"
      "\<not> ok \<or> src_data (sf_source (inc_files t ! as_usize fid)) b = None"
  | (sent) s1 data c p x u where "res = Sent" "as_usize fid < length (inc_files s)" "0 \<le> b"
      "as_usize b < length (sent_blocks (inc_files s ! as_usize fid))" "\<not> sent_blocks (inc_files s ! as_usize fid) ! as_usize b"
      "send_tree_blocks_for_data_block fid b s = Ok (True, s1)" "src_data (sf_source (inc_files s1 ! as_usize fid)) b = Some data"
      "c = COMPRESSION_LZ4 \<and> p = compress data \<and> length p < 3891 \<or> c = COMPRESSION_NONE \<and> p = data"
      "t = emit_block fid b TYPE_DATA c p fl (upd_file (as_usize fid) (\<lambda>f. f\<lparr>sent_blocks := (sent_blocks f)[as_usize b := True],
         sent_blocks_count := sent_blocks_count f + 1\<rparr>) u)"
      "u = s1\<lparr>compressed_blocks := x\<rparr> \<or> u = s1\<lparr>uncompressed_blocks := x\<rparr>"
proof -
  let ?i = "as_usize fid"
  show thesis
  proof (cases "as_usize fid < length (inc_files s) \<and> 0 \<le> b \<and> as_usize b < length (sent_blocks (inc_files s ! ?i)) \<and>
      \<not> sent_blocks (inc_files s ! ?i) ! as_usize b")
    case False
    then have "send_data_block compress fid b fl s = Ok (Skipped, s)"
      unfolding send_data_block_def Let_def by simp
    with run have "res = Skipped \<and> t = s" by simp
    with False skip show thesis by auto
  next
    case True
    then have new: "as_usize fid < length (inc_files s)" "0 \<le> b" "as_usize b < length (sent_blocks (inc_files s ! ?i))"
      "\<not> sent_blocks (inc_files s ! ?i) ! as_usize b" by auto
    from run new obtain ok s1 where s1: "send_tree_blocks_for_data_block fid b s = Ok (ok, s1)"
      by (auto simp: send_data_block_def Let_def)
    show thesis
    proof (cases "ok \<and> src_data (sf_source (inc_files s1 ! ?i)) b \<noteq> None")
      case False
      then have "res = Error \<and> t = s1" using run new s1 by (cases ok) (auto simp: send_data_block_def Let_def)
      with False fail [OF _ new, of ok] s1 show thesis by auto
    next
      case True
      then obtain data where d: "src_data (sf_source (inc_files s1 ! ?i)) b = Some data" by blast
      let ?small = "compress data \<noteq> [] \<and> int (length (compress data)) < COMPRESSED_SIZE_MAX"
      note r = run [unfolded send_data_block_def Let_def] 
      show thesis
      proof (cases ?small)
        case sm: True
        show thesis
          using sent [OF _ new _ d, of COMPRESSION_LZ4 "compress data" _ "compressed_blocks s1 + 1"]
            r new s1 True d sm by (auto simp: COMPRESSED_SIZE_MAX_def)
      next
        case sm: False
        show thesis
          using sent [OF _ new _ d, of COMPRESSION_NONE data _ "uncompressed_blocks s1 + 1"]
            r new s1 True d sm by auto
      qed
    qed
  qed
qed

lemma send_data_block_same:
  assumes "send_data_block compress fid b fl s = Ok (res, t)"
  shows "same_state s t"
  using assms
proof (cases rule: send_data_block_cases)
  case skip
  then show ?thesis by simp
next
  case fail
  then show ?thesis using send_tree_blocks_same by simp
next
  case (sent s1 data c p x u)
  have "same_state s1 u" using sent(10) by (auto simp: same_state_def list_all2_same)
  from same_state_trans [OF send_tree_blocks_same [OF sent(6)] this] show ?thesis
    unfolding sent(9) by (rule same_state_trans [OF same_state_trans [OF _ same_state_upd_file] same_state_emit])
      (simp add: same_file_def)
qed

section \<open>Prefetching\<close>

function priority_loop ::
  "(bytes \<Rightarrow> bytes) \<Rightarrow> nat \<Rightarrow> nat \<Rightarrow> nat \<Rightarrow> int \<Rightarrow> IncrementalServer \<Rightarrow> (nat \<times> int \<times> IncrementalServer, unit) outcome" where
  "priority_loop compress file_index priority_len priority_index blocks_to_send s =
     (if blocks_to_send > 0 \<and> priority_index < priority_len then
        and_then (index (inc_files s) file_index) (\<lambda>f.
        and_then (index (priority_blocks f) priority_index) (\<lambda>block.
        and_then (send_data_block compress (as_i16 (int file_index)) block False s) (\<lambda>(res, s).
          priority_loop compress file_index priority_len (priority_index + 1)
            (if res = Sent then blocks_to_send - 1 else blocks_to_send) s)))
      else Ok (priority_index, blocks_to_send, s))"
  by pat_completeness auto
termination by (relation "measure (\<lambda>(_, _, n, k, _, _). n - k)") auto

function overall_loop ::
  "(bytes \<Rightarrow> bytes) \<Rightarrow> nat \<Rightarrow> int \<Rightarrow> int \<Rightarrow> int \<Rightarrow> IncrementalServer \<Rightarrow> (int \<times> int \<times> IncrementalServer, unit) outcome" where
  "overall_loop compress file_index overall_end overall_index blocks_to_send s =
     (if blocks_to_send > 0 \<and> overall_index < overall_end then
        and_then (send_data_block compress (as_i16 (int file_index)) overall_index False s) (\<lambda>(res, s).
          overall_loop compress file_index overall_end (overall_index + 1)
            (if res = Sent then blocks_to_send - 1 else blocks_to_send) s)
      else Ok (overall_index, blocks_to_send, s))"
  by pat_completeness auto
termination by (relation "measure (\<lambda>(_, _, n, k, _, _). nat (n - k))") auto

declare priority_loop.simps [simp del] overall_loop.simps [simp del]

lemma priority_loop_end:
  "priority_loop compress fi n k bud s = Ok (k', bud', t) \<Longrightarrow>
   same_state s t \<and> k \<le> k' \<and> bud' \<le> bud \<and> (bud' \<le> 0 \<or> n \<le> k')"
proof (induction compress fi n k bud s rule: priority_loop.induct)
  case (1 compress fi n k bud s)
  show ?case
  proof (cases "bud > 0 \<and> k < n")
    case True
    with "1.prems" obtain f b res s1 where st: "index (inc_files s) fi = (Ok f :: (_, unit) outcome)"
      "index (priority_blocks f) k = (Ok b :: (_, unit) outcome)"
      "send_data_block compress (as_i16 (int fi)) b False s = Ok (res, s1)"
      "priority_loop compress fi n (k + 1) (if res = Sent then bud - 1 else bud) s1 = Ok (k', bud', t)"
      by (subst (asm) priority_loop.simps) auto
    from "1.IH" [OF True st(1,2,3) refl st(4)] send_data_block_same [OF st(3)] show ?thesis
      by (auto intro: same_state_trans split: if_splits)
  next
    case False
    then have "priority_loop compress fi n k bud s = Ok (k, bud, s)" by (subst priority_loop.simps) (simp only: if_False)
    with "1.prems" False show ?thesis by auto
  qed
qed

lemma overall_loop_end:
  "overall_loop compress fi n k bud s = Ok (k', bud', t) \<Longrightarrow>
   same_state s t \<and> k \<le> k' \<and> bud' \<le> bud \<and> (bud' \<le> 0 \<or> n \<le> k')"
proof (induction compress fi n k bud s rule: overall_loop.induct)
  case (1 compress fi n k bud s)
  show ?case
  proof (cases "bud > 0 \<and> k < n")
    case True
    with "1.prems" obtain res s1 where
      st: "send_data_block compress (as_i16 (int fi)) k False s = Ok (res, s1)"
      "overall_loop compress fi n (k + 1) (if res = Sent then bud - 1 else bud) s1 = Ok (k', bud', t)"
      by (subst (asm) overall_loop.simps) auto
    from "1.IH" [OF True st(1) refl st(2)] send_data_block_same [OF st(1)] show ?thesis
      by (auto intro: same_state_trans split: if_splits)
  next
    case False
    then have "overall_loop compress fi n k bud s = Ok (k, bud, s)" by (subst overall_loop.simps) (simp only: if_False)
    with "1.prems" False show ?thesis by auto
  qed
qed


definition upd_front :: "(PrefetchState \<Rightarrow> PrefetchState) \<Rightarrow> IncrementalServer \<Rightarrow> IncrementalServer" where
  "upd_front g s = s\<lparr>prefetches := (case prefetches s of [] \<Rightarrow> [] | p # ps \<Rightarrow> g p # ps)\<rparr>"

text \<open>One turn of the outer loop on the front \<open>p\<close> of the queue; a finished prefetch is removed.\<close>

definition prefetch_turn ::
  "(bytes \<Rightarrow> bytes) \<Rightarrow> PrefetchState \<Rightarrow> int \<Rightarrow> IncrementalServer \<Rightarrow> (int \<times> IncrementalServer, unit) outcome" where
  "prefetch_turn compress p blocks_to_send s =
     and_then (index (inc_files s) (pf_file_index p)) (\<lambda>f.
     and_then (priority_loop compress (pf_file_index p) (length (priority_blocks f)) (pf_priority_index p) blocks_to_send s)
       (\<lambda>(priority_index, blocks_to_send, s).
     let s = upd_front (\<lambda>p. p\<lparr>pf_priority_index := priority_index\<rparr>) s in
     and_then (overall_loop compress (pf_file_index p) (pf_overall_end p) (pf_overall_index p) blocks_to_send s)
       (\<lambda>(overall_index, blocks_to_send, s).
     let s = upd_front (\<lambda>p. p\<lparr>pf_overall_index := overall_index\<rparr>) s in
     and_then (index (prefetches s) 0) (\<lambda>p.
     and_then (index (inc_files s) (pf_file_index p)) (\<lambda>f.
       Ok (blocks_to_send, if PrefetchState_done p f then s\<lparr>prefetches := tl (prefetches s)\<rparr> else s))))))"

function run_prefetches :: "(bytes \<Rightarrow> bytes) \<Rightarrow> int \<Rightarrow> IncrementalServer \<Rightarrow> (IncrementalServer, unit) outcome" where
  "run_prefetches compress blocks_to_send s =
     (if prefetches s \<noteq> [] \<and> blocks_to_send > 0 then
        and_then (prefetch_turn compress (hd (prefetches s)) blocks_to_send s) (\<lambda>(blocks_to_send, s).
          run_prefetches compress blocks_to_send s)
      else Ok s)"
  by pat_completeness auto

lemma same_state_upd_front:
  "same_state s t \<Longrightarrow> inc_files (upd_front g t) = inc_files t \<and> list_all2 same_file (inc_files s) (inc_files t)"
  by (simp add: upd_front_def same_state_def)

text \<open>A turn either removes the front of the queue or uses up the budget.\<close>

lemma prefetch_turn_cases:
  assumes "prefetch_turn compress p bud s = Ok (bud', t)" and "prefetches s = p # ps"
  obtains f pi1 bud1 s1 oi s2 p' where
    "pf_file_index p < length (inc_files s)" "f = inc_files s ! pf_file_index p"
    "priority_loop compress (pf_file_index p) (length (priority_blocks f)) (pf_priority_index p) bud s = Ok (pi1, bud1, s1)"
    "overall_loop compress (pf_file_index p) (pf_overall_end p) (pf_overall_index p) bud1
       (s1\<lparr>prefetches := p\<lparr>pf_priority_index := pi1\<rparr> # ps\<rparr>) = Ok (oi, bud', s2)"
    "p' = p\<lparr>pf_priority_index := pi1, pf_overall_index := oi\<rparr>" "prefetches s2 = p\<lparr>pf_priority_index := pi1\<rparr> # ps"
    "same_file f (inc_files s2 ! pf_file_index p)" "length (inc_files s2) = length (inc_files s)"
    "t = s2\<lparr>prefetches := if PrefetchState_done p' f then ps else p' # ps\<rparr>"
    "PrefetchState_done p' f \<or> bud' \<le> 0" "bud' \<le> bud"
proof -
  let ?i = "pf_file_index p"
  from assms(1) obtain f pi1 bud1 s1 oi s2 q g where
    f: "index (inc_files s) ?i = (Ok f :: (_, unit) outcome)" and
    pl: "priority_loop compress ?i (length (priority_blocks f)) (pf_priority_index p) bud s = Ok (pi1, bud1, s1)" and
    ol: "overall_loop compress ?i (pf_overall_end p) (pf_overall_index p) bud1
      (upd_front (\<lambda>p. p\<lparr>pf_priority_index := pi1\<rparr>) s1) = Ok (oi, bud', s2)" and
    q: "index (prefetches (upd_front (\<lambda>p. p\<lparr>pf_overall_index := oi\<rparr>) s2)) 0 = (Ok q :: (_, unit) outcome)" and
    g: "index (inc_files s2) (pf_file_index q) = (Ok g :: (_, unit) outcome)" and
    t: "t = (let s = upd_front (\<lambda>p. p\<lparr>pf_overall_index := oi\<rparr>) s2 in
        if PrefetchState_done q g then s\<lparr>prefetches := tl (prefetches s)\<rparr> else s)"
    by (auto simp: prefetch_turn_def Let_def upd_front_def)
  from f have i: "?i < length (inc_files s)" and f': "f = inc_files s ! ?i" by (auto simp: index_def split: if_splits)
  note e1 = priority_loop_end [OF pl] and e2 = overall_loop_end [OF ol]
  from e1 assms(2) have "prefetches s1 = p # ps" by (simp add: same_state_def)
  then have u1: "upd_front (\<lambda>p. p\<lparr>pf_priority_index := pi1\<rparr>) s1 = s1\<lparr>prefetches := p\<lparr>pf_priority_index := pi1\<rparr> # ps\<rparr>"
    by (simp add: upd_front_def)
  from e2 have pre2: "prefetches s2 = p\<lparr>pf_priority_index := pi1\<rparr> # ps" by (simp add: u1 same_state_def)
  define p' where "p' = p\<lparr>pf_priority_index := pi1, pf_overall_index := oi\<rparr>"
  have u2: "upd_front (\<lambda>p. p\<lparr>pf_overall_index := oi\<rparr>) s2 = s2\<lparr>prefetches := p' # ps\<rparr>"
    by (simp add: upd_front_def pre2 p'_def)
  from q have q': "q = p'" by (simp add: u2 index_def)
  have "list_all2 same_file (inc_files s) (inc_files s1)" using e1 by (simp add: same_state_def)
  moreover have "list_all2 same_file (inc_files s1) (inc_files s2)" using e2 by (simp add: u1 same_state_def)
  ultimately have all: "list_all2 same_file (inc_files s) (inc_files s2)"
    by (auto intro: list_all2_trans [OF same_file_trans])
  then have sf: "same_file f (inc_files s2 ! ?i)" "length (inc_files s2) = length (inc_files s)"
    using i f' by (auto simp: list_all2_conv_all_nth)
  from g have g': "g = inc_files s2 ! ?i" by (simp add: q' p'_def index_def split: if_splits)
  have dn: "PrefetchState_done p' g = PrefetchState_done p' f"
    using sf(1) by (simp add: PrefetchState_done_def g' same_file_def)
  have dn2: "PrefetchState_done p' f \<or> bud' \<le> 0" "bud' \<le> bud"
    using e1 e2 by (auto simp: PrefetchState_done_def p'_def Let_def)
  have t': "t = s2\<lparr>prefetches := if PrefetchState_done p' f then ps else p' # ps\<rparr>"
    by (simp add: t u2 q' dn Let_def)
  show thesis by (rule that [OF i f' pl ol [unfolded u1] p'_def pre2 sf t' dn2])
qed

termination run_prefetches
proof (relation "measure (\<lambda>(_, bud, s). 2 * length (prefetches s) + (if bud > 0 then 1 else 0))", goal_cases)
  case (2 compress bud s x bud' t)
  then obtain ps where ps: "prefetches s = hd (prefetches s) # ps" by (metis list.collapse)
  from 2 have "prefetch_turn compress (hd (prefetches s)) bud s = Ok (bud', t)" by simp
  then have "length (prefetches t) = length ps \<or> length (prefetches t) = Suc (length ps) \<and> bud' \<le> 0"
    using ps by (rule prefetch_turn_cases) auto
  moreover have "length (prefetches s) = Suc (length ps)" by (subst ps) simp
  ultimately show ?case using 2(1) by auto
qed simp

declare run_prefetches.simps [simp del]

definition run_prefetching :: "(bytes \<Rightarrow> bytes) \<Rightarrow> IncrementalServer \<Rightarrow> (IncrementalServer, unit) outcome" where
  "run_prefetching compress s = run_prefetches compress 128 s"


section \<open>Requests\<close>

definition inc_feed :: "bytes \<Rightarrow> IncrementalServer \<Rightarrow> IncrementalServer" where
  "inc_feed data s = s\<lparr>incoming := incoming s @ data\<rparr>"

text \<open>The scan for the magic number: its position, or where the scan stopped.\<close>

function scan_magic :: "bytes \<Rightarrow> int \<Rightarrow> int \<Rightarrow> int \<times> bool" where
  "scan_magic inc bsize bcur =
     (if bcur + 4 < bsize then
        if u32_from_be (take 4 (drop (nat bcur) inc)) = INCR_MAGIC then (bcur, True)
        else scan_magic inc bsize (bcur + 1)
      else (bcur, False))"
  by pat_completeness auto
termination by (relation "measure (\<lambda>(_, n, k). nat (n - k))") auto

declare scan_magic.simps [simp del]

text \<open>The request found, if any, the bytes forwarded, and the server without both.\<close>

definition take_request :: "IncrementalServer \<Rightarrow> RequestCommand option \<times> bytes \<times> IncrementalServer" where
  "take_request s =
     (let bsize = as_i32 (int (length (incoming s)));
          (bcur, magic_found) = scan_magic (incoming s) bsize 0;
          forward = (if bcur > 0 then take (nat bcur) (incoming s) else []);
          s = (if bcur > 0 then s\<lparr>incoming := drop (nat bcur) (incoming s)\<rparr> else s)
      in if magic_found \<and> length (incoming s) \<ge> 4 + 8 then
           let payload = take 8 (drop 4 (incoming s))
           in (RequestCommand_decode payload, forward, s\<lparr>incoming := drop (4 + 8) (incoming s)\<rparr>)
         else (None, forward, s))"

definition handle_request ::
  "(bytes \<Rightarrow> bytes) \<Rightarrow> RequestCommand \<Rightarrow> IncrementalServer \<Rightarrow> (IncrementalServer, unit) outcome" where
  "handle_request compress request s =
     (let file_id = rq_file_id request; block_idx = rq_block_idx request in
      if rq_type request = DESTROY then Ok (s\<lparr>destroyed := True\<rparr>)
      else if rq_type request = SERVING_COMPLETE then Ok (s\<lparr>serving_complete := True\<rparr>)
      else if rq_type request = BLOCK_MISSING then
        if file_id < 0 \<or> as_usize file_id \<ge> length (inc_files s) \<or> block_idx < 0 \<or>
           as_usize block_idx \<ge> length (sent_blocks (inc_files s ! as_usize file_id)) then Ok s
        else and_then (send_data_block compress file_id block_idx True s) (\<lambda>(res, s).
          case res of
            Error \<Rightarrow> Ok s
          | Sent \<Rightarrow>
              let prefetch = PrefetchState_new (as_usize file_id) (inc_files s ! as_usize file_id) (block_idx + 1) 7
              in Ok (s\<lparr>prefetches := prefetch # prefetches s\<rparr>)
          | Skipped \<Rightarrow> Ok s)
      else if rq_type request = PREFETCH then
        if file_id < 0 then Ok s
        else if file_id \<in> set (prefetched_files s) then Ok s
        else
          let s = s\<lparr>prefetched_files := hs_insert file_id (prefetched_files s)\<rparr> in
          and_then (index (inc_files s) (as_usize file_id)) (\<lambda>f.
            Ok (s\<lparr>prefetches := prefetches s @ [PrefetchState_full (as_usize file_id) f]\<rparr>))
      else Ok s)"

text \<open>The ways in which \<open>handle_request\<close> ends.\<close>

lemma handle_request_cases:
  assumes run: "handle_request compress r s = Ok t"
  obtains (flags) "t = s \<or> t = s\<lparr>destroyed := True\<rparr> \<or> t = s\<lparr>serving_complete := True\<rparr>"
  | (missing) res s1 where "0 \<le> rq_file_id r" "as_usize (rq_file_id r) < length (inc_files s)" "0 \<le> rq_block_idx r"
      "as_usize (rq_block_idx r) < length (sent_blocks (inc_files s ! as_usize (rq_file_id r)))"
      "send_data_block compress (rq_file_id r) (rq_block_idx r) True s = Ok (res, s1)"
      "t = (if res = Sent then s1\<lparr>prefetches := PrefetchState_new (as_usize (rq_file_id r))
         (inc_files s1 ! as_usize (rq_file_id r)) (rq_block_idx r + 1) 7 # prefetches s1\<rparr> else s1)"
  | (prefetch) "0 \<le> rq_file_id r" "as_usize (rq_file_id r) < length (inc_files s)"
      "t = s\<lparr>prefetched_files := hs_insert (rq_file_id r) (prefetched_files s),
         prefetches := prefetches s @ [PrefetchState_full (as_usize (rq_file_id r)) (inc_files s ! as_usize (rq_file_id r))]\<rparr>"
proof -
  let ?i = "rq_file_id r" and ?b = "rq_block_idx r"
  let ?valid = "0 \<le> ?i \<and> as_usize ?i < length (inc_files s) \<and> 0 \<le> ?b \<and> as_usize ?b < length (sent_blocks (inc_files s ! as_usize ?i))"
  consider (m) "rq_type r = BLOCK_MISSING" ?valid | (p) "rq_type r = PREFETCH" "0 \<le> ?i" "?i \<notin> set (prefetched_files s)"
    | (other) "rq_type r = BLOCK_MISSING \<longrightarrow> \<not> ?valid" "rq_type r = PREFETCH \<longrightarrow> ?i < 0 \<or> ?i \<in> set (prefetched_files s)"
    by linarith
  then show thesis
  proof cases
    case m
    from run m obtain res s1 where st: "send_data_block compress ?i ?b True s = Ok (res, s1)"
      by (auto simp: handle_request_def request_kinds Let_def)
    from run m st have "t = (if res = Sent then s1\<lparr>prefetches := PrefetchState_new (as_usize ?i)
         (inc_files s1 ! as_usize ?i) (?b + 1) 7 # prefetches s1\<rparr> else s1)"
      by (cases res) (simp_all add: handle_request_def request_kinds Let_def)
    with m st missing show thesis by blast
  next
    case p
    from run p show thesis
      by (intro prefetch) (auto simp: handle_request_def request_kinds Let_def index_def split: if_splits)
  next
    case other
    with run have "t = s \<or> t = s\<lparr>destroyed := True\<rparr> \<or> t = s\<lparr>serving_complete := True\<rparr>"
      by (auto simp: handle_request_def request_kinds Let_def split: if_splits)
    then show thesis by (rule flags)
  qed
qed

text \<open>One iteration of the server: whether it goes on, the bytes forwarded, and the new state.\<close>

definition serve_step ::
  "(bytes \<Rightarrow> bytes) \<Rightarrow> IncrementalServer \<Rightarrow> (bool \<times> bytes \<times> IncrementalServer, unit) outcome" where
  "serve_step compress s =
     (let s = (if \<not> done_sent s \<and> prefetches s = [] \<and> all_files_sent s
               then (send_done s)\<lparr>done_sent := True\<rparr> else s);
          s = (if prefetches s = [] then inc_flush s else s);
          (request, forward, s) = take_request s
      in and_then (case request of Some r \<Rightarrow> handle_request compress r s | None \<Rightarrow> Ok s) (\<lambda>s.
         and_then (run_prefetching compress s) (\<lambda>s. Ok (\<not> destroyed s, forward, s))))"

end
