(* ===== verification/Incremental_Stream.thy ===== *)
theory Incremental_Stream
  imports Incremental_Server
begin

text \<open>
  What the device receives from the incremental server. The bytes shipped over a whole session are read
  back chunk by chunk and block by block, and every session produces a stream in which a block of a file
  or of its verity tree occurs at most once, with the contents of the file, behind the hash that covers
  it, and in which the end marker closes the stream after everything was sent.
\<close>

section \<open>Reading the stream back\<close>

type_synonym block = "ResponseHeader \<times> bytes"

definition ResponseHeader_decode :: "bytes \<Rightarrow> ResponseHeader" where
  "ResponseHeader_decode bs =
     \<lparr>rh_file_id = i16_from_be (take 2 bs), rh_block_type = sint (bs ! 2), rh_compression_type = sint (bs ! 3),
      rh_block_idx = i32_from_be (take 4 (drop 4 bs)), rh_block_size = i16_from_be (take 2 (drop 8 bs))\<rparr>"

text \<open>The blocks of one chunk, and the chunks of a stream. \<open>None\<close> is a stream that breaks off.\<close>

function read_blocks :: "bytes \<Rightarrow> block list option" where
  "read_blocks bs =
     (if bs = [] then Some []
      else if length bs < 10 then None
      else let h = ResponseHeader_decode bs; n = nat (rh_block_size h) in
        if length bs < 10 + n then None
        else map_option (Cons (h, take n (drop 10 bs))) (read_blocks (drop (10 + n) bs)))"
  by pat_completeness auto
termination by (relation "measure length") auto

function receive :: "bytes \<Rightarrow> block list option" where
  "receive bs =
     (if bs = [] then Some []
      else if length bs < 4 then None
      else let n = nat (i32_from_be (take 4 bs)) in
        if length bs < 4 + n then None
        else case read_blocks (take n (drop 4 bs)) of
            None \<Rightarrow> None
          | Some blks \<Rightarrow> map_option (append blks) (receive (drop (4 + n) bs)))"
  by pat_completeness auto
termination by (relation "measure length") auto

declare read_blocks.simps [simp del] receive.simps [simp del]

definition wire :: "block list \<Rightarrow> bytes" where
  "wire blks = concat (map (\<lambda>(h, p). ResponseHeader_encode h @ p) blks)"

definition chunked :: "bytes list \<Rightarrow> bytes" where
  "chunked cs = concat (map (\<lambda>c. i32_to_be (int (length c)) @ c) cs)"

definition is_i8 :: "int \<Rightarrow> bool" where "is_i8 x \<longleftrightarrow> - 128 \<le> x \<and> x < 128"

definition wf_block :: "block \<Rightarrow> bool" where
  "wf_block b = (case b of (h, p) \<Rightarrow> is_i16 (rh_file_id h) \<and> is_i8 (rh_block_type h) \<and> is_i8 (rh_compression_type h) \<and>
     is_i32 (rh_block_idx h) \<and> length p \<le> 4096 \<and> rh_block_size h = int (length p))"

lemma sint_word_of_int_8: "is_i8 x \<Longrightarrow> sint (word_of_int x :: 8 word) = x"
  by (simp add: is_i8_def sint_sbintrunc' signed_take_bit_int_eq_self)

lemma be_round [simp]:
  "is_i16 x \<Longrightarrow> i16_from_be (i16_to_be x) = x" "length (i16_to_be x) = 2"
  "is_i32 y \<Longrightarrow> i32_from_be (i32_to_be y) = y" "length (i32_to_be y) = 4"
  by (simp_all add: i16_from_be_def i16_to_be_def sint_word_of_int_16 i32_from_be_def i32_to_be_def)

lemma as_i16_id: "is_i16 x \<Longrightarrow> as_i16 x = x"
  by (simp add: as_i16_def sint_word_of_int_16)

lemma ResponseHeader_encode_eq:
  "ResponseHeader_encode h = i16_to_be (rh_file_id h) @ [word_of_int (rh_block_type h), word_of_int (rh_compression_type h)] @
     i32_to_be (rh_block_idx h) @ i16_to_be (rh_block_size h)"
proof -
  have l2: "\<exists>a b. xs = [a, b]" if "length xs = 2" for xs :: bytes
    using that by (cases xs; cases "tl xs") (auto simp: length_Suc_conv)
  have l4: "\<exists>a b c d. xs = [a, b, c, d]" if "length xs = 4" for xs :: bytes
    using that by (auto simp: numeral_eq_Suc length_Suc_conv)
  obtain a b c d e f g i where *: "i16_to_be (rh_file_id h) = [a, b]" "i16_to_be (rh_block_size h) = [c, d]"
    "i32_to_be (rh_block_idx h) = [e, f, g, i]"
    using l2 [of "i16_to_be (rh_file_id h)"] l2 [of "i16_to_be (rh_block_size h)"] l4 [of "i32_to_be (rh_block_idx h)"] by auto
  show ?thesis unfolding ResponseHeader_encode_def Let_def * by (simp add: put_def numeral_eq_Suc)
qed

lemma length_ResponseHeader_encode [simp]: "length (ResponseHeader_encode h) = 10"
  by (simp add: ResponseHeader_encode_eq)

lemma ResponseHeader_round:
  assumes "wf_block (h, p)"
  shows "ResponseHeader_decode (ResponseHeader_encode h @ rest) = h"
  using assms unfolding wf_block_def
  by (simp add: ResponseHeader_decode_def ResponseHeader_encode_eq nth_append sint_word_of_int_8 is_i16_def [of "int _"])

lemma read_blocks_wire: "list_all wf_block blks \<Longrightarrow> read_blocks (wire blks) = Some blks"
proof (induction blks)
  case (Cons b blks)
  obtain h p where b: "b = (h, p)" by (cases b)
  with Cons.prems have wf: "wf_block (h, p)" by simp
  have w: "wire (b # blks) = ResponseHeader_encode h @ p @ wire blks" by (simp add: wire_def b)
  have ne: "ResponseHeader_encode h \<noteq> []" using length_ResponseHeader_encode [of h] by (metis length_0_conv zero_neq_numeral)
  have sz: "nat (rh_block_size h) = length p" using wf by (simp add: wf_block_def)
  show ?case unfolding w
    using Cons ne by (subst read_blocks.simps) (simp add: ResponseHeader_round [OF wf] Let_def sz b)
qed (simp add: wire_def read_blocks.simps)

lemma receive_chunked:
  "(\<And>l. l \<in> set ls \<Longrightarrow> list_all wf_block l \<and> length (wire l) < 2 ^ 31) \<Longrightarrow>
   receive (chunked (map wire ls)) = Some (concat ls)"
proof (induction ls)
  case (Cons l ls)
  let ?c = "i32_to_be (int (length (wire l)))"
  have w: "chunked (map wire (l # ls)) = ?c @ wire l @ chunked (map wire ls)" by (simp add: chunked_def)
  have ne: "?c \<noteq> []" using be_round(4) by (metis length_0_conv zero_neq_numeral)
  have l: "list_all wf_block l" "is_i32 (int (length (wire l)))" using Cons.prems [of l] by (simp_all add: is_i32_def)
  have "receive (chunked (map wire ls)) = Some (concat ls)" using Cons by simp
  then show ?case unfolding w
    using ne l by (subst receive.simps) (simp add: Let_def read_blocks_wire)
qed (simp add: chunked_def receive.simps)

section \<open>The output buffers\<close>

text \<open>
  The blocks emitted so far are those of the chunks shipped or waiting in \<open>output\<close>, followed by those of
  the chunk being filled.
\<close>

definition emitted :: "bytes \<Rightarrow> IncrementalServer \<Rightarrow> block list \<Rightarrow> bool" where
  "emitted shipped s log \<longleftrightarrow> (\<exists>ls cur. shipped @ inc_output s = chunked (map wire ls) \<and>
     (\<forall>l \<in> set ls. length (wire l) < 2 ^ 31) \<and> length (inc_pending s) = 4 + length (wire cur) \<and>
     drop 4 (inc_pending s) = wire cur \<and> length (inc_pending s) \<le> CHUNK_FLUSH_SIZE \<and>
     log = concat ls @ cur \<and> list_all wf_block log)"

lemma wire_append [simp]: "wire (a @ b) = wire a @ wire b" by (simp add: wire_def)

lemma wire_simps [simp]: "wire [] = []" "wire [(h, p)] = ResponseHeader_encode h @ p" by (simp_all add: wire_def)

lemma wire_eq_Nil: "wire l = [] \<longleftrightarrow> l = []"
  by (cases l) (auto simp: wire_def dest: arg_cong [where f = length])

lemma chunked_snoc: "chunked (cs @ [c]) = chunked cs @ i32_to_be (int (length c)) @ c" by (simp add: chunked_def)

text \<open>Flushing moves the chunk being filled to the output, from a buffer of any size below \<open>2\<^sup>3\<^sup>1\<close>.\<close>

lemma flush_emitted:
  assumes "shipped @ inc_output s = chunked (map wire ls)" "\<forall>l \<in> set ls. length (wire l) < 2 ^ 31"
    and pend: "length (inc_pending s) = 4 + length (wire cur)" "drop 4 (inc_pending s) = wire cur"
    and small: "length (wire cur) < 2 ^ 31" and "list_all wf_block (concat ls @ cur)"
  shows "emitted shipped (inc_flush s) (concat ls @ cur)"
proof (cases "cur = []")
  case True
  then have "inc_flush s = s" using pend by (simp add: inc_flush_def)
  then show ?thesis unfolding emitted_def using assms True
    by (intro exI [of _ ls] exI [of _ "[]"]) (simp add: CHUNK_FLUSH_SIZE_def inc_sizes)
next
  case False
  then have ne: "length (wire cur) > 0" by (simp add: wire_eq_Nil)
  have i: "is_i32 (int (length (wire cur)))" using small by (simp add: is_i32_def)
  have p: "put 0 (i32_to_be (int (length (wire cur)))) (inc_pending s) = i32_to_be (int (length (wire cur))) @ wire cur"
    using pend by (simp add: put_def)
  have "inc_output (inc_flush s) = inc_output s @ i32_to_be (int (length (wire cur))) @ wire cur"
    "inc_pending (inc_flush s) = i32_to_be (int (length (wire cur)))"
    using ne pend(1) by (simp_all add: inc_flush_def Let_def i p)
  then show ?thesis unfolding emitted_def using assms
    by (intro exI [of _ "ls @ [cur]"] exI [of _ "[]"])
      (simp add: chunked_snoc CHUNK_FLUSH_SIZE_def inc_sizes flip: append_assoc)
qed

lemma emitted_flush: "emitted shipped s log \<Longrightarrow> emitted shipped (inc_flush s) log"
  unfolding emitted_def [of _ s] using flush_emitted
  by (auto simp: CHUNK_FLUSH_SIZE_def inc_sizes)

lemma emitted_push:
  assumes e: "emitted shipped s log" and wf: "wf_block (h, p)"
    and t: "t = s\<lparr>inc_pending := inc_pending s @ ResponseHeader_encode h @ p\<rparr>"
  shows "emitted shipped (if fl \<or> length (inc_pending t) > CHUNK_FLUSH_SIZE then inc_flush t else t) (log @ [(h, p)])"
proof -
  from e obtain ls cur where *: "shipped @ inc_output s = chunked (map wire ls)" "\<forall>l \<in> set ls. length (wire l) < 2 ^ 31"
    "length (inc_pending s) = 4 + length (wire cur)" "drop 4 (inc_pending s) = wire cur"
    "length (inc_pending s) \<le> CHUNK_FLUSH_SIZE" "log = concat ls @ cur" "list_all wf_block log"
    unfolding emitted_def by blast
  let ?cur = "cur @ [(h, p)]"
  have p: "length p \<le> 4096" using wf by (simp add: wf_block_def)
  have pend: "length (inc_pending t) = 4 + length (wire ?cur)" "drop 4 (inc_pending t) = wire ?cur"
    using *(3,4) by (simp_all add: t)
  have small: "length (wire ?cur) < 2 ^ 31" using *(3,5) p by (simp add: CHUNK_FLUSH_SIZE_def inc_sizes)
  have all: "list_all wf_block (concat ls @ ?cur)" using *(6,7) wf by simp
  have out: "shipped @ inc_output t = chunked (map wire ls)" using *(1) by (simp add: t)
  show ?thesis
  proof (cases "fl \<or> length (inc_pending t) > CHUNK_FLUSH_SIZE")
    case True
    then show ?thesis using flush_emitted [OF out *(2) pend small all] *(6) by simp
  next
    case False
    then have le: "length (inc_pending t) \<le> CHUNK_FLUSH_SIZE" by simp
    have "emitted shipped t (log @ [(h, p)])"
      unfolding emitted_def using out *(2,6) pend le all by (intro exI [of _ ls] exI [of _ ?cur]) simp
    then show ?thesis using False by simp
  qed
qed

lemma emitted_block:
  assumes "emitted shipped s log" and "wf_block (h, p)"
    and "h = \<lparr>rh_file_id = fid, rh_block_type = ty, rh_compression_type = c, rh_block_idx = b, rh_block_size = as_i16 (int (length p))\<rparr>"
  shows "emitted shipped (emit_block fid b ty c p fl s) (log @ [(h, p)])"
proof -
  have "emit_block fid b ty c p fl s = (if fl \<or> length (inc_pending t) > CHUNK_FLUSH_SIZE then inc_flush t else t)"
    if "t = s\<lparr>inc_pending := inc_pending s @ ResponseHeader_encode h @ p\<rparr>" for t
    by (simp add: emit_block_def Let_def assms(3) that)
  then show ?thesis using emitted_push [OF assms(1,2) refl, of fl] by simp
qed

lemma emitted_done: "emitted shipped s log \<Longrightarrow> emitted shipped (send_done s) (log @ [(done_marker, [])])"
  using emitted_push [of shipped s log done_marker "[]" _ True, OF _ _ refl]
  by (simp add: send_done_def inc_send_def Let_def wf_block_def done_marker_def is_i16_def is_i8_def is_i32_def)

lemma emitted_drain:
  assumes "emitted shipped s log" and "drain_output s = (bs, t)"
  shows "emitted (shipped @ bs) t log" and "receive (shipped @ bs) = Some log"
proof -
  have e: "emitted shipped (inc_flush s) log" by (rule emitted_flush [OF assms(1)])
  have bt: "bs = inc_output (inc_flush s)" "t = inc_flush s\<lparr>inc_output := []\<rparr>" using assms(2) by (auto simp: drain_output_def Let_def)
  show "emitted (shipped @ bs) t log" using e by (simp add: emitted_def bt)
  have np: "drop 4 (inc_pending (inc_flush s)) = []" using assms(1)
    by (auto simp: inc_flush_def Let_def emitted_def)
  from e np obtain ls where "shipped @ bs = chunked (map wire ls)" "\<forall>l \<in> set ls. length (wire l) < 2 ^ 31"
    "log = concat ls" "list_all wf_block log"
    unfolding emitted_def bt by (auto simp: wire_eq_Nil eq_commute [of "[]"])
  then show "receive (shipped @ bs) = Some log" using receive_chunked [of ls] by (auto simp: list_all_iff)
qed

section \<open>What the stream says about the files\<close>

definition end_block :: block where "end_block = (done_marker, [])"

text \<open>The data blocks and the tree blocks of a stream, as pairs of a file and a block number.\<close>

definition data_keys :: "block list \<Rightarrow> (int \<times> int) list" where
  "data_keys log = map (\<lambda>(h, p). (rh_file_id h, rh_block_idx h))
     (filter (\<lambda>(h, p). rh_block_type h = TYPE_DATA \<and> rh_file_id h \<noteq> -1) log)"

definition tree_keys :: "block list \<Rightarrow> (int \<times> int) list" where
  "tree_keys log = map (\<lambda>(h, p). (rh_file_id h, rh_block_idx h)) (filter (\<lambda>(h, p). rh_block_type h = TYPE_HASH) log)"

text \<open>A block of the stream carries the contents that the source has for it.\<close>

definition block_ok :: "(bytes \<Rightarrow> bytes option) \<Rightarrow> ServerFile list \<Rightarrow> block \<Rightarrow> bool" where
  "block_ok decompress files b =
     (case b of (h, p) \<Rightarrow>
        b = end_block \<or>
        (0 \<le> rh_file_id h \<and> rh_file_id h < int (length files) \<and> 0 \<le> rh_block_idx h \<and>
         (let f = files ! nat (rh_file_id h); n = nat (rh_block_idx h) in
            if rh_block_type h = TYPE_DATA then
              n < length (sent_blocks f) \<and>
              src_data (sf_source f) (rh_block_idx h) =
                (if rh_compression_type h = COMPRESSION_LZ4 then decompress p else Some p)
            else rh_block_type h = TYPE_HASH \<and> n < length (sent_tree_blocks f) \<and>
              src_tree (sf_source f) (rh_block_idx h) = Some p)))"

text \<open>The tree block with the hash of a data block, if the file has a tree.\<close>

definition leaf_offset :: "ServerFile \<Rightarrow> nat" where
  "leaf_offset f = length (sent_tree_blocks f) - (length (sent_blocks f) + 127) div 128"

definition leaf_of :: "ServerFile \<Rightarrow> int \<Rightarrow> int" where
  "leaf_of f b = int (leaf_offset f) + b div 128"

definition hashed :: "ServerFile list \<Rightarrow> block list \<Rightarrow> int \<times> int \<Rightarrow> bool" where
  "hashed files log k = (case k of (i, b) \<Rightarrow>
     sent_tree_blocks (files ! nat i) = [] \<or> (i, leaf_of (files ! nat i) b) \<in> set (tree_keys log))"

definition hash_first :: "ServerFile list \<Rightarrow> block list \<Rightarrow> bool" where
  "hash_first files log \<longleftrightarrow>
     (\<forall>n < length log. list_all (hashed files (take n log)) (data_keys [log ! n]))"

text \<open>The flags of a file agree with the stream.\<close>

definition file_inv :: "nat \<Rightarrow> ServerFile \<Rightarrow> ServerFile \<Rightarrow> block list \<Rightarrow> bool" where
  "file_inv i f0 f log \<longleftrightarrow> same_file f0 f \<and> sent_blocks_count f = int (length (filter id (sent_blocks f))) \<and>
     (\<forall>b < length (sent_blocks f). sent_blocks f ! b \<longleftrightarrow> (int i, int b) \<in> set (data_keys log)) \<and>
     (\<forall>k < length (sent_tree_blocks f). sent_tree_blocks f ! k \<longleftrightarrow> (int i, int k) \<in> set (tree_keys log)) \<and>
     (\<forall>k < leaf_offset f. sent_tree_blocks f ! k \<longrightarrow> sent_tree_blocks f ! 0)"

definition log_ok :: "(bytes \<Rightarrow> bytes option) \<Rightarrow> ServerFile list \<Rightarrow> block list \<Rightarrow> bool" where
  "log_ok decompress files log \<longleftrightarrow> distinct (data_keys log) \<and> distinct (tree_keys log) \<and>
     list_all (block_ok decompress files) log \<and> hash_first files log"

definition all_sent :: "IncrementalServer \<Rightarrow> bool" where
  "all_sent s = list_all (\<lambda>f. list_all id (sent_blocks f)) (inc_files s)"

definition end_ok :: "IncrementalServer \<Rightarrow> block list \<Rightarrow> bool" where
  "end_ok s log = (if done_sent s then log \<noteq> [] \<and> last log = end_block \<and> end_block \<notin> set (butlast log) \<and> all_sent s
                   else end_block \<notin> set log)"

definition stream_inv ::
  "(bytes \<Rightarrow> bytes option) \<Rightarrow> ServerFile list \<Rightarrow> bytes \<Rightarrow> IncrementalServer \<Rightarrow> block list \<Rightarrow> bool" where
  "stream_inv decompress files shipped s log \<longleftrightarrow>
     emitted shipped s log \<and> length (inc_files s) = length files \<and>
     (\<forall>i < length files. file_inv i (files ! i) (inc_files s ! i) log) \<and>
     log_ok decompress files log"

text \<open>
  The files that a session starts with: nothing sent yet, a size whose blocks an \<open>i32\<close> can count, and
  sources that keep to the size of a block.
\<close>

definition fresh_file :: "ServerFile \<Rightarrow> bool" where
  "fresh_file f \<longleftrightarrow> (\<exists>path sz pb src. f = (ServerFile_new path sz src)\<lparr>priority_blocks := pb\<rparr> \<and>
     0 \<le> sz \<and> sz \<le> (2 ^ 31 - 1) * 4096 \<and> list_all is_i32 pb \<and>
     (\<forall>b d. src_data src b = Some d \<longrightarrow> length d \<le> 4096) \<and> (\<forall>b d. src_tree src b = Some d \<longrightarrow> length d \<le> 4096))"

lemma keys_append [simp]:
  "data_keys (a @ b) = data_keys a @ data_keys b" "tree_keys (a @ b) = tree_keys a @ tree_keys b"
  "data_keys [] = []" "tree_keys [] = []"
  "data_keys [(h, p)] = (if rh_block_type h = TYPE_DATA \<and> rh_file_id h \<noteq> -1 then [(rh_file_id h, rh_block_idx h)] else [])"
  "tree_keys [(h, p)] = (if rh_block_type h = TYPE_HASH then [(rh_file_id h, rh_block_idx h)] else [])"
  by (simp_all add: data_keys_def tree_keys_def)

lemma hash_first_snoc [simp]:
  "hash_first files (log @ [b]) \<longleftrightarrow> hash_first files log \<and> list_all (hashed files log) (data_keys [b])"
  by (auto simp: hash_first_def nth_append less_Suc_eq)

text \<open>What every file satisfies at any time, since sending blocks keeps the sizes.\<close>

definition file_ok :: "ServerFile \<Rightarrow> bool" where
  "file_ok f \<longleftrightarrow> length (sent_blocks f) < 2 ^ 31 \<and> length (sent_tree_blocks f) < 2 ^ 31 \<and>
     num_bytes_to_num_blocks (sf_size f) = int (length (sent_blocks f)) \<and>
     list_all is_i32 (priority_blocks f) \<and> (src_has_tree (sf_source f) \<or> sent_tree_blocks f = []) \<and>
     (sent_tree_blocks f \<noteq> [] \<longrightarrow> (length (sent_blocks f) + 127) div 128 \<le> length (sent_tree_blocks f)) \<and>
     (\<forall>b d. src_data (sf_source f) b = Some d \<longrightarrow> length d \<le> 4096) \<and>
     (\<forall>b d. src_tree (sf_source f) b = Some d \<longrightarrow> length d \<le> 4096)"

lemma verity_levels_le: "1 \<le> n \<Longrightarrow> verity_levels n t \<le> t + n - 1"
proof (induction n t rule: verity_levels.induct)
  case (1 n t)
  let ?m = "(n + HASHES_PER_BLOCK - 1) div HASHES_PER_BLOCK"
  show ?case
  proof (cases "n > 1")
    case True
    have "verity_levels n t = verity_levels ?m (t + ?m)" using True by (simp add: verity_levels.simps [of n] Let_def)
    moreover have "1 \<le> ?m" "2 * ?m \<le> n" using True by (simp_all add: inc_sizes)
    ultimately show ?thesis using "1.IH" [OF True refl] by linarith
  qed (use 1 in \<open>simp add: verity_levels.simps\<close>)
qed

lemma fresh_file_ok:
  assumes "fresh_file f"
  shows "file_ok f"
proof -
  from assms obtain path sz pb src where f: "f = (ServerFile_new path sz src)\<lparr>priority_blocks := pb\<rparr>"
    and sz: "0 \<le> sz" "sz \<le> (2 ^ 31 - 1) * 4096" "list_all is_i32 pb"
    and src: "\<forall>b d. src_data src b = Some d \<longrightarrow> length d \<le> 4096" "\<forall>b d. src_tree src b = Some d \<longrightarrow> length d \<le> 4096"
    unfolding fresh_file_def by blast
  let ?n = "(sz + 4095) div 4096"
  have n: "0 \<le> ?n" "?n < 2 ^ 31" using sz by simp_all
  then have "is_i32 ?n" by (simp add: is_i32_def)
  then have nb: "num_bytes_to_num_blocks sz = ?n" using sz by (simp add: num_bytes_to_num_blocks_def inc_sizes add.commute [of 4095])
  have tn: "sz > 0 \<Longrightarrow> verity_tree_blocks_for_file sz = verity_levels ?n 0" "verity_tree_blocks_for_file 0 = 0"
  proof -
    show "verity_tree_blocks_for_file 0 = 0" by (simp add: verity_tree_blocks_for_file_def)
    assume "sz > 0"
    moreover from this have "1 + trunc_div (sz - 1) BLOCK_SIZE = ?n" by (simp add: trunc_div_def inc_sizes)
    ultimately show "verity_tree_blocks_for_file sz = verity_levels ?n 0" by (simp only: verity_tree_blocks_for_file_def) simp
  qed
  have t: "verity_tree_blocks_for_file sz < 2 ^ 31"
  proof (cases "sz > 0")
    case True
    then have "1 \<le> ?n" by simp
    from verity_levels_le [OF this, of 0] n(2) tn(1) [OF True] show ?thesis by linarith
  qed (use tn(2) sz(1) in simp)
  have leaf: "(?n + 127) div 128 \<le> verity_tree_blocks_for_file sz" if "verity_tree_blocks_for_file sz > 0"
  proof -
    from that have pos: "sz > 0" using tn(2) sz(1) by (cases "sz = 0") auto
    with that tn(1) have "verity_levels ?n 0 > 0" by simp
    then have "?n > 1" using verity_levels_one [of ?n] by (cases "?n \<le> 1") auto
    from verity_levels_leaves [OF this] tn(1) [OF pos] show ?thesis by (simp add: inc_sizes)
  qed
  have leaf': "(nat ?n + 127) div 128 \<le> nat (verity_tree_blocks_for_file sz)" if "verity_tree_blocks_for_file sz > 0"
  proof -
    have "int ((nat ?n + 127) div 128) = (?n + 127) div 128" using n(1) by (simp add: zdiv_int)
    with leaf [OF that] show ?thesis by linarith
  qed
  show ?thesis using n t leaf' src nb sz(3)
    by (auto simp: file_ok_def f ServerFile_new_def)
qed

lemma same_file_tree_Nil: "same_file f g \<Longrightarrow> sent_tree_blocks g = [] \<longleftrightarrow> sent_tree_blocks f = []"
  by (simp only: same_file_def flip: length_0_conv)

lemma same_file_ok:
  assumes "same_file f g" and "file_ok f"
  shows "file_ok g"
proof -
  from assms(1) have eq: "length (sent_blocks g) = length (sent_blocks f)" "sf_size g = sf_size f" "sf_source g = sf_source f" "priority_blocks g = priority_blocks f"
    "length (sent_tree_blocks g) = length (sent_tree_blocks f)" by (simp_all add: same_file_def)
  with same_file_tree_Nil [OF assms(1)] assms(2) show ?thesis by (simp only: file_ok_def) blast
qed

lemma same_file_leaf: "same_file f g \<Longrightarrow> leaf_offset g = leaf_offset f \<and> leaf_of g b = leaf_of f b"
  by (simp add: leaf_offset_def leaf_of_def same_file_def)

section \<open>Sending keeps the invariant\<close>

lemma file_invD:
  assumes "file_inv i f0 f log"
  shows "same_file f0 f" "sent_blocks_count f = int (length (filter id (sent_blocks f)))"
    "b < length (sent_blocks f) \<Longrightarrow> sent_blocks f ! b \<longleftrightarrow> (int i, int b) \<in> set (data_keys log)"
    "k < length (sent_tree_blocks f) \<Longrightarrow> sent_tree_blocks f ! k \<longleftrightarrow> (int i, int k) \<in> set (tree_keys log)"
    "k < leaf_offset f \<Longrightarrow> sent_tree_blocks f ! k \<Longrightarrow> sent_tree_blocks f ! 0"
  using assms by (auto simp: file_inv_def)

lemma stream_invD:
  assumes "stream_inv decompress files shipped s log"
  shows "emitted shipped s log" "length (inc_files s) = length files"
    "i < length files \<Longrightarrow> file_inv i (files ! i) (inc_files s ! i) log" "log_ok decompress files log"
    "i < length files \<Longrightarrow> same_file (files ! i) (inc_files s ! i)"
  using assms by (auto simp: stream_inv_def file_inv_def)

lemma stream_inv_frame:
  assumes "stream_inv decompress files shipped s log" "inc_files t = inc_files s" "inc_output t = inc_output s" "inc_pending t = inc_pending s"
  shows "stream_inv decompress files shipped t log"
  using assms by (simp add: stream_inv_def emitted_def)

lemma stream_inv_flush: "stream_inv decompress files shipped s log \<Longrightarrow> stream_inv decompress files shipped (inc_flush s) log"
  using emitted_flush by (auto simp: stream_inv_def inc_flush_def Let_def)

lemma flush_frame [simp]:
  "inc_files (inc_flush s) = inc_files s" "done_sent (inc_flush s) = done_sent s" "prefetches (inc_flush s) = prefetches s"
  "prefetched_files (inc_flush s) = prefetched_files s" "incoming (inc_flush s) = incoming s"
  by (simp_all add: inc_flush_def Let_def)

lemma emit_files [simp]: "inc_files (emit_block fid b ty c p fl s) = inc_files s"
  "done_sent (emit_block fid b ty c p fl s) = done_sent s"
  by (simp_all add: emit_block_def inc_flush_def Let_def)

text \<open>Files other than the one a block belongs to are not affected by it.\<close>

lemma file_inv_other:
  assumes "file_inv j f0 f log" and "rh_file_id h \<noteq> int j"
  shows "file_inv j f0 f (log @ [(h, p)])"
  using assms by (simp add: file_inv_def)

lemma push_tree:
  assumes inv: "stream_inv decompress files shipped s log" and i: "i < length files" "length files \<le> 2 ^ 15" "file_ok (files ! i)"
    and k: "k < length (sent_tree_blocks (inc_files s ! i))" "\<not> sent_tree_blocks (inc_files s ! i) ! k"
    and up: "k < leaf_offset (inc_files s ! i) \<Longrightarrow> k = 0 \<or> sent_tree_blocks (inc_files s ! i) ! 0"
    and src: "src_tree (sf_source (inc_files s ! i)) (int k) = Some p"
    and t: "t = upd_file i (\<lambda>f. f\<lparr>sent_tree_blocks := (sent_tree_blocks f)[k := True]\<rparr>)
      (emit_block (int i) (int k) TYPE_HASH COMPRESSION_NONE p fl s)"
  shows "\<exists>b. stream_inv decompress files shipped t (log @ [b]) \<and> b \<noteq> end_block \<and> data_keys [b] = []"
proof -
  let ?f = "inc_files s ! i" and ?g = "(inc_files s ! i)\<lparr>sent_tree_blocks := (sent_tree_blocks (inc_files s ! i))[k := True]\<rparr>"
  note fi = stream_invD(3) [OF inv i(1)] and same = stream_invD(5) [OF inv i(1)]
  have ok: "file_ok ?f" by (rule same_file_ok [OF same i(3)])
  define h where "h = \<lparr>rh_file_id = int i, rh_block_type = TYPE_HASH, rh_compression_type = COMPRESSION_NONE,
    rh_block_idx = int k, rh_block_size = as_i16 (int (length p))\<rparr>"
  have p: "length p \<le> 4096" using ok src by (simp add: file_ok_def)
  have k31: "k < 2 ^ 31" using ok k(1) by (simp add: file_ok_def)
  have "as_i16 (int (length p)) = int (length p)" using p by (intro as_i16_id) (simp add: is_i16_def)
  then have wf: "wf_block (h, p)" using p k31 i(1,2)
    by (simp add: wf_block_def h_def is_i16_def is_i32_def is_i8_def block_kinds)
  have files: "inc_files t = (inc_files s)[i := ?g]" by (simp add: t upd_file_def)
  have em: "emitted shipped t (log @ [(h, p)])"
    using emitted_block [OF stream_invD(1) [OF inv] wf h_def, of fl] by (simp add: t upd_file_def emitted_def)
  have keys: "data_keys [(h, p)] = []" "tree_keys [(h, p)] = [(int i, int k)]" by (simp_all add: h_def block_kinds)
  have g: "file_inv i (files ! i) ?g (log @ [(h, p)])"
    unfolding file_inv_def keys_append(1,2) keys
    using file_invD [OF fi] up k(1)
    by (auto simp: same_file_def nth_list_update leaf_offset_def)
  have fs: "file_inv j (files ! j) (inc_files t ! j) (log @ [(h, p)])" if "j < length files" for j
  proof (cases "j = i")
    case False
    then have "inc_files t ! j = inc_files s ! j" by (simp add: files)
    with file_inv_other [OF stream_invD(3) [OF inv that], of h] False show ?thesis by (simp add: h_def)
  qed (use g that stream_invD(2) [OF inv] in \<open>simp add: files\<close>)
  have new: "(int i, int k) \<notin> set (tree_keys log)" using file_invD(4) [OF fi k(1)] k(2) by simp
  have "length (sent_tree_blocks ?f) = length (sent_tree_blocks (files ! i))" "sf_source ?f = sf_source (files ! i)"
    using same by (simp_all add: same_file_def)
  then have "block_ok decompress files (h, p)" using k(1) i(1) src
    by (simp add: block_ok_def h_def block_kinds)
  then have "log_ok decompress files (log @ [(h, p)])"
    using stream_invD(4) [OF inv] new keys by (simp add: log_ok_def)
  then have "stream_inv decompress files shipped t (log @ [(h, p)])"
    using em fs stream_invD(2) [OF inv] by (simp add: stream_inv_def files)
  moreover have "(h, p) \<noteq> end_block" by (simp add: end_block_def done_marker_def h_def)
  ultimately show ?thesis using keys(1) by blast
qed

lemma count_set_flag:
  "k < length xs \<Longrightarrow> \<not> xs ! k \<Longrightarrow> length (filter id (xs[k := True])) = Suc (length (filter id xs))"
  by (induction xs arbitrary: k) (auto simp: nth_Cons split: nat.splits)

lemma push_data:
  assumes inv: "stream_inv decompress files shipped s log" and i: "i < length files" "length files \<le> 2 ^ 15" "file_ok (files ! i)"
    and k: "k < length (sent_blocks (inc_files s ! i))" "\<not> sent_blocks (inc_files s ! i) ! k"
    and leaf: "hashed files log (int i, int k)"
    and src: "src_data (sf_source (inc_files s ! i)) (int k) = (if c = COMPRESSION_LZ4 then decompress p else Some p)"
    and p: "length p \<le> 4096" and c: "c = COMPRESSION_LZ4 \<or> c = COMPRESSION_NONE"
    and t: "t = emit_block (int i) (int k) TYPE_DATA c p fl (upd_file i (\<lambda>f. f\<lparr>sent_blocks := (sent_blocks f)[k := True],
      sent_blocks_count := sent_blocks_count f + 1\<rparr>) s)"
  shows "\<exists>b. stream_inv decompress files shipped t (log @ [b]) \<and> b \<noteq> end_block"
proof -
  let ?f = "inc_files s ! i" and ?g = "(inc_files s ! i)\<lparr>sent_blocks := (sent_blocks (inc_files s ! i))[k := True],
      sent_blocks_count := sent_blocks_count (inc_files s ! i) + 1\<rparr>"
  note fi = stream_invD(3) [OF inv i(1)] and same = stream_invD(5) [OF inv i(1)]
  have ok: "file_ok ?f" by (rule same_file_ok [OF same i(3)])
  define h where "h = \<lparr>rh_file_id = int i, rh_block_type = TYPE_DATA, rh_compression_type = c,
    rh_block_idx = int k, rh_block_size = as_i16 (int (length p))\<rparr>"
  have k31: "k < 2 ^ 31" using ok k(1) by (simp add: file_ok_def)
  have "as_i16 (int (length p)) = int (length p)" using p by (intro as_i16_id) (simp add: is_i16_def)
  then have wf: "wf_block (h, p)" using p k31 i(1,2) c
    by (auto simp: wf_block_def h_def is_i16_def is_i32_def is_i8_def block_kinds)
  have files: "inc_files t = (inc_files s)[i := ?g]" by (simp add: t upd_file_def)
  have "emitted shipped (upd_file i g s) log" for g using stream_invD(1) [OF inv] by (simp add: emitted_def upd_file_def)
  then have em: "emitted shipped t (log @ [(h, p)])"
    using emitted_block [OF _ wf h_def, of shipped _ log fl] by (simp add: t)
  have keys: "tree_keys [(h, p)] = []" "data_keys [(h, p)] = [(int i, int k)]" by (simp_all add: h_def block_kinds)
  have cnt: "length (filter id ((sent_blocks ?f)[k := True])) = Suc (length (filter id (sent_blocks ?f)))"
    by (rule count_set_flag [OF k])
  have g: "file_inv i (files ! i) ?g (log @ [(h, p)])"
    unfolding file_inv_def keys_append(1,2) keys
    using file_invD [OF fi] k(1) cnt
    by (auto simp: same_file_def nth_list_update leaf_offset_def)
  have fs: "file_inv j (files ! j) (inc_files t ! j) (log @ [(h, p)])" if "j < length files" for j
  proof (cases "j = i")
    case False
    then have "inc_files t ! j = inc_files s ! j" by (simp add: files)
    with file_inv_other [OF stream_invD(3) [OF inv that], of h] False show ?thesis by (simp add: h_def)
  qed (use g that stream_invD(2) [OF inv] in \<open>simp add: files\<close>)
  have new: "(int i, int k) \<notin> set (data_keys log)" using file_invD(3) [OF fi k(1)] k(2) by simp
  have "length (sent_blocks ?f) = length (sent_blocks (files ! i))" "sf_source ?f = sf_source (files ! i)"
    using same by (simp_all add: same_file_def)
  then have "block_ok decompress files (h, p)" using k(1) i(1) src
    by (simp add: block_ok_def h_def block_kinds)
  then have "log_ok decompress files (log @ [(h, p)])"
    using stream_invD(4) [OF inv] new keys leaf by (simp add: log_ok_def)
  then have "stream_inv decompress files shipped t (log @ [(h, p)])"
    using em fs stream_invD(2) [OF inv] by (simp add: stream_inv_def files)
  moreover have "(h, p) \<noteq> end_block" by (simp add: end_block_def done_marker_def h_def)
  ultimately show ?thesis by blast
qed

lemma as_usize_nat [simp]: "k < 2 ^ 63 \<Longrightarrow> as_usize (int k) = k"
  by (simp add: as_usize_def)

lemma as_i32_nat: "k < 2 ^ 31 \<Longrightarrow> as_i32 (int k) = int k"
  by (simp add: is_i32_def)

text \<open>A tree block sent and marked.\<close>

lemma tree_step:
  assumes inv: "stream_inv decompress files shipped s log" and i: "i < length files" "length files \<le> 2 ^ 15" "file_ok (files ! i)"
    and k: "k < length (sent_tree_blocks (inc_files s ! i))" "\<not> sent_tree_blocks (inc_files s ! i) ! k"
    and up: "k < leaf_offset (inc_files s ! i) \<Longrightarrow> k = 0 \<or> sent_tree_blocks (inc_files s ! i) ! 0"
    and send: "send_tree_block (int i) (as_i32 (int k)) s = Ok (True, s1)" and mark: "mark_tree_block i k s1 = Ok t"
  shows "(\<exists>b. stream_inv decompress files shipped t (log @ [b]) \<and> b \<noteq> end_block \<and> data_keys [b] = []) \<and>
    inc_files t ! i = (inc_files s ! i)\<lparr>sent_tree_blocks := (sent_tree_blocks (inc_files s ! i))[k := True]\<rparr>"
proof -
  have len: "i < length (inc_files s)" using stream_invD(2) [OF inv] i(1) by simp
  have "file_ok (inc_files s ! i)" by (rule same_file_ok [OF stream_invD(5) [OF inv i(1)] i(3)])
  then have "as_i32 (int k) = int k" using k(1) by (intro as_i32_nat) (simp add: file_ok_def)
  moreover have "as_usize (int i) = i" using i(1,2) by simp
  ultimately obtain p where p: "src_tree (sf_source (inc_files s ! i)) (int k) = Some p"
    "s1 = emit_block (int i) (int k) TYPE_HASH COMPRESSION_NONE p False s"
    using send len by (auto simp: send_tree_block_def index_Ok split: option.splits)
  then have t: "t = upd_file i (\<lambda>f. f\<lparr>sent_tree_blocks := (sent_tree_blocks f)[k := True]\<rparr>)
      (emit_block (int i) (int k) TYPE_HASH COMPRESSION_NONE p False s)"
    using mark by (simp add: mark_tree_block_def split: if_splits)
  from push_tree [OF inv i k up p(1) t] show ?thesis using len by (simp add: t upd_file_def)
qed

lemma send_tree_block_failed: "send_tree_block fid b s = Ok (False, t) \<Longrightarrow> t = s"
  by (auto simp: send_tree_block_def split: option.splits)

lemma send_upper_tree_inv:
  assumes "stream_inv decompress files shipped s log" "i < length files" "length files \<le> 2 ^ 15" "file_ok (files ! i)"
    and "send_upper_tree (int i) ks s = Ok (ok, t)" "distinct ks"
    "\<forall>k \<in> set ks. k < leaf_offset (inc_files s ! i) \<and> \<not> sent_tree_blocks (inc_files s ! i) ! k"
    "ks \<noteq> [] \<Longrightarrow> hd ks = 0 \<or> sent_tree_blocks (inc_files s ! i) ! 0"
  shows "\<exists>ext. stream_inv decompress files shipped t (log @ ext) \<and> end_block \<notin> set ext \<and> data_keys ext = []"
  using assms
proof (induction ks arbitrary: s log)
  case Nil
  then show ?case by (intro exI [of _ "[]"]) simp
next
  case (Cons k ks)
  have us: "as_usize (int i) = i" using Cons.prems(2,3) by simp
  from Cons.prems(5) obtain ok1 s1 where s1: "send_tree_block (int i) (as_i32 (int k)) s = Ok (ok1, s1)"
    "\<not> ok1 \<and> t = s1 \<or> ok1 \<and> (\<exists>s2. mark_tree_block i k s1 = Ok s2 \<and> send_upper_tree (int i) ks s2 = Ok (ok, t))"
    by (auto simp: us split: if_splits)
  show ?case
  proof (cases ok1)
    case False
    then show ?thesis using s1 send_tree_block_failed Cons.prems(1) by (intro exI [of _ "[]"]) auto
  next
    case True
    with s1 obtain s2 where s2: "mark_tree_block i k s1 = Ok s2" "send_upper_tree (int i) ks s2 = Ok (ok, t)" by blast
    let ?f = "inc_files s ! i"
    have k: "k < leaf_offset ?f" "\<not> sent_tree_blocks ?f ! k" using Cons.prems(7) by simp_all
    have kl: "k < length (sent_tree_blocks ?f)" using k(1) by (simp add: leaf_offset_def)
    have up: "k = 0 \<or> sent_tree_blocks ?f ! 0" using Cons.prems(8) by simp
    from tree_step [OF Cons.prems(1-4) kl k(2) up s1(1) [unfolded True [THEN eqTrueI]] s2(1)] obtain b where
      b: "stream_inv decompress files shipped s2 (log @ [b])" "b \<noteq> end_block" "data_keys [b] = []"
      and f2: "inc_files s2 ! i = ?f\<lparr>sent_tree_blocks := (sent_tree_blocks ?f)[k := True]\<rparr>" by blast
    have lo: "leaf_offset (inc_files s2 ! i) = leaf_offset ?f" by (simp add: f2 leaf_offset_def)
    have "\<forall>k' \<in> set ks. k' < leaf_offset (inc_files s2 ! i) \<and> \<not> sent_tree_blocks (inc_files s2 ! i) ! k'"
      using Cons.prems(6,7) lo by (auto simp: f2) (metis nth_list_update_neq)
    moreover have "sent_tree_blocks (inc_files s2 ! i) ! 0" using up kl by (auto simp: f2 nth_list_update)
    ultimately obtain ext where "stream_inv decompress files shipped t ((log @ [b]) @ ext)" "end_block \<notin> set ext" "data_keys ext = []"
      using Cons.IH [OF b(1) Cons.prems(2-4) s2(2)] Cons.prems(6) by auto
    then show ?thesis using b(2,3) keys_append(1) [of "[b]" ext] by (intro exI [of _ "[b] @ ext"]) simp
  qed
qed

lemma leaf_bound:
  assumes "file_ok f" "sent_tree_blocks f \<noteq> []" "b < length (sent_blocks f)"
  shows "leaf_offset f + b div 128 < length (sent_tree_blocks f)"
    "int (length (sent_tree_blocks f)) - (int (length (sent_blocks f)) + HASHES_PER_BLOCK - 1) div HASHES_PER_BLOCK = int (leaf_offset f)"
proof -
  have le: "(length (sent_blocks f) + 127) div 128 \<le> length (sent_tree_blocks f)" using assms by (simp add: file_ok_def)
  have "b div 128 < (length (sent_blocks f) + 127) div 128" using assms(3) by linarith
  then show "leaf_offset f + b div 128 < length (sent_tree_blocks f)" using le by (simp add: leaf_offset_def)
  have "(int (length (sent_blocks f)) + HASHES_PER_BLOCK - 1) div HASHES_PER_BLOCK = int ((length (sent_blocks f) + 127) div 128)"
    by (simp add: inc_sizes zdiv_int)
  then show "int (length (sent_tree_blocks f)) - (int (length (sent_blocks f)) + HASHES_PER_BLOCK - 1) div HASHES_PER_BLOCK = int (leaf_offset f)"
    using le by (simp add: leaf_offset_def of_nat_diff)
qed

lemma send_tree_blocks_eq:
  assumes ok: "file_ok (inc_files s ! i)" and i: "i < length (inc_files s)" "i < 2 ^ 15"
    and ne: "sent_tree_blocks (inc_files s ! i) \<noteq> []" and b: "b < length (sent_blocks (inc_files s ! i))"
    and leaf: "leaf = leaf_offset (inc_files s ! i) + b div 128"
  shows "send_tree_blocks_for_data_block (int i) (int b) s =
     (if sent_tree_blocks (inc_files s ! i) ! leaf then Ok (True, s)
      else and_then (send_tree_block (int i) (as_i32 (int leaf)) s) (\<lambda>(ok, s1).
        if \<not> ok then Ok (False, s1)
        else and_then (mark_tree_block i leaf s1) (\<lambda>s2.
          if leaf_offset (inc_files s ! i) = 0 \<or> sent_tree_blocks (inc_files s2 ! i) ! 0 then Ok (True, s2)
          else send_upper_tree (int i) [0..<leaf_offset (inc_files s ! i)] s2)))"
proof -
  let ?f = "inc_files s ! i"
  have us: "as_usize (int i) = i" using i(2) by simp
  have tree: "src_has_tree (sf_source ?f)" "num_bytes_to_num_blocks (sf_size ?f) = int (length (sent_blocks ?f))"
    "length (sent_tree_blocks ?f) < 2 ^ 31" using ok ne by (auto simp: file_ok_def)
  note ll = leaf_bound [OF ok ne b]
  have "int (leaf_offset ?f) + int b div HASHES_PER_BLOCK = int leaf" by (simp add: leaf inc_sizes zdiv_int)
  moreover have "as_usize (int leaf) = leaf" "as_usize (int (leaf_offset ?f)) = leaf_offset ?f"
    using ll(1) tree(3) leaf by simp_all
  ultimately have li: "as_usize (int (leaf_offset ?f) + int b div HASHES_PER_BLOCK) = leaf" "as_usize (int (leaf_offset ?f)) = leaf_offset ?f"
    by simp_all
  have "\<not> length (sent_tree_blocks ?f) \<le> leaf" "\<not> int (length (sent_tree_blocks ?f)) \<le> 0" using ll(1) leaf ne by simp_all
  then show ?thesis
    unfolding send_tree_blocks_for_data_block_def us Let_def tree(2) ll(2) li
    using i(1) tree(1) by (simp only: simp_thms if_True if_False of_nat_eq_0_iff)
qed

lemma send_new_leaf_inv:
  assumes inv: "stream_inv decompress files shipped s log" and i: "i < length files" "length files \<le> 2 ^ 15" "file_ok (files ! i)"
    and ll: "leaf < length (sent_tree_blocks (inc_files s ! i))" "leaf_offset (inc_files s ! i) \<le> leaf"
    and new: "\<not> sent_tree_blocks (inc_files s ! i) ! leaf"
    and s1: "send_tree_block (int i) (as_i32 (int leaf)) s = Ok (True, s1)" "mark_tree_block i leaf s1 = Ok s2"
      "(if leaf_offset (inc_files s ! i) = 0 \<or> sent_tree_blocks (inc_files s2 ! i) ! 0 then Ok (True, s2)
        else send_upper_tree (int i) [0..<leaf_offset (inc_files s ! i)] s2) = Ok (ok, t)"
  shows "\<exists>ext. stream_inv decompress files shipped t (log @ ext) \<and> end_block \<notin> set ext \<and> data_keys ext = [] \<and>
    (int i, int leaf) \<in> set (tree_keys (log @ ext))"
proof -
  let ?f = "inc_files s ! i"
  have "leaf < leaf_offset ?f \<Longrightarrow> leaf = 0 \<or> sent_tree_blocks ?f ! 0" using ll(2) by simp
  from tree_step [OF inv i ll(1) new this s1(1,2)] obtain k where
    k: "stream_inv decompress files shipped s2 (log @ [k])" "k \<noteq> end_block" "data_keys [k] = []"
    and f2: "inc_files s2 ! i = ?f\<lparr>sent_tree_blocks := (sent_tree_blocks ?f)[leaf := True]\<rparr>" by blast
  have "sent_tree_blocks (inc_files s2 ! i) ! leaf" using ll(1) by (simp add: f2)
  then have key: "(int i, int leaf) \<in> set (tree_keys (log @ [k]))"
    using file_invD(4) [OF stream_invD(3) [OF k(1) i(1)], of leaf] ll(1) by (simp add: f2)
  show ?thesis
  proof (cases "leaf_offset ?f = 0 \<or> sent_tree_blocks (inc_files s2 ! i) ! 0")
    case True
    then have "t = s2" using s1(3) by simp
    then show ?thesis using k key by (intro exI [of _ "[k]"]) simp
  next
    case False
    have lo: "leaf_offset (inc_files s2 ! i) = leaf_offset ?f" by (simp add: f2 leaf_offset_def)
    have un: "\<not> sent_tree_blocks (inc_files s2 ! i) ! k'" if "k' < leaf_offset ?f" for k'
      using file_invD(5) [OF stream_invD(3) [OF k(1) i(1)], of k'] False that lo by auto
    have up: "send_upper_tree (int i) [0..<leaf_offset ?f] s2 = Ok (ok, t)" using s1(3) False by simp
    obtain ext where ext: "stream_inv decompress files shipped t ((log @ [k]) @ ext)" "end_block \<notin> set ext" "data_keys ext = []"
      using send_upper_tree_inv [OF k(1) i up] un lo by (auto simp: hd_upt)
    have "(int i, int leaf) \<in> set (tree_keys ((log @ [k]) @ ext))" using key by (simp only: keys_append(2) set_append Un_iff) blast
    then show ?thesis using ext k(2,3) keys_append(1) [of "[k]" ext] by (intro exI [of _ "k # ext"]) simp
  qed
qed

lemma send_tree_blocks_inv:
  assumes inv: "stream_inv decompress files shipped s log" and i: "i < length files" "length files \<le> 2 ^ 15" "file_ok (files ! i)"
    and b: "b < length (sent_blocks (inc_files s ! i))"
    and run: "send_tree_blocks_for_data_block (int i) (int b) s = Ok (ok, t)"
  shows "\<exists>ext. stream_inv decompress files shipped t (log @ ext) \<and> end_block \<notin> set ext \<and> data_keys ext = [] \<and>
    (ok \<longrightarrow> hashed files (log @ ext) (int i, int b))"
proof -
  let ?f = "inc_files s ! i"
  define leaf where "leaf = leaf_offset ?f + b div 128"
  have us: "as_usize (int i) = i" and il: "i < length (inc_files s)" "i < 2 ^ 15" using i stream_invD(2) [OF inv] by simp_all
  note same = stream_invD(5) [OF inv i(1)]
  have ok: "file_ok ?f" by (rule same_file_ok [OF same i(3)])
  have lf: "leaf_of (files ! i) (int b) = int leaf"
    using same_file_leaf [OF same, of "int b"] by (simp add: leaf_of_def leaf_def zdiv_int)
  have tl: "sent_tree_blocks (files ! i) = [] \<longleftrightarrow> sent_tree_blocks ?f = []"
    using same_file_tree_Nil [OF same] by simp
  show ?thesis
  proof (cases "sent_tree_blocks ?f = []")
    case True
    then have "t = s" using run il by (simp add: send_tree_blocks_for_data_block_def us Let_def split: if_splits)
    then show ?thesis using inv True tl by (intro exI [of _ "[]"]) (simp add: hashed_def)
  next
    case ne: False
    have ll: "leaf < length (sent_tree_blocks ?f)" "leaf_offset ?f \<le> leaf"
      using leaf_bound(1) [OF ok ne b] by (simp_all add: leaf_def)
    note run' = run [unfolded send_tree_blocks_eq [OF ok il ne b leaf_def]]
    show ?thesis
    proof (cases "sent_tree_blocks ?f ! leaf")
      case True
      then have "t = s" using run' by simp
      moreover have "hashed files log (int i, int b)"
        using file_invD(4) [OF stream_invD(3) [OF inv i(1)] ll(1)] True lf by (simp add: hashed_def)
      ultimately show ?thesis using inv by (intro exI [of _ "[]"]) simp
    next
      case new: False
      with run' obtain ok1 s1 where s1: "send_tree_block (int i) (as_i32 (int leaf)) s = Ok (ok1, s1)"
        and rest: "(if \<not> ok1 then Ok (False, s1) else and_then (mark_tree_block i leaf s1) (\<lambda>s2.
          if leaf_offset ?f = 0 \<or> sent_tree_blocks (inc_files s2 ! i) ! 0 then Ok (True, s2)
          else send_upper_tree (int i) [0..<leaf_offset ?f] s2)) = Ok (ok, t)"
        by (simp only: if_False and_then_eq_Ok split_paired_Ex prod.case) blast
      show ?thesis
      proof (cases ok1)
        case False
        then have "t = s" "\<not> ok" using rest s1 send_tree_block_failed by auto
        then show ?thesis using inv by (intro exI [of _ "[]"]) simp
      next
        case True
        with rest obtain s2 where s2: "mark_tree_block i leaf s1 = Ok s2"
          "(if leaf_offset ?f = 0 \<or> sent_tree_blocks (inc_files s2 ! i) ! 0 then Ok (True, s2)
          else send_upper_tree (int i) [0..<leaf_offset ?f] s2) = Ok (ok, t)"
          by (simp only: simp_thms if_False and_then_eq_Ok) blast
        from send_new_leaf_inv [OF inv i ll new s1 [unfolded True [THEN eqTrueI]] s2]
        show ?thesis unfolding hashed_def using lf by auto
      qed
    qed
  qed
qed

lemma is_i16_in_range:
  assumes "is_i16 fid" "as_usize fid < n" "n \<le> 2 ^ 15"
  shows "0 \<le> fid" "fid = int (as_usize fid)"
proof -
  show "0 \<le> fid"
  proof (rule ccontr)
    assume neg: "\<not> 0 \<le> fid"
    have "(fid + 2 ^ 64) mod 2 ^ 64 = fid + 2 ^ 64" using assms(1) neg by (intro mod_pos_pos_trivial) (simp_all add: is_i16_def)
    then have "fid mod 2 ^ 64 = fid + 2 ^ 64" by simp
    then have "int (as_usize fid) = fid + 2 ^ 64" using assms(1) by (simp add: as_usize_def is_i16_def)
    then have "int n > fid + 2 ^ 64" using assms(2) by linarith
    then show False using assms(1,3) by (simp add: is_i16_def)
  qed
  then show "fid = int (as_usize fid)" using assms(1) by (simp add: is_i16_def)
qed

text \<open>The decompressor undoes what \<open>compress\<close> did.\<close>

definition inverts :: "(bytes \<Rightarrow> bytes) \<Rightarrow> (bytes \<Rightarrow> bytes option) \<Rightarrow> bool" where
  "inverts compress decompress \<longleftrightarrow> (\<forall>d. decompress (compress d) = Some d)"

lemma send_data_block_inv:
  assumes inv: "stream_inv decompress files shipped s log" and files: "length files \<le> 2 ^ 15" "list_all file_ok files"
    and fid: "is_i16 fid" and b32: "is_i32 b" and lz4: "inverts compress decompress"
    and run: "send_data_block compress fid b fl s = Ok (res, t)"
  shows "\<exists>ext. stream_inv decompress files shipped t (log @ ext) \<and> end_block \<notin> set ext"
proof -
  let ?i = "as_usize fid"
  let ?f = "inc_files s ! ?i"
  have tree: "\<exists>ext. stream_inv decompress files shipped s1 (log @ ext) \<and> end_block \<notin> set ext \<and> data_keys ext = [] \<and>
      (ok \<longrightarrow> hashed files (log @ ext) (int ?i, int (as_usize b)))"
    if "?i < length (inc_files s)" "0 \<le> b" "as_usize b < length (sent_blocks ?f)"
      "send_tree_blocks_for_data_block fid b s = Ok (ok, s1)" for ok s1
  proof -
    have il: "?i < length files" using that(1) stream_invD(2) [OF inv] by simp
    have okf: "file_ok (files ! ?i)" using files(2) il by (simp add: list_all_length)
    have "b = int (as_usize b)" using that(2) b32 by (simp add: is_i32_def)
    with that(4) is_i16_in_range(2) [OF fid il files(1)]
    have "send_tree_blocks_for_data_block (int ?i) (int (as_usize b)) s = Ok (ok, s1)" by simp
    from send_tree_blocks_inv [OF inv il files(1) okf that(3) this] show ?thesis .
  qed
  from run show ?thesis
  proof (cases rule: send_data_block_cases)
    case skip
    then show ?thesis using inv by (intro exI [of _ "[]"]) simp
  next
    case fail
    then show ?thesis using tree by blast
  next
    case (sent s1 data c p x u)
    from tree [OF sent(2-4,6)] obtain ext where ext: "stream_inv decompress files shipped s1 (log @ ext)" "end_block \<notin> set ext"
      "data_keys ext = []" "hashed files (log @ ext) (int ?i, int (as_usize b))" by blast
    have il: "?i < length files" using sent(2) stream_invD(2) [OF inv] by simp
    have okf: "file_ok (files ! ?i)" using files(2) il by (simp add: list_all_length)
    have bk: "b = int (as_usize b)" using sent(3) b32 by (simp add: is_i32_def)
    note fi = is_i16_in_range(2) [OF fid il files(1)]
    have u: "stream_inv decompress files shipped u (log @ ext)" "inc_files u = inc_files s1"
      using sent(10) stream_inv_frame [OF ext(1)] by auto
    note same = same_state_files(2) [OF send_tree_blocks_same [OF sent(6)] sent(2)]
    have k: "as_usize b < length (sent_blocks (inc_files u ! ?i))"
      using sent(4) same by (simp add: u(2) same_file_def)
    then have nk: "\<not> sent_blocks (inc_files u ! ?i) ! as_usize b"
      using file_invD(3) [OF stream_invD(3) [OF u(1) il] k] file_invD(3) [OF stream_invD(3) [OF inv il] sent(4)] sent(5) ext(3) by simp
    have c: "src_data (sf_source (inc_files u ! ?i)) (int (as_usize b)) = (if c = COMPRESSION_LZ4 then decompress p else Some p)"
      using sent(7,8) lz4 bk by (auto simp: u(2) inverts_def block_kinds)
    have "file_ok (inc_files u ! ?i)" by (rule same_file_ok [OF stream_invD(5) [OF u(1) il] okf])
    then have p: "length p \<le> 4096" using sent(7,8) by (auto simp: file_ok_def u(2))
    have "t = emit_block (int ?i) (int (as_usize b)) TYPE_DATA c p fl (upd_file ?i (\<lambda>f. f\<lparr>sent_blocks := (sent_blocks f)[as_usize b := True],
         sent_blocks_count := sent_blocks_count f + 1\<rparr>) u)"
      using sent(9) bk fi by simp
    from push_data [OF u(1) il files(1) okf k nk ext(4) c p _ this] sent(8) obtain blk where
      "stream_inv decompress files shipped t ((log @ ext) @ [blk])" "blk \<noteq> end_block" by auto
    then show ?thesis using ext(2) by (intro exI [of _ "ext @ [blk]"]) auto
  qed
qed

section \<open>Invariants of serving\<close>

text \<open>
  A property of the server that sending a block keeps, and that depends on the files and the output
  only, is kept by prefetching, by every request and by every step.
\<close>

definition pf_i32 :: "PrefetchState \<Rightarrow> bool" where
  "pf_i32 p \<longleftrightarrow> - (2 ^ 31) \<le> pf_overall_index p \<and> pf_overall_end p \<le> 2 ^ 31"

lemma is_i16_as_i16 [simp]: "is_i16 (as_i16 x)"
  using sint_greater_eq [of "word_of_int x :: 16 word"] sint_less [of "word_of_int x :: 16 word"] by (simp add: is_i16_def as_i16_def)

lemma is_i32_as_i32 [simp]: "is_i32 (as_i32 x)"
  using sint_greater_eq [of "word_of_int x :: 32 word"] sint_less [of "word_of_int x :: 32 word"] by (simp add: is_i32_def as_i32_def)

lemma from_be_range [simp]: "is_i16 (i16_from_be bs)" "is_i32 (i32_from_be bs)"
  using sint_greater_eq [of "u16_from_be bs"] sint_less [of "u16_from_be bs"]
    sint_greater_eq [of "u32_from_le (rev bs)"] sint_less [of "u32_from_le (rev bs)"]
  by (simp_all add: is_i16_def i16_from_be_def is_i32_def i32_from_be_def i32_from_le_def)

lemma pf_i32_new: "0 \<le> start \<Longrightarrow> pf_i32 (PrefetchState_new i f start n)"
  using is_i32_as_i32 [of "int (length (sent_blocks f))"] by (simp add: pf_i32_def PrefetchState_new_def is_i32_def min_le_iff_disj)

lemma take_request_frame:
  assumes "take_request s = (req, fw, t)"
  shows "inc_files t = inc_files s" "inc_output t = inc_output s" "inc_pending t = inc_pending s" "done_sent t = done_sent s"
    "prefetches t = prefetches s" "prefetched_files t = prefetched_files s"
proof -
  have "t = s \<or> (\<exists>x. t = s\<lparr>incoming := x\<rparr>)" using assms
    by (auto simp: take_request_def Let_def split_def split: if_split_asm)
  then show "inc_files t = inc_files s" "inc_output t = inc_output s" "inc_pending t = inc_pending s" "done_sent t = done_sent s"
    "prefetches t = prefetches s" "prefetched_files t = prefetched_files s"
    by auto
qed

lemma take_request_range:
  assumes "take_request s = (Some r, fw, t)"
  shows "is_i16 (rq_file_id r)" "is_i32 (rq_block_idx r)"
proof -
  have "\<exists>bs. RequestCommand_decode bs = Some r"
    using assms by (auto simp: take_request_def Let_def split_def simp del: take_drop drop_drop split: if_split_asm)
  then show "is_i16 (rq_file_id r)" "is_i32 (rq_block_idx r)" by (auto simp: RequestCommand_decode_def split: if_split_asm)
qed

locale serve_invariant =
  fixes compress :: "bytes \<Rightarrow> bytes" and P :: "IncrementalServer \<Rightarrow> bool"
  assumes send: "P s \<Longrightarrow> is_i16 fid \<Longrightarrow> is_i32 b \<Longrightarrow> send_data_block compress fid b fl s = Ok (res, t) \<Longrightarrow> P t"
    and frame: "P s \<Longrightarrow> inc_files t = inc_files s \<Longrightarrow> inc_output t = inc_output s \<Longrightarrow> inc_pending t = inc_pending s \<Longrightarrow>
      done_sent t = done_sent s \<Longrightarrow> P t"
    and prio: "P s \<Longrightarrow> f \<in> set (inc_files s) \<Longrightarrow> list_all is_i32 (priority_blocks f)"
    and flush: "P s \<Longrightarrow> P (inc_flush s)"
    and finish: "P s \<Longrightarrow> \<not> done_sent s \<Longrightarrow> all_files_sent s \<Longrightarrow> P ((send_done s)\<lparr>done_sent := True\<rparr>)"
begin

lemma priority_loop_P: "P s \<Longrightarrow> priority_loop compress fi n k bud s = Ok (k', bud', t) \<Longrightarrow> P t"
proof (induction "n - k" arbitrary: k bud s rule: less_induct)
  case less
  show ?case
  proof (cases "bud > 0 \<and> k < n")
    case True
    with less.prems(2) obtain f b res s1 where st: "index (inc_files s) fi = (Ok f :: (_, unit) outcome)"
      "index (priority_blocks f) k = (Ok b :: (_, unit) outcome)"
      "send_data_block compress (as_i16 (int fi)) b False s = Ok (res, s1)"
      "priority_loop compress fi n (k + 1) (if res = Sent then bud - 1 else bud) s1 = Ok (k', bud', t)"
      by (subst (asm) priority_loop.simps) auto
    have "f \<in> set (inc_files s)" "b \<in> set (priority_blocks f)" using st(1,2) by (auto simp: index_def split: if_splits)
    then have "is_i32 b" using prio [OF less.prems(1)] by (simp add: list_all_iff)
    from less.hyps [OF _ send [OF less.prems(1) is_i16_as_i16 this st(3)] st(4)] True show ?thesis by auto
  next
    case False
    then have "priority_loop compress fi n k bud s = Ok (k, bud, s)" by (subst priority_loop.simps) (simp only: if_False)
    with less.prems show ?thesis by simp
  qed
qed

lemma overall_loop_P:
  "P s \<Longrightarrow> - (2 ^ 31) \<le> k \<Longrightarrow> n \<le> 2 ^ 31 \<Longrightarrow> overall_loop compress fi n k bud s = Ok (k', bud', t) \<Longrightarrow> P t"
proof (induction "nat (n - k)" arbitrary: k bud s rule: less_induct)
  case less
  show ?case
  proof (cases "bud > 0 \<and> k < n")
    case True
    with less.prems(4) obtain res s1 where
      st: "send_data_block compress (as_i16 (int fi)) k False s = Ok (res, s1)"
      "overall_loop compress fi n (k + 1) (if res = Sent then bud - 1 else bud) s1 = Ok (k', bud', t)"
      by (subst (asm) overall_loop.simps) auto
    have "is_i32 k" using True less.prems(2,3) by (simp add: is_i32_def)
    from less.hyps [OF _ send [OF less.prems(1) is_i16_as_i16 this st(1)] _ less.prems(3) st(2)] True less.prems(2)
    show ?thesis by auto
  next
    case False
    then have "overall_loop compress fi n k bud s = Ok (k, bud, s)" by (subst overall_loop.simps) (simp only: if_False)
    with less.prems show ?thesis by simp
  qed
qed

lemma prefetch_turn_P:
  assumes "P s" and "prefetch_turn compress p bud s = Ok (bud', t)" and ps: "prefetches s = p # ps" and "list_all pf_i32 (prefetches s)"
  shows "P t \<and> list_all pf_i32 (prefetches t)"
  using assms(2) ps
proof (rule prefetch_turn_cases)
  fix f pi1 bud1 s1 oi s2 p'
  assume pl: "priority_loop compress (pf_file_index p) (length (priority_blocks f)) (pf_priority_index p) bud s = Ok (pi1, bud1, s1)"
    and ol: "overall_loop compress (pf_file_index p) (pf_overall_end p) (pf_overall_index p) bud1
       (s1\<lparr>prefetches := p\<lparr>pf_priority_index := pi1\<rparr> # ps\<rparr>) = Ok (oi, bud', s2)"
    and p': "p' = p\<lparr>pf_priority_index := pi1, pf_overall_index := oi\<rparr>"
    and t: "t = s2\<lparr>prefetches := if PrefetchState_done p' f then ps else p' # ps\<rparr>"
  have b: "- (2 ^ 31) \<le> pf_overall_index p" "pf_overall_end p \<le> 2 ^ 31" "list_all pf_i32 ps" using assms(4) ps by (simp_all add: pf_i32_def)
  have "P (s1\<lparr>prefetches := p\<lparr>pf_priority_index := pi1\<rparr> # ps\<rparr>)" by (rule frame [OF priority_loop_P [OF assms(1) pl]]) simp_all
  from overall_loop_P [OF this b(1,2) ol] have "P s2" .
  then have "P t" by (rule frame) (simp_all add: t)
  moreover have "pf_overall_index p \<le> oi" using overall_loop_end [OF ol] by simp
  then have "pf_i32 p'" using b(1,2) by (simp add: p' pf_i32_def)
  ultimately show ?thesis using b(3) by (simp add: t)
qed

lemma run_prefetches_P:
  "P s \<Longrightarrow> list_all pf_i32 (prefetches s) \<Longrightarrow> run_prefetches compress bud s = Ok t \<Longrightarrow> P t \<and> list_all pf_i32 (prefetches t)"
proof (induction "2 * length (prefetches s) + (if bud > 0 then 1 else 0)" arbitrary: bud s rule: less_induct)
  case less
  show ?case
  proof (cases "prefetches s \<noteq> [] \<and> bud > 0")
    case True
    then obtain ps where ps: "prefetches s = hd (prefetches s) # ps" by (metis list.collapse)
    from less.prems(3) True obtain bud' s1 where
      st: "prefetch_turn compress (hd (prefetches s)) bud s = Ok (bud', s1)" "run_prefetches compress bud' s1 = Ok t"
      by (subst (asm) run_prefetches.simps) auto
    from st(1) ps have "length (prefetches s1) = length ps \<or> length (prefetches s1) = Suc (length ps) \<and> bud' \<le> 0"
      by (rule prefetch_turn_cases) auto
    moreover have "length (prefetches s) = Suc (length ps)" by (subst ps) simp
    ultimately show ?thesis using less.hyps [OF _ _ _ st(2)] prefetch_turn_P [OF less.prems(1) st(1) ps less.prems(2)] True by auto
  next
    case False
    then have "run_prefetches compress bud s = Ok s" by (subst run_prefetches.simps) (simp only: if_False)
    with less.prems show ?thesis by simp
  qed
qed

lemma handle_request_P:
  assumes "P s" "list_all pf_i32 (prefetches s)" "is_i16 (rq_file_id r)" "is_i32 (rq_block_idx r)" "handle_request compress r s = Ok t"
  shows "P t \<and> list_all pf_i32 (prefetches t)"
proof -
  from assms(5) show ?thesis
  proof (cases rule: handle_request_cases)
    case flags
    then show ?thesis using frame [OF assms(1), of t] assms(1,2) by auto
  next
    case (missing res s1)
    have "P s1" by (rule send [OF assms(1,3,4) missing(5)])
    moreover have "prefetches s1 = prefetches s" using send_data_block_same [OF missing(5)] by (simp add: same_state_def)
    ultimately show ?thesis using missing(3,6) frame [of s1 t] assms(2) by (auto simp: pf_i32_new)
  next
    case prefetch
    then show ?thesis using frame [OF assms(1), of t] assms(2) by (simp add: pf_i32_new PrefetchState_full_def)
  qed
qed

lemma serve_step_P:
  assumes "P s" "list_all pf_i32 (prefetches s)" "serve_step compress s = Ok (c, fwd, t)"
  shows "P t \<and> list_all pf_i32 (prefetches t)"
proof -
  define s1 where "s1 = (if \<not> done_sent s \<and> prefetches s = [] \<and> all_files_sent s then (send_done s)\<lparr>done_sent := True\<rparr> else s)"
  define s2 where "s2 = (if prefetches s1 = [] then inc_flush s1 else s1)"
  obtain req fw s3 where tk: "take_request s2 = (req, fw, s3)" by (metis prod_cases3)
  have "P s1" "prefetches s1 = prefetches s"
    using assms(1) finish by (auto simp: s1_def send_done_def inc_send_def inc_flush_def Let_def)
  then have "P s2" "prefetches s2 = prefetches s" using flush by (auto simp: s2_def inc_flush_def Let_def)
  then have s3: "P s3" "list_all pf_i32 (prefetches s3)"
    using frame [of s2 s3] assms(2) take_request_frame [OF tk] by simp_all
  from assms(3) obtain s4 where s4: "(case req of Some r \<Rightarrow> handle_request compress r s3 | None \<Rightarrow> Ok s3) = Ok s4"
    "run_prefetching compress s4 = Ok t"
    unfolding serve_step_def Let_def by (fold s1_def, fold s2_def) (auto simp: tk)
  have "P s4 \<and> list_all pf_i32 (prefetches s4)"
  proof (cases req)
    case (Some r)
    with handle_request_P [OF s3 take_request_range [OF tk [unfolded Some]]] s4(1) show ?thesis by simp
  qed (use s3 s4(1) in simp)
  then show ?thesis using run_prefetches_P s4(2) by (auto simp: run_prefetching_def)
qed

end

text \<open>The invariant of the stream is such a property.\<close>

definition sound ::
  "(bytes \<Rightarrow> bytes) \<Rightarrow> (bytes \<Rightarrow> bytes option) \<Rightarrow> ServerFile list \<Rightarrow> bytes \<Rightarrow> IncrementalServer \<Rightarrow> bool" where
  "sound compress decompress files shipped s \<longleftrightarrow> length files \<le> 2 ^ 15 \<and> list_all file_ok files \<and> inverts compress decompress \<and>
     (\<exists>log. stream_inv decompress files shipped s log \<and> end_ok s log)"

lemma filter_all: "length (filter id xs) = length xs \<longleftrightarrow> list_all id xs"
proof (induction xs)
  case (Cons x xs)
  have "length (filter id xs) \<noteq> Suc (length xs)" using length_filter_le [of id xs] by linarith
  with Cons show ?case by (cases x) (simp_all add: id_def)
qed simp

lemma all_files_sent_flags:
  assumes inv: "stream_inv decompress files shipped s log" and ok: "list_all file_ok files"
  shows "all_files_sent s \<longleftrightarrow> all_sent s"
proof -
  have "sent_blocks_count f = as_i32 (int (length (sent_blocks f))) \<longleftrightarrow> list_all id (sent_blocks f)" if "f \<in> set (inc_files s)" for f
  proof -
    from that obtain i where i: "i < length files" "f = inc_files s ! i" using stream_invD(2) [OF inv] by (auto simp: in_set_conv_nth)
    note fi = stream_invD(3) [OF inv i(1), folded i(2)]
    have "file_ok f" using same_file_ok [OF file_invD(1) [OF fi]] ok i(1) by (simp add: list_all_length)
    then have "as_i32 (int (length (sent_blocks f))) = int (length (sent_blocks f))" by (intro as_i32_nat) (simp add: file_ok_def)
    then show ?thesis using file_invD(2) [OF fi] filter_all [of "sent_blocks f"] by simp
  qed
  then show ?thesis by (simp add: all_files_sent_def all_sent_def list_all_iff)
qed

lemma send_skipped:
  assumes "all_sent s" and "send_data_block compress fid b fl s = Ok (res, t)"
  shows "t = s"
  using assms(2)
proof (cases rule: send_data_block_cases)
  case fail
  then show ?thesis using assms(1) by (simp add: all_sent_def list_all_length)
next
  case sent
  then show ?thesis using assms(1) by (simp add: all_sent_def list_all_length)
qed

lemma end_ok_frame: "inc_files t = inc_files s \<Longrightarrow> done_sent t = done_sent s \<Longrightarrow> end_ok t log = end_ok s log"
  by (simp add: end_ok_def all_sent_def)

lemma sound_send:
  assumes "sound compress decompress files shipped s" "is_i16 fid" "is_i32 b" "send_data_block compress fid b fl s = Ok (res, t)"
  shows "sound compress decompress files shipped t"
proof -
  from assms(1) obtain log where s: "length files \<le> 2 ^ 15" "list_all file_ok files" "inverts compress decompress"
    "stream_inv decompress files shipped s log" "end_ok s log" by (auto simp: sound_def)
  from send_data_block_inv [OF s(4,1,2) assms(2,3) s(3) assms(4)] obtain ext where
    ext: "stream_inv decompress files shipped t (log @ ext)" "end_block \<notin> set ext" by blast
  show ?thesis
  proof (cases "done_sent s")
    case True
    then have "t = s" using s(5) send_skipped [OF _ assms(4)] by (simp add: end_ok_def)
    then show ?thesis using assms(1) by simp
  next
    case False
    then have "end_ok t (log @ ext)" using s(5) ext(2) send_data_block_same [OF assms(4)] by (simp add: end_ok_def same_state_def)
    then show ?thesis using s ext by (auto simp: sound_def)
  qed
qed

lemma sound_finish:
  assumes "sound compress decompress files shipped s" "\<not> done_sent s" "all_files_sent s"
  shows "sound compress decompress files shipped ((send_done s)\<lparr>done_sent := True\<rparr>)"
proof -
  let ?t = "(send_done s)\<lparr>done_sent := True\<rparr>"
  from assms(1) obtain log where s: "length files \<le> 2 ^ 15" "list_all file_ok files" "inverts compress decompress"
    "stream_inv decompress files shipped s log" "end_ok s log" by (auto simp: sound_def)
  have keys: "data_keys [end_block] = []" "tree_keys [end_block] = []"
    by (simp_all add: end_block_def done_marker_def block_kinds)
  have fs: "inc_files ?t = inc_files s" by (simp add: send_done_def inc_send_def inc_flush_def Let_def)
  have "emitted shipped ?t (log @ [end_block])"
    using emitted_done [OF stream_invD(1) [OF s(4)]] by (simp add: end_block_def emitted_def)
  moreover have "file_inv i (files ! i) (inc_files ?t ! i) (log @ [end_block])" if "i < length files" for i
    using file_inv_other [OF stream_invD(3) [OF s(4) that], of done_marker "[]"] by (simp add: fs end_block_def done_marker_def)
  moreover have "log_ok decompress files (log @ [end_block])"
    using stream_invD(4) [OF s(4)] keys by (simp add: log_ok_def) (simp add: block_ok_def split: prod.split)
  ultimately have "stream_inv decompress files shipped ?t (log @ [end_block])"
    using stream_invD(2) [OF s(4)] by (simp add: stream_inv_def fs)
  moreover have "all_sent ?t" using all_files_sent_flags [OF s(4,2)] assms(3) by (simp add: all_sent_def fs)
  ultimately show ?thesis using s assms(2) by (auto simp: sound_def end_ok_def)
qed

interpretation stream: serve_invariant compress "sound compress decompress files shipped"
  for compress decompress files shipped
proof (unfold_locales, goal_cases)
  case (1 s fid b fl res t)
  then show ?case by (rule sound_send)
next
  case (2 s t)
  then show ?case using stream_inv_frame [of decompress files shipped s _ t] end_ok_frame [of t s] unfolding sound_def by blast
next
  case (3 s f)
  then obtain log where s: "list_all file_ok files" "stream_inv decompress files shipped s log" by (auto simp: sound_def)
  with 3(2) obtain i where "i < length files" "f = inc_files s ! i" using stream_invD(2) [OF s(2)] by (auto simp: in_set_conv_nth)
  then have "file_ok f" using same_file_ok [OF stream_invD(5) [OF s(2)]] s(1) by (simp add: list_all_length)
  then show ?case by (simp add: file_ok_def)
next
  case (4 s)
  moreover have "done_sent (inc_flush s) = done_sent s" "inc_files (inc_flush s) = inc_files s" by (simp_all add: inc_flush_def Let_def)
  ultimately show ?case using stream_inv_flush [of decompress files shipped s] end_ok_frame [of "inc_flush s" s]
    unfolding sound_def by blast
next
  case (5 s)
  then show ?case by (rule sound_finish)
qed

section \<open>Sessions\<close>

text \<open>
  A session: bytes of the device are fed, the server takes steps, and its output is shipped, in any
  order. The second state is all that was shipped so far.
\<close>

inductive session :: "(bytes \<Rightarrow> bytes) \<Rightarrow> ServerFile list \<Rightarrow> IncrementalServer \<Rightarrow> bytes \<Rightarrow> bool"
  for compress :: "bytes \<Rightarrow> bytes" and files :: "ServerFile list" where
  session_start: "session compress files (IncrementalServer_new files) []"
| session_feed: "session compress files s shipped \<Longrightarrow> session compress files (inc_feed data s) shipped"
| session_step: "session compress files s shipped \<Longrightarrow> serve_step compress s = Ok (go, forward, t) \<Longrightarrow> session compress files t shipped"
| session_ship: "session compress files s shipped \<Longrightarrow> drain_output s = (bs, t) \<Longrightarrow> session compress files t (shipped @ bs)"

lemma sound_start:
  assumes "length files \<le> 2 ^ 15" "list_all fresh_file files" "inverts compress decompress"
  shows "sound compress decompress files [] (IncrementalServer_new files)"
proof -
  have ok: "list_all file_ok files" using assms(2) fresh_file_ok by (auto simp: list_all_iff)
  have "emitted [] (IncrementalServer_new files) []"
    unfolding emitted_def by (intro exI [of _ "[]"]) (simp add: IncrementalServer_new_def chunked_def CHUNK_FLUSH_SIZE_def inc_sizes)
  moreover have "file_inv i (files ! i) (files ! i) []" if "i < length files" for i
  proof -
    from assms(2) that have "fresh_file (files ! i)" by (simp add: list_all_length)
    then show ?thesis by (auto simp: fresh_file_def file_inv_def ServerFile_new_def leaf_offset_def split: if_splits)
  qed
  moreover have "log_ok decompress files []" by (simp add: log_ok_def hash_first_def)
  ultimately have "stream_inv decompress files [] (IncrementalServer_new files) []"
    by (simp add: stream_inv_def IncrementalServer_new_def)
  then show ?thesis using ok assms by (auto simp: sound_def end_ok_def IncrementalServer_new_def)
qed

lemma session_sound:
  assumes "session compress files s shipped"
    and "length files \<le> 2 ^ 15" "list_all fresh_file files" "inverts compress decompress"
  shows "sound compress decompress files shipped s \<and> list_all pf_i32 (prefetches s)"
  using assms(1)
proof induction
  case session_start
  then show ?case using sound_start [OF assms(2-4)] by (simp add: IncrementalServer_new_def)
next
  case (session_feed s shipped data)
  then show ?case using stream.frame [of compress decompress files shipped s "inc_feed data s"] by (simp add: inc_feed_def)
next
  case (session_step s shipped go forward t)
  then show ?case using stream.serve_step_P by blast
next
  case (session_ship s shipped bs t)
  then obtain log where log: "stream_inv decompress files shipped s log" "end_ok s log" by (auto simp: sound_def)
  have t: "inc_files t = inc_files s" "done_sent t = done_sent s" "prefetches t = prefetches s"
    using session_ship.hyps(2) by (auto simp: drain_output_def Let_def)
  have "stream_inv decompress files (shipped @ bs) t log"
    using log(1) emitted_drain(1) [OF stream_invD(1) [OF log(1)] session_ship.hyps(2)] by (simp add: stream_inv_def t)
  then show ?case using log(2) session_ship.IH end_ok_frame [OF t(1,2)] t(3) by (auto simp: sound_def)
qed

text \<open>
  C3: What the device reads. However the bytes of the device are cut into pieces, the steps are
  scheduled and the sources fail, the shipped bytes are a sequence of whole chunks of whole blocks; no
  data block and no tree block is sent twice; each carries what the source has for it; no data block
  comes before the tree block with its hash; the flags of the server are exactly the blocks in the
  stream; and the end marker is the last block, sent once and only after every data block.\<close>

theorem incremental_stream_sound:
  assumes "session compress files s shipped" and "length files \<le> 2 ^ 15" and "list_all fresh_file files"
    and "inverts compress decompress" and "drain_output s = (bs, t)"
  shows "\<exists>log. receive (shipped @ bs) = Some log \<and> distinct (data_keys log) \<and> distinct (tree_keys log) \<and>
     list_all (block_ok decompress files) log \<and> hash_first files log \<and> end_ok s log \<and>
     (\<forall>i < length files. \<forall>b < length (sent_blocks (files ! i)).
        sent_blocks (inc_files s ! i) ! b \<longleftrightarrow> (int i, int b) \<in> set (data_keys log))"
proof -
  from session_sound [OF assms(1-4)] obtain log where log: "stream_inv decompress files shipped s log" "end_ok s log"
    by (auto simp: sound_def)
  have "sent_blocks (inc_files s ! i) ! b \<longleftrightarrow> (int i, int b) \<in> set (data_keys log)"
    if "i < length files" "b < length (sent_blocks (files ! i))" for i b
    using file_invD(3) [OF stream_invD(3) [OF log(1) that(1)], of b] stream_invD(5) [OF log(1) that(1)] that(2)
    by (simp add: same_file_def)
  then show ?thesis
    using emitted_drain(2) [OF stream_invD(1) [OF log(1)] assms(5)] stream_invD(4) [OF log(1)] log(2)
    by (intro exI [of _ log]) (simp add: log_ok_def)
qed

text \<open>A session with one file of two blocks that the device prefetches.\<close>

definition sample_source :: BlockSource where
  "sample_source = \<lparr>src_data = (\<lambda>b. Some [1, 2, 3]), src_tree = (\<lambda>b. Some [9]), src_has_tree = True\<rparr>"

definition sample_file :: ServerFile where
  "sample_file = (ServerFile_new (str ''base.apk'') 5000 sample_source)\<lparr>priority_blocks := [1]\<rparr>"

definition sample_request :: bytes where
  "sample_request = [0x49, 0x4e, 0x43, 0x52, 0, 2, 0, 0, 0, 0, 0, 0]"

definition sample_state :: IncrementalServer where
  "sample_state = (case serve_step (Cons 0) (inc_feed sample_request (IncrementalServer_new [sample_file])) of
     Ok (_, _, t) \<Rightarrow> t | _ \<Rightarrow> IncrementalServer_new [])"

lemma sample_take:
  "take_request (inc_feed sample_request (IncrementalServer_new files)) =
     (Some \<lparr>rq_type = 2, rq_file_id = 0, rq_block_idx = 0\<rparr>, [], IncrementalServer_new files)"
  by (simp add: take_request_def inc_feed_def sample_request_def IncrementalServer_new_def is_i32_def scan_magic.simps
      u32_from_be_def u32_from_le_def INCR_MAGIC_def RequestCommand_decode_def i16_from_be_def u16_from_be_def u16_from_le_def
      i32_from_be_def i32_from_le_def)

text \<open>\<open>CHUNK_FLUSH_SIZE\<close> as an integer literal, for evaluation.\<close>

lemma emit_block_code [code]:
  "emit_block file_id block_idx block_type compression_type payload flush s =
     (let h = \<lparr>rh_file_id = file_id, rh_block_type = block_type, rh_compression_type = compression_type,
               rh_block_idx = block_idx, rh_block_size = as_i16 (int (length payload))\<rparr>;
          s = s\<lparr>inc_pending := inc_pending s @ ResponseHeader_encode h\<rparr>;
          s = s\<lparr>inc_pending := inc_pending s @ payload\<rparr>
      in if flush \<or> int (length (inc_pending s)) > 126976 then inc_flush s else s)"
  unfolding emit_block_def Let_def CHUNK_FLUSH_SIZE_def inc_sizes by simp

lemma sample_step:
  "serve_step (Cons 0) (inc_feed sample_request (IncrementalServer_new [sample_file])) =
     and_then (handle_request (Cons 0) \<lparr>rq_type = 2, rq_file_id = 0, rq_block_idx = 0\<rparr> (IncrementalServer_new [sample_file])) (\<lambda>s.
       and_then (run_prefetching (Cons 0) s) (\<lambda>s. Ok (\<not> destroyed s, [], s)))"
proof -
  let ?s = "inc_feed sample_request (IncrementalServer_new [sample_file])"
  have "\<not> all_files_sent (IncrementalServer_new [sample_file])" by code_simp
  then have "\<not> all_files_sent ?s" by (simp add: all_files_sent_def inc_feed_def)
  moreover have "inc_flush ?s = ?s" "prefetches ?s = []" by (simp_all add: inc_flush_def inc_feed_def IncrementalServer_new_def)
  ultimately show ?thesis by (simp add: serve_step_def sample_take)
qed

lemma sample_facts:
  "session (Cons 0) [sample_file] sample_state []" "list_all fresh_file [sample_file]"
  "inverts (Cons 0) (\<lambda>d. Some (tl d))" "length [sample_file] \<le> 2 ^ 15"
  "sent_blocks (inc_files sample_state ! 0) = [True, True]" "incoming sample_state = []" "prefetched_files sample_state = [0]"
proof -
  have "case serve_step (Cons 0) (inc_feed sample_request (IncrementalServer_new [sample_file])) of
     Ok (_, _, t) \<Rightarrow> sent_blocks (inc_files t ! 0) = [True, True] \<and> incoming t = [] \<and> prefetched_files t = [0] | _ \<Rightarrow> False"
    unfolding sample_step by code_simp
  then obtain c fwd t where t: "serve_step (Cons 0) (inc_feed sample_request (IncrementalServer_new [sample_file])) = Ok (c, fwd, t)"
    "sent_blocks (inc_files t ! 0) = [True, True]" "incoming t = []" "prefetched_files t = [0]" by (auto split: outcome.splits)
  then show "session (Cons 0) [sample_file] sample_state []"
    using session_step [OF session_feed [OF session_start] t(1)] by (simp add: sample_state_def)
  show "sent_blocks (inc_files sample_state ! 0) = [True, True]" "incoming sample_state = []" "prefetched_files sample_state = [0]"
    using t by (simp_all add: sample_state_def)
  have "fresh_file sample_file"
    unfolding fresh_file_def sample_file_def
    by (intro exI conjI, rule refl) (auto simp: sample_source_def is_i32_def)
  then show "list_all fresh_file [sample_file]" by simp
  show "inverts (Cons 0) (\<lambda>d. Some (tl d))" by (simp add: inverts_def)
qed simp

theorem incremental_stream_sound_witness:
  "\<exists>log. receive ([] @ fst (drain_output sample_state)) = Some log \<and> (0, 0) \<in> set (data_keys log) \<and> (0, 1) \<in> set (data_keys log) \<and>
     distinct (data_keys log)"
proof -
  obtain bs t where d: "drain_output sample_state = (bs, t)" by fastforce
  have "length (sent_blocks ([sample_file] ! 0)) = 2"
    by code_simp
  with incremental_stream_sound [OF sample_facts(1,4,2,3) d] sample_facts(5) d show ?thesis
    by (fastforce simp: less_Suc_eq numeral_2_eq_2)
qed

end
