(* ===== verification/Incremental_Liveness.thy ===== *)
theory Incremental_Liveness
  imports Incremental_Stream
begin

text \<open>
  The incremental server finishes: with sources that do not fail, a session in which the device asked for
  every file to be prefetched reaches, after finitely many steps, a state in which every block and the
  end marker are sent. No step panics on the way.
\<close>

section \<open>Sources that do not fail\<close>

definition reliable :: "ServerFile list \<Rightarrow> bool" where
  "reliable files \<longleftrightarrow> list_all (\<lambda>f. \<forall>b. src_data (sf_source f) b \<noteq> None \<and> src_tree (sf_source f) b \<noteq> None) files"

lemma send_upper_tree_total:
  assumes "as_usize fid = i" "i < length (inc_files s)"
    and "\<forall>k \<in> set ks. k < length (sent_tree_blocks (inc_files s ! i))"
  shows "\<exists>ok t. send_upper_tree fid ks s = Ok (ok, t) \<and> ((\<forall>b. src_tree (sf_source (inc_files s ! i)) b \<noteq> None) \<longrightarrow> ok)"
  using assms
proof (induction ks arbitrary: s)
  case (Cons k ks)
  show ?case
  proof (cases "src_tree (sf_source (inc_files s ! i)) (as_i32 (int k))")
    case None
    then have "send_upper_tree fid (k # ks) s = Ok (False, s)" using Cons.prems by (simp add: send_tree_block_def index_Ok)
    moreover have "\<not> (\<forall>b. src_tree (sf_source (inc_files s ! i)) b \<noteq> None)" using None by blast
    ultimately show ?thesis by blast
  next
    case (Some p)
    define s1 where "s1 = emit_block fid (as_i32 (int k)) TYPE_HASH COMPRESSION_NONE p False s"
    define s2 where "s2 = upd_file i (\<lambda>f. f\<lparr>sent_tree_blocks := (sent_tree_blocks f)[k := True]\<rparr>) s1"
    have st: "send_tree_block fid (as_i32 (int k)) s = Ok (True, s1)" "mark_tree_block i k s1 = Ok s2"
      using Cons.prems Some by (simp_all add: send_tree_block_def index_Ok s1_def s2_def mark_tree_block_def)
    have "sf_source (inc_files s2 ! i) = sf_source (inc_files s ! i)" using Cons.prems(2) by (simp add: s2_def s1_def upd_file_def)
    moreover have "\<exists>ok t. send_upper_tree fid ks s2 = Ok (ok, t) \<and> ((\<forall>b. src_tree (sf_source (inc_files s2 ! i)) b \<noteq> None) \<longrightarrow> ok)"
      using Cons.prems by (intro Cons.IH) (simp_all add: s2_def s1_def upd_file_def)
    ultimately show ?thesis using st Cons.prems(1) by simp
  qed
qed auto

lemma send_tree_blocks_total:
  assumes ok: "file_ok (inc_files s ! i)" and i: "i < length (inc_files s)" "i < 2 ^ 15" and b: "b < length (sent_blocks (inc_files s ! i))"
  shows "\<exists>ok t. send_tree_blocks_for_data_block (int i) (int b) s = Ok (ok, t) \<and>
    ((\<forall>b. src_tree (sf_source (inc_files s ! i)) b \<noteq> None) \<longrightarrow> ok)"
proof (cases "sent_tree_blocks (inc_files s ! i) = []")
  case True
  then have "send_tree_blocks_for_data_block (int i) (int b) s = Ok (True, s)"
    using i by (simp add: send_tree_blocks_for_data_block_def Let_def)
  then show ?thesis by blast
next
  case False
  let ?f = "inc_files s ! i"
  define leaf where "leaf = leaf_offset ?f + b div 128"
  have ll: "leaf < length (sent_tree_blocks ?f)" using leaf_bound(1) [OF ok False b] by (simp add: leaf_def)
  have us: "as_usize (int i) = i" using i(2) by simp
  note eq = send_tree_blocks_eq [OF ok i False b leaf_def]
  show ?thesis
  proof (cases "sent_tree_blocks ?f ! leaf")
    case True
    then show ?thesis unfolding eq by auto
  next
    case new: False
    show ?thesis
    proof (cases "src_tree (sf_source ?f) (as_i32 (int leaf))")
      case None
      then have "send_tree_block (int i) (as_i32 (int leaf)) s = Ok (False, s)" using i(1) by (simp add: send_tree_block_def us index_Ok)
      then have "send_tree_blocks_for_data_block (int i) (int b) s = Ok (False, s)" unfolding eq using new by simp
      moreover have "\<not> (\<forall>b. src_tree (sf_source ?f) b \<noteq> None)" using None by blast
      ultimately show ?thesis by blast
    next
      case (Some p)
      define s1 where "s1 = emit_block (int i) (as_i32 (int leaf)) TYPE_HASH COMPRESSION_NONE p False s"
      define s2 where "s2 = upd_file i (\<lambda>f. f\<lparr>sent_tree_blocks := (sent_tree_blocks f)[leaf := True]\<rparr>) s1"
      have st: "send_tree_block (int i) (as_i32 (int leaf)) s = Ok (True, s1)" "mark_tree_block i leaf s1 = Ok s2"
        using i Some ll by (simp_all add: send_tree_block_def us index_Ok s1_def s2_def mark_tree_block_def)
      have "sf_source (inc_files s2 ! i) = sf_source ?f" using i(1) by (simp add: s2_def s1_def upd_file_def)
      moreover have "\<exists>ok t. send_upper_tree (int i) [0..<leaf_offset ?f] s2 = Ok (ok, t) \<and> ((\<forall>b. src_tree (sf_source (inc_files s2 ! i)) b \<noteq> None) \<longrightarrow> ok)"
        using i by (intro send_upper_tree_total [OF us]) (auto simp: s2_def s1_def upd_file_def leaf_offset_def)
      ultimately obtain ok t where up: "send_upper_tree (int i) [0..<leaf_offset ?f] s2 = Ok (ok, t)"
        "(\<forall>b. src_tree (sf_source ?f) b \<noteq> None) \<longrightarrow> ok" by auto
      have "send_tree_blocks_for_data_block (int i) (int b) s =
          (if leaf_offset ?f = 0 \<or> sent_tree_blocks (inc_files s2 ! i) ! 0 then Ok (True, s2) else Ok (ok, t))"
        unfolding eq using new st up(1) by (simp del: and_then_eq_Ok)
      then show ?thesis using up(2) by (cases "leaf_offset ?f = 0 \<or> sent_tree_blocks (inc_files s2 ! i) ! 0") auto
    qed
  qed
qed

text \<open>Flags are only ever set, and a block that is asked for is sent.\<close>

definition sent_flag :: "IncrementalServer \<Rightarrow> nat \<Rightarrow> nat \<Rightarrow> bool" where
  "sent_flag s i b \<longleftrightarrow> i < length (inc_files s) \<and> b < length (sent_blocks (inc_files s ! i)) \<and> sent_blocks (inc_files s ! i) ! b"

lemma sent_flag_keys:
  assumes "stream_inv decompress files shipped s log"
  shows "sent_flag s i b \<longleftrightarrow> i < length files \<and> b < length (sent_blocks (files ! i)) \<and> (int i, int b) \<in> set (data_keys log)"
proof (cases "i < length files")
  case True
  then show ?thesis
    using file_invD(3) [OF stream_invD(3) [OF assms True], of b] stream_invD(5) [OF assms True] stream_invD(2) [OF assms]
    by (auto simp: sent_flag_def same_file_def)
qed (use stream_invD(2) [OF assms] in \<open>simp add: sent_flag_def\<close>)

lemma send_reliable:
  assumes snd: "sound compress decompress files shipped s" and fid: "is_i16 fid" and b: "is_i32 b"
  shows "\<exists>res t. send_data_block compress fid b fl s = Ok (res, t) \<and> (\<forall>i k. sent_flag s i k \<longrightarrow> sent_flag t i k) \<and>
    (\<forall>i k. reliable files \<and> fid = int i \<and> b = int k \<and> i < length files \<and> k < length (sent_blocks (files ! i)) \<longrightarrow> sent_flag t i k)"
proof -
  from snd obtain log where s: "length files \<le> 2 ^ 15" "list_all file_ok files" "inverts compress decompress"
    "stream_inv decompress files shipped s log" by (auto simp: sound_def)
  have ex: "\<exists>res t. send_data_block compress fid b fl s = Ok (res, t) \<and> (reliable files \<longrightarrow> res \<noteq> Error)"
  proof (cases "as_usize fid < length (inc_files s) \<and> 0 \<le> b \<and> as_usize b < length (sent_blocks (inc_files s ! as_usize fid)) \<and>
      \<not> sent_blocks (inc_files s ! as_usize fid) ! as_usize b")
    case False
    then have "send_data_block compress fid b fl s = Ok (Skipped, s)"
      unfolding send_data_block_def Let_def by simp
    then show ?thesis by simp
  next
    case True
    let ?i = "as_usize fid"
    have il: "?i < length files" using True stream_invD(2) [OF s(4)] by simp
    have fi: "fid = int ?i" by (rule is_i16_in_range(2) [OF fid il s(1)])
    have bk: "b = int (as_usize b)" using True b by (simp add: is_i32_def)
    note same = stream_invD(5) [OF s(4) il]
    have ok: "file_ok (inc_files s ! ?i)" using same_file_ok [OF same] s(2) il by (simp add: list_all_length)
    have src: "\<forall>b. src_data (sf_source (inc_files s ! ?i)) b \<noteq> None" "\<forall>b. src_tree (sf_source (inc_files s ! ?i)) b \<noteq> None"
      if "reliable files"
      using that il same by (auto simp: reliable_def list_all_length same_file_def)
    have "?i < 2 ^ 15" using il s(1) by simp
    from send_tree_blocks_total [OF ok _ this, of "as_usize b"] True bk fi src(2) obtain ok1 s1 where
      s1: "send_tree_blocks_for_data_block fid b s = Ok (ok1, s1)" "reliable files \<longrightarrow> ok1" by auto
    have "same_file (inc_files s ! ?i) (inc_files s1 ! ?i)"
      using same_state_files(2) [OF send_tree_blocks_same [OF s1(1)]] True by blast
    then have "reliable files \<longrightarrow> src_data (sf_source (inc_files s1 ! ?i)) b \<noteq> None" using src(1) by (auto simp: same_file_def)
    then show ?thesis using True s1
      by (cases ok1; cases "src_data (sf_source (inc_files s1 ! ?i)) b") (auto simp: send_data_block_def Let_def)
  qed
  then obtain res t where t: "send_data_block compress fid b fl s = Ok (res, t)" "reliable files \<longrightarrow> res \<noteq> Error" by blast
  from send_data_block_inv [OF s(4,1,2) fid b s(3) t(1)] obtain ext where
    ext: "stream_inv decompress files shipped t (log @ ext)" by blast
  have mono: "sent_flag s i k \<longrightarrow> sent_flag t i k" for i k by (simp add: sent_flag_keys [OF s(4)] sent_flag_keys [OF ext])
  have "sent_flag t i k" if rel: "reliable files" and that: "fid = int i" "b = int k" "i < length files" "k < length (sent_blocks (files ! i))" for i k
  proof -
    have il: "i < length (inc_files s)" using that(3) stream_invD(2) [OF s(4)] by simp
    have us: "as_usize fid = i" using that(1,3) s(1) by simp
    have uk: "as_usize b = k" "as_usize (int k) = k" using that(2) b by (simp_all add: is_i32_def)
    have len: "k < length (sent_blocks (inc_files s ! i))" using that(4) stream_invD(5) [OF s(4) that(3)] by (simp add: same_file_def)
    from t(1) show ?thesis
    proof (cases rule: send_data_block_cases)
      case skip
      then show ?thesis using il len that(2) by (simp add: us uk sent_flag_def)
    next
      case fail
      then show ?thesis using t(2) rel by simp
    next
      case (sent s1 data c p x u)
      have "length (inc_files u) = length (inc_files s)" "length (sent_blocks (inc_files u ! i)) = length (sent_blocks (inc_files s ! i))"
        using same_state_files [OF send_tree_blocks_same [OF sent(6)]] sent(10) il by (auto simp: same_file_def)
      then show ?thesis using il len sent(9) by (simp add: us uk sent_flag_def upd_file_def)
    qed
  qed
  then show ?thesis using t(1) mono by blast
qed

section \<open>Prefetching gets through its range\<close>

definition pf_ok :: "ServerFile list \<Rightarrow> PrefetchState \<Rightarrow> bool" where
  "pf_ok files p \<longleftrightarrow> pf_file_index p < length files \<and> 0 \<le> pf_overall_index p \<and>
     pf_overall_end p \<le> int (length (sent_blocks (files ! pf_file_index p)))"

lemma loop_ids:
  assumes "sound compress decompress files shipped s" "fi < length files"
  shows "as_i16 (int fi) = int fi" "is_i16 (int fi)" "length (inc_files s) = length files"
    "same_file (files ! fi) (inc_files s ! fi)" "file_ok (files ! fi)"
proof -
  from assms obtain log where s: "length files \<le> 2 ^ 15" "list_all file_ok files" "stream_inv decompress files shipped s log"
    by (auto simp: sound_def)
  show "is_i16 (int fi)" using s(1) assms(2) by (simp add: is_i16_def)
  then show "as_i16 (int fi) = int fi" by (rule as_i16_id)
  show "length (inc_files s) = length files" "same_file (files ! fi) (inc_files s ! fi)" "file_ok (files ! fi)"
    using stream_invD(2,5) [OF s(3)] s(2) assms(2) by (simp_all add: list_all_length)
qed

lemma overall_loop_live:
  assumes "sound compress decompress files shipped s" "fi < length files"
    "0 \<le> k" "n \<le> int (length (sent_blocks (files ! fi)))"
  shows "\<exists>k' bud' t. overall_loop compress fi n k bud s = Ok (k', bud', t) \<and>
    (\<forall>i b. sent_flag s i b \<longrightarrow> sent_flag t i b) \<and> (\<forall>b. reliable files \<and> k \<le> int b \<and> int b < k' \<longrightarrow> sent_flag t fi b) \<and>
    k \<le> k' \<and> (bud' = bud \<or> k < k') \<and> (k < n \<and> 0 < bud \<longrightarrow> k < k') \<and> k' \<le> max k n"
  using assms(1,3)
proof (induction "nat (n - k)" arbitrary: k bud s rule: less_induct)
  case less
  show ?case
  proof (cases "bud > 0 \<and> k < n")
    case True
    note ids = loop_ids [OF less.prems(1) assms(2)]
    have n31: "n < 2 ^ 31" using assms(4) ids(5) by (simp add: file_ok_def)
    have b: "is_i32 k" using True less.prems(2) n31 by (simp add: is_i32_def)
    from send_reliable [OF less.prems(1) ids(2) b, of False] obtain res s1 where
      s1: "send_data_block compress (int fi) k False s = Ok (res, s1)" "\<forall>i k. sent_flag s i k \<longrightarrow> sent_flag s1 i k"
        "\<forall>i b. reliable files \<and> int fi = int i \<and> k = int b \<and> i < length files \<and> b < length (sent_blocks (files ! i)) \<longrightarrow> sent_flag s1 i b" by blast
    define bud1 where "bud1 = (if res = Sent then bud - 1 else bud)"
    have snd1: "sound compress decompress files shipped s1" by (rule sound_send [OF less.prems(1) ids(2) b s1(1)])
    have "nat (n - (k + 1)) < nat (n - k)" using True by simp
    from less.hyps [OF this snd1, of bud1] less.prems(2) obtain k' bud' t where
      t: "overall_loop compress fi n (k + 1) bud1 s1 = Ok (k', bud', t)" "\<forall>i b. sent_flag s1 i b \<longrightarrow> sent_flag t i b"
        "\<forall>b. reliable files \<and> k + 1 \<le> int b \<and> int b < k' \<longrightarrow> sent_flag t fi b" "k + 1 \<le> k'" "k' \<le> max (k + 1) n" by auto
    have run: "overall_loop compress fi n k bud s = Ok (k', bud', t)"
      using True s1(1) t(1) by (subst overall_loop.simps) (simp add: ids(1) bud1_def)
    have "sent_flag t fi b" if "reliable files" "k \<le> int b" "int b < k'" for b
    proof (cases "int b = k")
      case eq: True
      then have "b < length (sent_blocks (files ! fi))" using True assms(4) by linarith
      then show ?thesis using s1(3) t(2) eq assms(2) that(1) by auto
    next
      case False
      with that t(3) show ?thesis by simp
    qed
    then show ?thesis using run s1(2) t(2,4,5) True by auto
  next
    case False
    then have "overall_loop compress fi n k bud s = Ok (k, bud, s)" by (subst overall_loop.simps) (simp only: if_False)
    with False show ?thesis by auto
  qed
qed

lemma priority_loop_live:
  assumes "sound compress decompress files shipped s" "fi < length files" "n = length (priority_blocks (files ! fi))"
  shows "\<exists>k' bud' t. priority_loop compress fi n k bud s = Ok (k', bud', t) \<and>
    (\<forall>i b. sent_flag s i b \<longrightarrow> sent_flag t i b) \<and> k \<le> k' \<and> (bud' = bud \<or> k < k') \<and> (k < n \<and> 0 < bud \<longrightarrow> k < k') \<and> k' \<le> max k n"
  using assms(1)
proof (induction "n - k" arbitrary: k bud s rule: less_induct)
  case less
  show ?case
  proof (cases "bud > 0 \<and> k < n")
    case True
    note ids = loop_ids [OF less.prems(1) assms(2)]
    let ?f = "inc_files s ! fi"
    have pb: "priority_blocks ?f = priority_blocks (files ! fi)" using ids(4) by (simp add: same_file_def)
    have b: "is_i32 (priority_blocks ?f ! k)" using ids(5) True assms(3) by (simp add: pb file_ok_def list_all_length)
    from send_reliable [OF less.prems(1) ids(2) b, of False] obtain res s1 where
      s1: "send_data_block compress (int fi) (priority_blocks ?f ! k) False s = Ok (res, s1)" "\<forall>i k. sent_flag s i k \<longrightarrow> sent_flag s1 i k"
      by blast
    define bud1 where "bud1 = (if res = Sent then bud - 1 else bud)"
    have snd1: "sound compress decompress files shipped s1" by (rule sound_send [OF less.prems(1) ids(2) b s1(1)])
    have "n - (k + 1) < n - k" using True by linarith
    from less.hyps [OF this snd1, of bud1] obtain k' bud' t where
      t: "priority_loop compress fi n (k + 1) bud1 s1 = Ok (k', bud', t)" "\<forall>i b. sent_flag s1 i b \<longrightarrow> sent_flag t i b"
        "k + 1 \<le> k'" "k' \<le> max (k + 1) n" by auto
    have "priority_loop compress fi n k bud s = Ok (k', bud', t)"
      using True s1(1) t(1) ids(3) assms(2,3) pb by (subst priority_loop.simps) (simp add: ids(1) bud1_def index_Ok)
    then show ?thesis using s1(2) t(2,3,4) True by auto
  next
    case False
    then have "priority_loop compress fi n k bud s = Ok (k, bud, s)" by (subst priority_loop.simps) (simp only: if_False)
    with False show ?thesis by auto
  qed
qed

section \<open>What remains to be done\<close>

definition covers :: "PrefetchState \<Rightarrow> nat \<Rightarrow> nat \<Rightarrow> bool" where
  "covers p i b \<longleftrightarrow> pf_file_index p = i \<and> pf_overall_index p \<le> int b \<and> int b < pf_overall_end p"

text \<open>Every block of a file that was asked for is sent or in the range of a waiting prefetch.\<close>

definition live :: "ServerFile list \<Rightarrow> IncrementalServer \<Rightarrow> bool" where
  "live files s \<longleftrightarrow> list_all (pf_ok files) (prefetches s) \<and>
     (\<forall>i b. reliable files \<and> int i \<in> set (prefetched_files s) \<and> i < length files \<and> b < length (sent_blocks (files ! i)) \<longrightarrow>
        sent_flag s i b \<or> (\<exists>p \<in> set (prefetches s). covers p i b))"

definition pf_work :: "ServerFile list \<Rightarrow> PrefetchState \<Rightarrow> nat" where
  "pf_work files p = 1 + nat (pf_overall_end p - pf_overall_index p) +
     (length (priority_blocks (files ! pf_file_index p)) - pf_priority_index p)"

definition work :: "ServerFile list \<Rightarrow> IncrementalServer \<Rightarrow> nat" where
  "work files s = sum_list (map (pf_work files) (prefetches s))"

lemma pf_ok_i32:
  assumes "sound compress decompress files shipped s" "live files s"
  shows "list_all pf_i32 (prefetches s)"
proof -
  have "pf_i32 p" if "pf_ok files p" for p
    using that loop_ids(5) [OF assms(1), of "pf_file_index p"] by (auto simp: pf_ok_def pf_i32_def file_ok_def)
  then show ?thesis using assms(2) by (auto simp: live_def list_all_iff)
qed

lemma sent_flag_frame: "inc_files t = inc_files s \<Longrightarrow> sent_flag t i b = sent_flag s i b"
  by (simp add: sent_flag_def)

lemma prefetch_turn_total:
  assumes snd: "sound compress decompress files shipped s" and live: "live files s"
    and ps: "prefetches s = p # ps"
  shows "\<exists>r. prefetch_turn compress p bud s = Ok r"
proof -
  let ?i = "pf_file_index p"
  have pok: "?i < length files" "0 \<le> pf_overall_index p" "pf_overall_end p \<le> int (length (sent_blocks (files ! ?i)))"
    using live ps by (simp_all add: live_def pf_ok_def)
  note ids = loop_ids [OF snd pok(1)]
  have pb: "length (priority_blocks (inc_files s ! ?i)) = length (priority_blocks (files ! ?i))" using ids(4) by (simp add: same_file_def)
  from priority_loop_live [OF snd pok(1) pb] obtain k1 bud1 s1 where
    s1: "priority_loop compress ?i (length (priority_blocks (inc_files s ! ?i))) (pf_priority_index p) bud s = Ok (k1, bud1, s1)" by blast
  have snd1: "sound compress decompress files shipped (upd_front (\<lambda>p. p\<lparr>pf_priority_index := k1\<rparr>) s1)"
    by (rule stream.frame [OF stream.priority_loop_P [OF snd s1]]) (simp_all add: upd_front_def)
  from overall_loop_live [OF snd1 pok] obtain k2 bud2 s2 where
    s2: "overall_loop compress ?i (pf_overall_end p) (pf_overall_index p) bud1 (upd_front (\<lambda>p. p\<lparr>pf_priority_index := k1\<rparr>) s1) = Ok (k2, bud2, s2)"
    by blast
  have "prefetches s2 = prefetches (upd_front (\<lambda>p. p\<lparr>pf_priority_index := k1\<rparr>) s1)"
    using overall_loop_end [OF s2] by (simp add: same_state_def)
  moreover have "prefetches s1 = p # ps" using priority_loop_end [OF s1] ps by (simp add: same_state_def)
  ultimately have p2: "prefetches s2 = p\<lparr>pf_priority_index := k1\<rparr> # ps" by (simp add: upd_front_def)
  have ux: "upd_front (\<lambda>p. p\<lparr>pf_overall_index := k2\<rparr>) s2 = s2\<lparr>prefetches := p\<lparr>pf_priority_index := k1, pf_overall_index := k2\<rparr> # ps\<rparr>"
    by (simp add: upd_front_def p2)
  have "length (inc_files s2) = length (inc_files s)"
    using same_state_files(1) [OF overall_loop_end [OF s2, THEN conjunct1]]
      same_state_files(1) [OF priority_loop_end [OF s1, THEN conjunct1]] by (simp add: upd_front_def)
  then have "prefetch_turn compress p bud s = Ok (bud2, s2\<lparr>prefetches :=
      if PrefetchState_done (p\<lparr>pf_priority_index := k1, pf_overall_index := k2\<rparr>) (inc_files s2 ! ?i) then ps
      else p\<lparr>pf_priority_index := k1, pf_overall_index := k2\<rparr> # ps\<rparr>)"
    using s1 s2 ux ids(3) pok(1) by (simp add: prefetch_turn_def Let_def index_Ok del: and_then_eq_Ok)
  then show ?thesis by blast
qed

lemma prefetch_turn_live:
  assumes snd: "sound compress decompress files shipped s" and live: "live files s"
    and ps: "prefetches s = p # ps" and bud: "bud > 0" and run: "prefetch_turn compress p bud s = Ok (bud', t)"
  shows "live files t \<and> work files t < work files s \<and> prefetched_files t = prefetched_files s \<and> incoming t = incoming s"
  using run ps
proof (rule prefetch_turn_cases)
  fix f pi1 bud1 oi p' and s1 s2 :: IncrementalServer
  let ?i = "pf_file_index p" and ?u = "s1\<lparr>prefetches := p\<lparr>pf_priority_index := pi1\<rparr> # ps\<rparr>"
  assume f: "f = inc_files s ! ?i"
    and pl: "priority_loop compress ?i (length (priority_blocks f)) (pf_priority_index p) bud s = Ok (pi1, bud1, s1)"
    and ol: "overall_loop compress ?i (pf_overall_end p) (pf_overall_index p) bud1 ?u = Ok (oi, bud', s2)"
    and p': "p' = p\<lparr>pf_priority_index := pi1, pf_overall_index := oi\<rparr>"
    and t: "t = s2\<lparr>prefetches := if PrefetchState_done p' f then ps else p' # ps\<rparr>"
    and dn: "PrefetchState_done p' f \<or> bud' \<le> 0"
  have pok: "?i < length files" "0 \<le> pf_overall_index p" "pf_overall_end p \<le> int (length (sent_blocks (files ! ?i)))"
    using live ps by (simp_all add: live_def pf_ok_def)
  have pb: "length (priority_blocks f) = length (priority_blocks (files ! ?i))"
    using loop_ids(4) [OF snd pok(1)] by (simp add: same_file_def f)
  from priority_loop_live [OF snd pok(1) pb, of "pf_priority_index p" bud] pl
  have e1: "\<forall>i b. sent_flag s i b \<longrightarrow> sent_flag s1 i b" "bud1 = bud \<or> pf_priority_index p < pi1" "pf_priority_index p \<le> pi1"
    "pi1 \<le> max (pf_priority_index p) (length (priority_blocks f))" by auto
  have snd1: "sound compress decompress files shipped ?u"
    by (rule stream.frame [OF stream.priority_loop_P [OF snd pl]]) simp_all
  from overall_loop_live [OF snd1 pok, of bud1] ol
  have e2: "\<forall>i b. sent_flag ?u i b \<longrightarrow> sent_flag s2 i b" "\<forall>b. reliable files \<and> pf_overall_index p \<le> int b \<and> int b < oi \<longrightarrow> sent_flag s2 ?i b"
    "pf_overall_index p \<le> oi" "bud' = bud1 \<or> pf_overall_index p < oi" "oi \<le> max (pf_overall_index p) (pf_overall_end p)" by auto
  have same: "prefetched_files s2 = prefetched_files s" "incoming s2 = incoming s"
    using overall_loop_end [OF ol] priority_loop_end [OF pl] by (simp_all add: same_state_def)
  have flag: "sent_flag s i b \<Longrightarrow> sent_flag t i b" "reliable files \<Longrightarrow> pf_overall_index p \<le> int b \<Longrightarrow> int b < oi \<Longrightarrow> sent_flag t ?i b" for i b
    using e1(1) e2(1,2) sent_flag_frame [of ?u s1] sent_flag_frame [of t s2] by (auto simp: t)
  have cov: "sent_flag t i b \<or> (\<exists>q \<in> set (prefetches t). covers q i b)"
    if h: "reliable files" "int i \<in> set (prefetched_files s)" "i < length files" "b < length (sent_blocks (files ! i))" for i b
  proof -
    from live h ps consider "sent_flag s i b" | (p) "covers p i b" | (ps) "\<exists>q \<in> set ps. covers q i b" unfolding live_def by fastforce
    then show ?thesis
    proof cases
      case p
      show ?thesis
      proof (cases "int b < oi")
        case True
        then show ?thesis using p flag(2) [OF h(1)] by (auto simp: covers_def)
      next
        case False
        then have "covers p' i b" using p by (simp add: covers_def p')
        moreover have "\<not> PrefetchState_done p' f" using False p by (auto simp: PrefetchState_done_def covers_def p' Let_def)
        ultimately show ?thesis by (simp add: t)
      qed
    qed (use flag in \<open>auto simp: t\<close>)
  qed
  have "pf_ok files p'" using pok e2(3) by (simp add: pf_ok_def p')
  moreover have "list_all (pf_ok files) ps" using live ps by (simp add: live_def)
  ultimately have "live files t" using cov same by (simp add: live_def t)
  moreover have "work files t < work files s"
  proof (cases "PrefetchState_done p' f")
    case True
    then show ?thesis by (simp add: t work_def ps pf_work_def)
  next
    case False
    then have "bud' \<noteq> bud" using dn bud by auto
    then have "pf_work files p' < pf_work files p" using e1(2,3,4) e2(3,4,5) pb
      by (auto simp: pf_work_def p')
    then show ?thesis using False by (simp add: t work_def ps)
  qed
  ultimately show ?thesis using same by (simp add: t)
qed

lemma run_prefetches_live:
  assumes "sound compress decompress files shipped s" "live files s"
  shows "\<exists>t. run_prefetches compress bud s = Ok t \<and> live files t \<and> work files t \<le> work files s \<and>
    (prefetches s \<noteq> [] \<and> bud > 0 \<longrightarrow> work files t < work files s) \<and>
    prefetched_files t = prefetched_files s \<and> incoming t = incoming s"
  using assms
proof (induction "work files s" arbitrary: bud s rule: less_induct)
  case less
  show ?case
  proof (cases "prefetches s \<noteq> [] \<and> bud > 0")
    case True
    then obtain p ps where ps: "prefetches s = p # ps" by (metis list.exhaust)
    from prefetch_turn_total [OF less.prems ps] obtain bud' s1 where
      s1: "prefetch_turn compress p bud s = Ok (bud', s1)" by (metis surj_pair)
    from prefetch_turn_live [OF less.prems ps _ s1] True
    have l: "live files s1" "work files s1 < work files s" "prefetched_files s1 = prefetched_files s" "incoming s1 = incoming s" by simp_all
    have "sound compress decompress files shipped s1"
      using stream.prefetch_turn_P [OF less.prems(1) s1 ps] pf_ok_i32 [OF less.prems] by simp
    from less.hyps [OF l(2) this l(1), of bud'] obtain t where
      t: "run_prefetches compress bud' s1 = Ok t" "live files t" "work files t \<le> work files s1"
        "prefetched_files t = prefetched_files s1" "incoming t = incoming s1" by blast
    have "run_prefetches compress bud s = Ok t" using True s1 t(1) ps by (subst run_prefetches.simps) simp
    then show ?thesis using t l by auto
  next
    case False
    then have "run_prefetches compress bud s = Ok s" by (subst run_prefetches.simps) (simp only: if_False)
    with False less.prems show ?thesis by auto
  qed
qed

text \<open>A change of the server that keeps the flags and only adds prefetches keeps it live.\<close>

lemma live_mono:
  assumes "live files s" "\<And>i b. sent_flag s i b \<Longrightarrow> sent_flag t i b" "prefetched_files t = prefetched_files s"
    "set (prefetches s) \<subseteq> set (prefetches t)" "list_all (pf_ok files) (prefetches t)"
  shows "live files t"
  using assms by (fastforce simp: live_def)

lemma live_frame:
  "inc_files t = inc_files s \<Longrightarrow> prefetches t = prefetches s \<Longrightarrow> prefetched_files t = prefetched_files s \<Longrightarrow> live files t = live files s"
  by (simp add: live_def sent_flag_def)

lemma handle_request_live:
  assumes snd: "sound compress decompress files shipped s" and live: "live files s"
    and r: "is_i16 (rq_file_id r)" "is_i32 (rq_block_idx r)" and run: "handle_request compress r s = Ok t"
  shows "live files t"
  using run
proof (cases rule: handle_request_cases)
  case flags
  then show ?thesis using live live_frame [of t s files] by auto
next
  case (missing res s1)
  let ?i = "as_usize (rq_file_id r)"
  have len: "length (inc_files s) = length files" using snd by (auto simp: sound_def dest: stream_invD(2))
  then have il: "?i < length files" using missing(2) by simp
  note ids = loop_ids [OF snd il]
  have snd1: "sound compress decompress files shipped s1" by (rule sound_send [OF snd r missing(5)])
  note ids1 = loop_ids [OF snd1 il]
  have s1: "prefetches s1 = prefetches s" "prefetched_files s1 = prefetched_files s"
    using send_data_block_same [OF missing(5)] by (simp_all add: same_state_def)
  have mono: "sent_flag s i b \<Longrightarrow> sent_flag s1 i b" for i b
    using send_reliable [OF snd r, of True] missing(5) by auto
  have "length (sent_blocks (inc_files s1 ! ?i)) = length (sent_blocks (files ! ?i))" using ids1(4) by (simp add: same_file_def)
  moreover have "length (sent_blocks (files ! ?i)) < 2 ^ 31" using ids(5) by (simp add: file_ok_def)
  ultimately have new: "pf_ok files (PrefetchState_new ?i (inc_files s1 ! ?i) (rq_block_idx r + 1) 7)"
    using il missing(3) by (simp add: pf_ok_def PrefetchState_new_def as_i32_nat)
  obtain qs where t: "inc_files t = inc_files s1" "prefetched_files t = prefetched_files s" "prefetches t = qs @ prefetches s"
    "list_all (pf_ok files) qs"
    using missing(6) s1 new by (cases "res = Sent") (fastforce intro: that [of "[_]"], fastforce intro: that [of "[]"])
  have "list_all (pf_ok files) (prefetches s)" using live by (simp add: live_def)
  then show ?thesis using t mono sent_flag_frame [OF t(1)] by (intro live_mono [OF live]) simp_all
next
  case prefetch
  let ?i = "as_usize (rq_file_id r)"
  have il: "?i < length files" using prefetch(2) snd by (auto simp: sound_def dest: stream_invD(2))
  note ids = loop_ids [OF snd il]
  have len: "length (sent_blocks (inc_files s ! ?i)) = length (sent_blocks (files ! ?i))" "length (sent_blocks (files ! ?i)) < 2 ^ 31"
    using ids(4,5) by (simp_all add: same_file_def file_ok_def)
  let ?p = "PrefetchState_full ?i (inc_files s ! ?i)"
  have p: "?p = \<lparr>pf_file_index = ?i, pf_overall_index = 0, pf_overall_end = int (length (sent_blocks (files ! ?i))), pf_priority_index = 0\<rparr>"
    using len by (simp add: PrefetchState_full_def PrefetchState_new_def as_i32_nat saturating_add_i32_def)
  have fid: "rq_file_id r = int i \<Longrightarrow> ?i = i" for i
    using r(1) by (simp add: is_i16_def)
  have "sent_flag t i b \<or> (\<exists>q \<in> set (prefetches t). covers q i b)"
    if "reliable files" "int i \<in> set (prefetched_files t)" "i < length files" "b < length (sent_blocks (files ! i))" for i b
  proof (cases "int i \<in> set (prefetched_files s)")
    case True
    then have "sent_flag s i b \<or> (\<exists>q \<in> set (prefetches s). covers q i b)" using live that by (simp add: live_def)
    then show ?thesis using prefetch(3) by (auto simp: sent_flag_def)
  next
    case False
    then have "rq_file_id r = int i" using that(2) prefetch(3) by auto
    then have eq: "?i = i" by (rule fid)
    have "covers ?p i b" unfolding covers_def p using that(4) by (simp add: eq)
    then show ?thesis using prefetch(3) by simp
  qed
  moreover have "pf_ok files ?p" using il by (simp add: p pf_ok_def)
  ultimately show ?thesis using live prefetch(3) by (simp add: live_def)
qed

text \<open>The state in which a step reads its request.\<close>

definition before_request :: "IncrementalServer \<Rightarrow> IncrementalServer" where
  "before_request s =
     (let s = (if \<not> done_sent s \<and> prefetches s = [] \<and> all_files_sent s then (send_done s)\<lparr>done_sent := True\<rparr> else s)
      in if prefetches s = [] then inc_flush s else s)"

lemma before_request_frame [simp]:
  "inc_files (before_request s) = inc_files s" "prefetches (before_request s) = prefetches s"
  "prefetched_files (before_request s) = prefetched_files s" "incoming (before_request s) = incoming s"
  by (simp_all add: before_request_def Let_def send_done_def inc_send_def)

lemma before_request_done:
  "done_sent (before_request s) \<longleftrightarrow> done_sent s \<or> prefetches s = [] \<and> all_files_sent s"
  by (auto simp: before_request_def Let_def send_done_def inc_send_def)

lemma before_request_sound:
  "sound compress decompress files shipped s \<Longrightarrow> sound compress decompress files shipped (before_request s)"
  using stream.finish stream.flush by (auto simp: before_request_def Let_def)

lemma serve_step_eq:
  "serve_step compress s = (case take_request (before_request s) of (request, forward, s) \<Rightarrow>
     and_then (case request of Some r \<Rightarrow> handle_request compress r s | None \<Rightarrow> Ok s) (\<lambda>s.
       and_then (run_prefetching compress s) (\<lambda>s. Ok (\<not> destroyed s, forward, s))))"
  by (simp add: serve_step_def before_request_def Let_def)

section \<open>Sessions\<close>

lemma step_live:
  assumes snd: "sound compress decompress files shipped s" and live: "live files s"
    and run: "serve_step compress s = Ok (go, fwd, t)"
  shows "live files t"
proof -
  obtain req fw s1 where tk: "take_request (before_request s) = (req, fw, s1)" by (metis prod_cases3)
  note fr = take_request_frame [OF tk]
  have snd1: "sound compress decompress files shipped s1"
    using stream.frame [OF before_request_sound [OF snd] fr(1-4)] .
  have live1: "live files s1" using live live_frame [of s1 s files] fr by simp
  from run obtain s2 where s2: "(case req of Some r \<Rightarrow> handle_request compress r s1 | None \<Rightarrow> Ok s1) = Ok s2"
    "run_prefetching compress s2 = Ok t"
    unfolding serve_step_eq tk by auto
  have "sound compress decompress files shipped s2 \<and> live files s2"
  proof (cases req)
    case (Some r)
    note rg = take_request_range [OF tk [unfolded Some]]
    have h: "handle_request compress r s1 = Ok s2" using s2(1) Some by simp
    show ?thesis using stream.handle_request_P [OF snd1 pf_ok_i32 [OF snd1 live1] rg h]
      handle_request_live [OF snd1 live1 rg h] by simp
  qed (use snd1 live1 s2(1) in simp)
  then show ?thesis using run_prefetches_live [of compress decompress files shipped s2 128] s2(2)
    by (auto simp: run_prefetching_def)
qed

lemma session_live:
  assumes "session compress files s shipped" "length files \<le> 2 ^ 15" "list_all fresh_file files" "inverts compress decompress"
  shows "live files s"
  using assms(1)
proof induction
  case session_start
  then show ?case by (simp add: live_def IncrementalServer_new_def)
next
  case (session_feed s shipped data)
  then show ?case using live_frame [of "inc_feed data s" s files] by (simp add: inc_feed_def)
next
  case (session_step s shipped go forward t)
  then show ?case using step_live [OF _ session_step.IH session_step.hyps(2)] session_sound [OF session_step.hyps(1) assms(2-4)] by blast
next
  case (session_ship s shipped bs t)
  then show ?case using live_frame [of t s files] by (auto simp: drain_output_def Let_def)
qed

text \<open>A step with no request waiting: at most four bytes are buffered, too few for a magic number.\<close>

lemma take_nothing: "length (incoming s) \<le> 4 \<Longrightarrow> take_request s = (None, [], s)"
  by (simp add: take_request_def as_i32_nat scan_magic.simps)

lemma idle_step:
  assumes snd: "sound compress decompress files shipped s" and live: "live files s"
    and idle: "length (incoming s) \<le> 4"
  shows "\<exists>go t. serve_step compress s = Ok (go, [], t) \<and> work files t \<le> work files s \<and>
    (prefetches s \<noteq> [] \<longrightarrow> work files t < work files s) \<and> prefetched_files t = prefetched_files s \<and> incoming t = incoming s \<and>
    (prefetches s = [] \<longrightarrow> t = before_request s)"
proof -
  let ?u = "before_request s"
  have u: "sound compress decompress files shipped ?u" "live files ?u"
    using before_request_sound [OF snd] live live_frame [of ?u s files] by simp_all
  from run_prefetches_live [OF u, of 128] obtain t where
    t: "run_prefetches compress 128 ?u = Ok t" "work files t \<le> work files ?u" "prefetches ?u \<noteq> [] \<longrightarrow> work files t < work files ?u"
      "prefetched_files t = prefetched_files ?u" "incoming t = incoming ?u" by auto
  have "work files ?u = work files s" by (simp add: work_def)
  moreover have "t = ?u" if "prefetches s = []" using t(1) that by (subst (asm) run_prefetches.simps) simp
  ultimately show ?thesis using t idle by (simp add: serve_step_eq take_nothing run_prefetching_def)
qed

fun serve_steps :: "(bytes \<Rightarrow> bytes) \<Rightarrow> nat \<Rightarrow> IncrementalServer \<Rightarrow> (IncrementalServer, unit) outcome" where
  "serve_steps compress 0 s = Ok s"
| "serve_steps compress (Suc n) s = and_then (serve_step compress s) (\<lambda>(go, forward, t). serve_steps compress n t)"

lemma drained_all_sent:
  assumes snd: "sound compress decompress files shipped s" and live: "live files s" and "prefetches s = []" and rel: "reliable files"
    and all: "\<forall>i < length files. int i \<in> set (prefetched_files s)"
  shows "all_files_sent s"
proof -
  from snd obtain log where log: "list_all file_ok files" "stream_inv decompress files shipped s log" by (auto simp: sound_def)
  have "list_all id (sent_blocks (inc_files s ! i))" if "i < length files" for i
  proof -
    have "sent_flag s i b" if "b < length (sent_blocks (files ! i))" for b
      using live all assms(3) rel that \<open>i < length files\<close> by (auto simp: live_def)
    then show ?thesis using stream_invD(5) [OF log(2) that] by (auto simp: list_all_length sent_flag_def same_file_def)
  qed
  then have "all_sent s" using stream_invD(2) [OF log(2)] by (simp add: all_sent_def list_all_length)
  then show ?thesis using all_files_sent_flags [OF log(2,1)] by simp
qed

lemma completes:
  assumes files: "length files \<le> 2 ^ 15" "list_all fresh_file files" "inverts compress decompress" "reliable files"
    and "session compress files s shipped" "length (incoming s) \<le> 4" "\<forall>i < length files. int i \<in> set (prefetched_files s)"
  shows "\<exists>n t. n \<le> work files s + 1 \<and> serve_steps compress n s = Ok t \<and> session compress files t shipped \<and> done_sent t"
  using assms(5-7)
proof (induction "work files s" arbitrary: s rule: less_induct)
  case less
  have snd: "sound compress decompress files shipped s" using session_sound [OF less.prems(1) files(1-3)] by simp
  have live: "live files s" by (rule session_live [OF less.prems(1) files(1-3)])
  from idle_step [OF snd live less.prems(2)] obtain go t where
    t: "serve_step compress s = Ok (go, [], t)" "prefetches s \<noteq> [] \<longrightarrow> work files t < work files s"
      "prefetched_files t = prefetched_files s" "incoming t = incoming s" "prefetches s = [] \<longrightarrow> t = before_request s" by blast
  have st: "session compress files t shipped" by (rule session_step [OF less.prems(1) t(1)])
  show ?case
  proof (cases "prefetches s = []")
    case True
    then have "done_sent t" using t(5) drained_all_sent [OF snd live True files(4) less.prems(3)] by (simp add: before_request_done)
    then show ?thesis using t(1) st by (intro exI [of _ 1] exI [of _ t]) simp
  next
    case False
    with t less.hyps [of t] st less.prems obtain n u where "n \<le> work files t + 1" "serve_steps compress n t = Ok u"
      "session compress files u shipped" "done_sent u" by auto
    then show ?thesis using t(1,2) False by (intro exI [of _ "Suc n"] exI [of _ u]) simp
  qed
qed

lemma data_keys_range:
  assumes "list_all (block_ok decompress files) log" and "(i, b) \<in> set (data_keys log)"
  shows "\<exists>j k. i = int j \<and> b = int k \<and> j < length files \<and> k < length (sent_blocks (files ! j))"
proof -
  from assms(2) obtain h p where h: "(h, p) \<in> set log" "rh_block_type h = TYPE_DATA" "rh_file_id h \<noteq> -1" "i = rh_file_id h" "b = rh_block_idx h"
    by (auto simp: data_keys_def)
  moreover have "(h, p) \<noteq> end_block" using h(3) by (auto simp: end_block_def done_marker_def)
  ultimately have "0 \<le> i \<and> i < int (length files) \<and> 0 \<le> b \<and> nat b < length (sent_blocks (files ! nat i))"
    using assms(1) by (auto simp: list_all_iff block_ok_def Let_def)
  then show ?thesis by (intro exI [of _ "nat i"] exI [of _ "nat b"]) (auto simp: nat_less_iff)
qed

lemma completes_log:
  assumes "session compress files s shipped" and "length files \<le> 2 ^ 15" and "list_all fresh_file files"
    and "inverts compress decompress" and "reliable files"
    and "length (incoming s) \<le> 4" and "\<forall>i < length files. int i \<in> set (prefetched_files s)"
  shows "\<exists>n t log. n \<le> work files s + 1 \<and> serve_steps compress n s = Ok t \<and>
     receive (shipped @ fst (drain_output t)) = Some log \<and> distinct (data_keys log) \<and>
     set (data_keys log) = {(int i, int b) | i b. i < length files \<and> b < length (sent_blocks (files ! i))} \<and>
     list_all (block_ok decompress files) log \<and> log \<noteq> [] \<and> last log = end_block"
proof -
  from completes [OF assms(2-5,1,6,7)] obtain n t where
    t: "n \<le> work files s + 1" "serve_steps compress n s = Ok t" "session compress files t shipped" "done_sent t" by blast
  obtain bs u where d: "drain_output t = (bs, u)" by fastforce
  from session_sound [OF t(3) assms(2-4)] obtain log where log: "stream_inv decompress files shipped t log" "end_ok t log"
    by (auto simp: sound_def)
  have ok: "list_all (block_ok decompress files) log" "distinct (data_keys log)"
    using stream_invD(4) [OF log(1)] by (simp_all add: log_ok_def)
  have "(int i, int b) \<in> set (data_keys log)" if "i < length files" "b < length (sent_blocks (files ! i))" for i b
  proof -
    have "sent_flag t i b" using log(2) t(4) that stream_invD(2,5) [OF log(1)]
      by (auto simp: end_ok_def all_sent_def list_all_length sent_flag_def same_file_def)
    then show ?thesis using sent_flag_keys [OF log(1)] by simp
  qed
  then have "set (data_keys log) = {(int i, int b) | i b. i < length files \<and> b < length (sent_blocks (files ! i))}"
    using data_keys_range [OF ok(1)] by auto
  moreover have "receive (shipped @ bs) = Some log" by (rule emitted_drain(2) [OF stream_invD(1) [OF log(1)] d])
  ultimately show ?thesis using t(1,2,4) d ok log(2)
    by (intro exI [of _ n] exI [of _ t] exI [of _ log]) (simp add: end_ok_def)
qed

text \<open>
  C4: The installation completes. Once the device has asked for every file to be prefetched, and whatever
  else happened in the session before, the server needs at most as many further steps as there is work
  in its queue, plus one, none of them panics, and what it has shipped by then is every block of every
  file, exactly once and with its contents, closed by the end marker.\<close>

theorem incremental_completes:
  assumes "session compress files s shipped" and "length files \<le> 2 ^ 15" and "list_all fresh_file files"
    and "inverts compress decompress" and "reliable files"
    and "length (incoming s) \<le> 4" and "\<forall>i < length files. int i \<in> set (prefetched_files s)"
  shows "\<exists>n t log. n \<le> work files s + 1 \<and> serve_steps compress n s = Ok t \<and>
     receive (shipped @ fst (drain_output t)) = Some log \<and> distinct (data_keys log) \<and>
     set (data_keys log) = {(int i, int b) | i b. i < length files \<and> b < length (sent_blocks (files ! i))} \<and>
     list_all (block_ok decompress files) log \<and> log \<noteq> [] \<and> last log = end_block"
  using assms by (rule completes_log)

theorem incremental_completes_witness:
  "\<exists>n t log. serve_steps (Cons 0) n sample_state = Ok t \<and> receive ([] @ fst (drain_output t)) = Some log \<and>
     (0, 1) \<in> set (data_keys log) \<and> last log = end_block"
proof -
  have "reliable [sample_file]" by (simp add: reliable_def sample_file_def sample_source_def ServerFile_new_def)
  moreover have "\<forall>i < length [sample_file]. int i \<in> set (prefetched_files sample_state)" "length (incoming sample_state) \<le> 4"
    by (simp_all add: sample_facts)
  moreover have "length (sent_blocks (sample_file)) = 2" by code_simp
  ultimately show ?thesis
    using incremental_completes [OF sample_facts(1,4,2,3)] by fastforce
qed

section \<open>The request that panics\<close>

lemma take_request_incoming: "incoming t = incoming s \<Longrightarrow> fst (take_request t) = fst (take_request s)"
  by (auto simp: take_request_def Let_def split_def)

lemma handle_request_panic:
  assumes snd: "sound compress decompress files shipped s" and r: "is_i16 (rq_file_id r)" "is_i32 (rq_block_idx r)"
  shows "handle_request compress r s = Panic \<longleftrightarrow>
    rq_type r = PREFETCH \<and> rq_file_id r \<notin> set (prefetched_files s) \<and> int (length files) \<le> rq_file_id r"
proof -
  have len: "length (inc_files s) = length files" using snd by (auto simp: sound_def dest: stream_invD(2))
  obtain res t where send: "send_data_block compress (rq_file_id r) (rq_block_idx r) True s = Ok (res, t)"
    using send_reliable [OF snd r, of True] by blast
  show ?thesis
  proof (cases "rq_type r = PREFETCH \<and> 0 \<le> rq_file_id r")
    case True
    then have "as_usize (rq_file_id r) = nat (rq_file_id r)" using r(1) by (simp add: is_i16_def)
    then show ?thesis using True len by (auto simp: handle_request_def request_kinds Let_def index_def split: if_splits)
  next
    case False
    then have "handle_request compress r s \<noteq> Panic"
      by (cases res) (auto simp: handle_request_def Let_def send request_kinds)
    then show ?thesis using False by auto
  qed
qed

text \<open>
  C29: The only panic. In any session, with sources that may fail, a step of the server panics exactly
  when the request it takes up asks to prefetch a file whose number is not a file of the session (and was
  not asked for before); every other request, in range or not, is answered without a panic.\<close>

theorem serve_step_panics:
  assumes "session compress files s shipped" and "length files \<le> 2 ^ 15" and "list_all fresh_file files"
    and "inverts compress decompress"
  shows "serve_step compress s = Panic \<longleftrightarrow>
    (case fst (take_request s) of None \<Rightarrow> False
     | Some r \<Rightarrow> rq_type r = PREFETCH \<and> rq_file_id r \<notin> set (prefetched_files s) \<and> int (length files) \<le> rq_file_id r)"
proof -
  have snd: "sound compress decompress files shipped s" using session_sound [OF assms] by simp
  have live: "live files s" by (rule session_live [OF assms])
  obtain req fw s1 where tk: "take_request (before_request s) = (req, fw, s1)" by (metis prod_cases3)
  have req: "fst (take_request s) = req" using take_request_incoming [of "before_request s" s] tk by simp
  note fr = take_request_frame [OF tk]
  have snd1: "sound compress decompress files shipped s1" using stream.frame [OF before_request_sound [OF snd] fr(1-4)] .
  have live1: "live files s1" using live live_frame [of s1 s files] fr by simp
  have run: "run_prefetching compress s2 \<noteq> Panic" if "sound compress decompress files shipped s2" "live files s2" for s2
    using run_prefetches_live [OF that, of 128] by (auto simp: run_prefetching_def)
  show ?thesis
  proof (cases req)
    case None
    then show ?thesis using run [OF snd1 live1] by (auto simp: serve_step_eq tk req and_then_eq_Panic)
  next
    case (Some r)
    note rg = take_request_range [OF tk [unfolded Some]]
    have "run_prefetching compress s2 \<noteq> Panic" if "handle_request compress r s1 = Ok s2" for s2
      using stream.handle_request_P [OF snd1 pf_ok_i32 [OF snd1 live1] rg that] handle_request_live [OF snd1 live1 rg that] run by blast
    then have "serve_step compress s = Panic \<longleftrightarrow> handle_request compress r s1 = Panic"
      by (auto simp: serve_step_eq tk Some and_then_eq_Panic)
    then show ?thesis using handle_request_panic [OF snd1 rg] fr(6) by (simp add: req Some)
  qed
qed

theorem serve_step_panics_witness:
  "serve_step (Cons 0) (inc_feed [0x49, 0x4e, 0x43, 0x52, 0, 2, 0, 1, 0, 0, 0, 0] (IncrementalServer_new [sample_file])) = Panic"
proof -
  let ?s = "inc_feed [0x49, 0x4e, 0x43, 0x52, 0, 2, 0, 1, 0, 0, 0, 0] (IncrementalServer_new [sample_file])"
  have "fst (take_request ?s) = Some \<lparr>rq_type = 2, rq_file_id = 1, rq_block_idx = 0\<rparr>" "prefetched_files ?s = []"
    by (simp_all add: take_request_def inc_feed_def IncrementalServer_new_def is_i32_def scan_magic.simps
      u32_from_be_def u32_from_le_def INCR_MAGIC_def RequestCommand_decode_def i16_from_be_def u16_from_be_def u16_from_le_def
      i32_from_be_def i32_from_le_def)
  then show ?thesis
    using serve_step_panics [OF session_feed [OF session_start] sample_facts(4,2,3)] by (simp add: PREFETCH_def)
qed

end
