(* ===== verification/Incremental_Local.thy ===== *)
theory Incremental_Local
  imports Incremental_Liveness
begin

text \<open>
  Serving files of the host: \<open>ServerFile::open_local\<close>, the block source over a file and its
  \<open>.idsig\<close>, and \<open>serve\<close>'s list of files (\<open>incremental_server.rs\<close>). The file system is a
  function from paths to contents; the files do not change while they are served and their reads do not
  fail.
\<close>

section \<open>A file and its tree\<close>

definition IDSIG_EXTENSION :: rstr where "IDSIG_EXTENSION = str ''.idsig''"

text \<open>\<open>FileExt::read_at\<close> on a regular file: what is left from the offset on, up to the length.\<close>

definition local_read_at :: "bytes \<Rightarrow> nat \<Rightarrow> nat \<Rightarrow> bytes" where
  "local_read_at file offset len = take len (drop offset file)"

definition LocalFileSource :: "bytes \<Rightarrow> bytes option \<Rightarrow> nat \<Rightarrow> BlockSource" where
  "LocalFileSource file tree_file tree_offset =
     \<lparr>src_data = (\<lambda>block_idx. Some (local_read_at file (as_usize block_idx * nat BLOCK_SIZE) (nat BLOCK_SIZE))),
      src_tree = (\<lambda>block_idx. case tree_file of
          Some tree \<Rightarrow> Some (local_read_at tree (tree_offset + as_usize block_idx * nat BLOCK_SIZE) (nat BLOCK_SIZE))
        | None \<Rightarrow> Some []),
      src_has_tree = (tree_file \<noteq> None)\<rparr>"

datatype OpenError = OpenFailed rstr | VerityTreeSizeMismatch rstr int int

definition open_local ::
  "(bytes \<Rightarrow> zip_entry option list option) \<Rightarrow> (rstr \<Rightarrow> bytes option) \<Rightarrow> rstr \<Rightarrow> (ServerFile, OpenError) outcome" where
  "open_local open_zip fs filepath =
     (case fs filepath of
        None \<Rightarrow> Err (OpenFailed filepath)
      | Some file \<Rightarrow>
          let fsize = int (length file);
              signature_path = filepath @ IDSIG_EXTENSION
          in and_then (case fs signature_path of
               Some sig \<Rightarrow>
                 (case skip_id_sig_headers ([Seg sig], 0) of
                    Ok (offset, tree_size) \<Rightarrow>
                      let expected = verity_tree_size_for_file fsize in
                      if tree_size \<noteq> expected then Err (VerityTreeSizeMismatch signature_path tree_size expected)
                      else Ok (Some sig, offset)
                  | Err _ \<Rightarrow> Ok (None, 0)
                  | Panic \<Rightarrow> Panic)
             | None \<Rightarrow> Ok (None, 0)) (\<lambda>(tree_file, tree_offset).
               let prio = priority_blocks_for_file open_zip filepath file fsize;
                   src = LocalFileSource file tree_file tree_offset
               in Ok ((ServerFile_new filepath fsize src)\<lparr>priority_blocks := prio\<rparr>)))"

fun open_files ::
  "(bytes \<Rightarrow> zip_entry option list option) \<Rightarrow> (rstr \<Rightarrow> bytes option) \<Rightarrow> rstr list \<Rightarrow> (ServerFile list, OpenError) outcome" where
  "open_files open_zip fs [] = Ok []"
| "open_files open_zip fs (path # paths) =
     and_then (open_local open_zip fs path) (\<lambda>f. and_then (open_files open_zip fs paths) (\<lambda>files. Ok (f # files)))"

section \<open>Opened files are fit to be served\<close>

lemma append_blocks_i32:
  "is_i32 start \<Longrightarrow> list_all is_i32 bs \<Longrightarrow> list_all is_i32 (append_blocks start count bs)"
  by (auto simp: append_blocks_def list_all_iff)

lemma offset_to_block_index_i32 [simp]: "is_i32 (offset_to_block_index x)"
  by (simp add: offset_to_block_index_def)

lemma zip_priority_blocks_i32: "list_all is_i32 (zip_priority_blocks a b)"
proof -
  have z: "is_i32 0" by (simp add: is_i32_def)
  have "is_i32 (offset_to_block_index b - 17 + 1)" if "offset_to_block_index b - offset_to_block_index a + 1 > 17"
    using that offset_to_block_index_i32 [of a] offset_to_block_index_i32 [of b] by (simp add: is_i32_def del: offset_to_block_index_i32)
  then show ?thesis using z by (auto simp: zip_priority_blocks_def Let_def inc_sizes intro!: append_blocks_i32)
qed

lemma entry_priority_blocks_i32: "list_all is_i32 bs \<Longrightarrow> list_all is_i32 (entry_priority_blocks e bs)"
  by (simp add: entry_priority_blocks_def Let_def append_blocks_i32)

lemma installation_priority_blocks_i32: "list_all is_i32 (installation_priority_blocks archive)"
proof -
  have "list_all is_i32 bs \<Longrightarrow> list_all is_i32 (foldl (\<lambda>blocks e. case e of None \<Rightarrow> blocks | Some e \<Rightarrow> entry_priority_blocks e blocks) bs entries)"
    for bs entries
    by (induction entries arbitrary: bs) (auto simp: entry_priority_blocks_i32 split: option.splits)
  then show ?thesis by (simp add: installation_priority_blocks_def split: option.splits)
qed

lemma priority_blocks_i32: "list_all is_i32 (priority_blocks_for_file open_zip path file n)"
  using zip_priority_blocks_i32 installation_priority_blocks_i32
  by (auto simp: priority_blocks_for_file_def list_all_iff unduplicate_props split: option.splits)

text \<open>What an opened file is.\<close>

definition serves :: "bytes \<Rightarrow> ServerFile \<Rightarrow> bool" where
  "serves file f \<longleftrightarrow> fresh_file f \<and> (\<forall>b. src_data (sf_source f) b \<noteq> None \<and> src_tree (sf_source f) b \<noteq> None) \<and>
     length (sent_blocks f) = (length file + 4095) div 4096 \<and>
     (\<forall>b < length (sent_blocks f). src_data (sf_source f) (int b) = Some (take 4096 (drop (b * 4096) file)))"

lemma LocalFileSource_sizes:
  "src_data (LocalFileSource file tree off) b = Some d \<Longrightarrow> length d \<le> 4096"
  "src_tree (LocalFileSource file tree off) b = Some d \<Longrightarrow> length d \<le> 4096"
  by (auto simp: LocalFileSource_def local_read_at_def inc_sizes split: option.splits)

lemma open_local_serves:
  assumes "open_local open_zip fs path = Ok f"
  shows "\<exists>content. fs path = Some content \<and> (length content \<le> (2 ^ 31 - 1) * 4096 \<longrightarrow> serves content f)"
proof -
  from assms obtain content tree off where fs: "fs path = Some content"
    and f: "f = (ServerFile_new path (int (length content)) (LocalFileSource content tree off))
      \<lparr>priority_blocks := priority_blocks_for_file open_zip path content (int (length content))\<rparr>"
    by (auto simp: open_local_def Let_def split: option.splits)
  have "serves content f" if len: "length content \<le> (2 ^ 31 - 1) * 4096"
  proof -
    have "fresh_file f"
      unfolding fresh_file_def f
      by (intro exI conjI, rule refl) (use len in \<open>auto simp: priority_blocks_i32 dest: LocalFileSource_sizes\<close>)
    moreover have "is_i32 (int ((length content + 4095) div 4096))" using len by (simp add: is_i32_def)
    then have "num_bytes_to_num_blocks (int (length content)) = int ((length content + 4095) div 4096)"
      by (simp add: num_bytes_to_num_blocks_def inc_sizes zdiv_int add.commute)
    then have n: "length (sent_blocks f) = (length content + 4095) div 4096" by (simp add: f ServerFile_new_def)
    moreover have "as_usize (int b) = b" if "b < (length content + 4095) div 4096" for b
      using that len by (intro as_usize_nat) simp
    ultimately show ?thesis
      unfolding serves_def by (simp add: n f ServerFile_new_def LocalFileSource_def local_read_at_def inc_sizes split: option.splits)
  qed
  with fs show ?thesis by blast
qed

section \<open>Putting a file together\<close>

text \<open>The contents of a block in a stream, and the file that the blocks of the stream make.\<close>

definition block_data :: "(bytes \<Rightarrow> bytes option) \<Rightarrow> block list \<Rightarrow> int \<Rightarrow> int \<Rightarrow> bytes option" where
  "block_data decompress log i b =
     (case find (\<lambda>(h, p). rh_block_type h = TYPE_DATA \<and> rh_file_id h = i \<and> rh_block_idx h = b) log of
        None \<Rightarrow> None
      | Some (h, p) \<Rightarrow> if rh_compression_type h = COMPRESSION_LZ4 then decompress p else Some p)"

definition assemble :: "(bytes \<Rightarrow> bytes option) \<Rightarrow> block list \<Rightarrow> int \<Rightarrow> nat \<Rightarrow> bytes" where
  "assemble decompress log i n = concat (map (\<lambda>b. the (block_data decompress log i (int b))) [0..<n])"

lemma block_data_source:
  assumes ok: "list_all (block_ok decompress files) log" and key: "(int i, int b) \<in> set (data_keys log)"
  shows "block_data decompress log (int i) (int b) = src_data (sf_source (files ! i)) (int b)"
proof -
  let ?P = "\<lambda>(h, p). rh_block_type h = TYPE_DATA \<and> rh_file_id h = int i \<and> rh_block_idx h = int b"
  from key have "find ?P log \<noteq> None" by (auto simp: data_keys_def find_None_iff)
  then obtain h p where f: "find ?P log = Some (h, p)" by auto
  then have hp: "(h, p) \<in> set log" "rh_block_type h = TYPE_DATA" "rh_file_id h = int i" "rh_block_idx h = int b"
    by (auto simp: find_Some_iff in_set_conv_nth)
  moreover have "(h, p) \<noteq> end_block" using hp(3) by (auto simp: end_block_def done_marker_def)
  ultimately have "src_data (sf_source (files ! i)) (int b) = (if rh_compression_type h = COMPRESSION_LZ4 then decompress p else Some p)"
    using ok by (auto simp: list_all_iff block_ok_def Let_def)
  then show ?thesis by (simp add: block_data_def f)
qed

lemma concat_blocks: "concat (map (\<lambda>b. take 4096 (drop (b * 4096) xs)) [0..<n]) = take (n * 4096) xs"
proof (induction n)
  case (Suc n)
  have "take (Suc n * 4096) xs = take (n * 4096) xs @ take 4096 (drop (n * 4096) xs)"
    using take_add [of "n * 4096" 4096 xs] by (simp add: add.commute)
  with Suc show ?case by simp
qed simp

lemma assemble_file:
  assumes "serves content f" "f = files ! i" "i < length files" "list_all (block_ok decompress files) log"
    and "set (data_keys log) = {(int i, int b) | i b. i < length files \<and> b < length (sent_blocks (files ! i))}"
  shows "assemble decompress log (int i) (length (sent_blocks f)) = content"
proof -
  let ?n = "length (sent_blocks f)"
  have "the (block_data decompress log (int i) (int b)) = take 4096 (drop (b * 4096) content)" if "b < ?n" for b
    using block_data_source [OF assms(4), of i b] assms that by (simp add: serves_def)
  then have "assemble decompress log (int i) ?n = concat (map (\<lambda>b. take 4096 (drop (b * 4096) content)) [0..<?n])"
    unfolding assemble_def by (intro arg_cong [where f = concat] map_cong) auto
  also have "\<dots> = take (?n * 4096) content" by (rule concat_blocks)
  also have "\<dots> = content" using assms(1) by (simp add: serves_def)
  finally show ?thesis .
qed

lemma open_files_serves:
  assumes "open_files open_zip fs paths = Ok files"
    and "\<forall>i < length paths. \<forall>content. fs (paths ! i) = Some content \<longrightarrow> length content \<le> (2 ^ 31 - 1) * 4096"
  shows "length files = length paths \<and> (\<forall>i < length paths. \<exists>content. fs (paths ! i) = Some content \<and> serves content (files ! i))"
  using assms
proof (induction paths arbitrary: files)
  case (Cons path paths)
  from Cons.prems(1) obtain f fs' where f: "open_local open_zip fs path = Ok f" "open_files open_zip fs paths = Ok fs'" "files = f # fs'"
    by auto
  from open_local_serves [OF f(1)] Cons.prems(2) obtain content where "fs path = Some content" "serves content f" by fastforce
  moreover have "length fs' = length paths \<and> (\<forall>i < length paths. \<exists>content. fs (paths ! i) = Some content \<and> serves content (fs' ! i))"
    using Cons.prems(2) by (intro Cons.IH [OF f(2)]) fastforce
  ultimately show ?case using f(3) by (auto simp: nth_Cons split: nat.splits)
qed simp

text \<open>
  C7: Files arrive as they are. When the files of an installation are opened from the file system and
  served, and the device asked for each of them, the server finishes, and the file that the device puts
  together from the data blocks it was sent is the file of the host, byte for byte.\<close>

theorem incremental_install_delivers:
  assumes "open_files open_zip fs paths = Ok files" and "length paths \<le> 2 ^ 15"
    and "\<forall>i < length paths. \<forall>content. fs (paths ! i) = Some content \<longrightarrow> length content \<le> (2 ^ 31 - 1) * 4096"
    and "inverts compress decompress" and "session compress files s shipped"
    and "length (incoming s) \<le> 4" and "\<forall>i < length files. int i \<in> set (prefetched_files s)"
  shows "\<exists>n t log. serve_steps compress n s = Ok t \<and> receive (shipped @ fst (drain_output t)) = Some log \<and> last log = end_block \<and>
     (\<forall>i < length paths. fs (paths ! i) = Some (assemble decompress log (int i) (length (sent_blocks (files ! i)))))"
proof -
  have serv: "length files = length paths" "\<forall>i < length paths. \<exists>content. fs (paths ! i) = Some content \<and> serves content (files ! i)"
    using open_files_serves [OF assms(1,3)] by blast+
  have "list_all fresh_file files" "reliable files"
    using serv by (fastforce simp: list_all_length serves_def reliable_def)+
  moreover have "length files \<le> 2 ^ 15" using serv(1) assms(2) by simp
  ultimately obtain n t log where r: "serve_steps compress n s = Ok t" "receive (shipped @ fst (drain_output t)) = Some log"
    "set (data_keys log) = {(int i, int b) | i b. i < length files \<and> b < length (sent_blocks (files ! i))}"
    "list_all (block_ok decompress files) log" "last log = end_block"
    using completes_log [OF assms(5) _ _ assms(4) _ assms(6,7)] by blast
  have "fs (paths ! i) = Some (assemble decompress log (int i) (length (sent_blocks (files ! i))))" if "i < length paths" for i
    using serv that assemble_file [OF _ refl _ r(4,3)] by auto
  then show ?thesis using r by blast
qed

definition sample_fs :: "rstr \<Rightarrow> bytes option" where
  "sample_fs path = (if path = str ''a.bin'' then Some [1, 2, 3] else None)"

definition sample_local :: ServerFile where
  "sample_local = ServerFile_new (str ''a.bin'') 3 (LocalFileSource [1, 2, 3] None 0)"

lemma sample_open: "open_files (\<lambda>_. None) sample_fs [str ''a.bin''] = Ok [sample_local]"
proof -
  have "str ''a.bin'' @ IDSIG_EXTENSION \<noteq> str ''a.bin''" by (simp add: IDSIG_EXTENSION_def str_def)
  moreover have "priority_blocks_for_file (\<lambda>_. None) (str ''a.bin'') [1, 2, 3] 3 = []" by code_simp
  ultimately show ?thesis
    by (simp add: open_local_def sample_fs_def Let_def sample_local_def) (simp add: ServerFile_new_def)
qed

lemma sample_local_step:
  "case and_then (handle_request (Cons 0) \<lparr>rq_type = 2, rq_file_id = 0, rq_block_idx = 0\<rparr> (IncrementalServer_new [sample_local])) (\<lambda>s.
       run_prefetching (Cons 0) s) of
     Ok t \<Rightarrow> incoming t = [] \<and> prefetched_files t = [0] \<and> sent_blocks (inc_files t ! 0) = [True] | _ \<Rightarrow> False"
  by code_simp

theorem incremental_install_delivers_witness:
  "\<exists>s n t log. session (Cons 0) [sample_local] s [] \<and> serve_steps (Cons 0) n s = Ok t \<and> receive ([] @ fst (drain_output t)) = Some log \<and>
     Some [1, 2, 3] = Some (assemble (\<lambda>d. Some (tl d)) log 0 (length (sent_blocks sample_local)))"
proof -
  let ?s = "inc_feed sample_request (IncrementalServer_new [sample_local])"
  have "\<not> all_files_sent (IncrementalServer_new [sample_local])" by code_simp
  then have "\<not> all_files_sent ?s" by (simp add: all_files_sent_def inc_feed_def)
  moreover have "inc_flush ?s = ?s" "prefetches ?s = []" by (simp_all add: inc_flush_def inc_feed_def IncrementalServer_new_def)
  ultimately have step: "serve_step (Cons 0) ?s =
      and_then (handle_request (Cons 0) \<lparr>rq_type = 2, rq_file_id = 0, rq_block_idx = 0\<rparr> (IncrementalServer_new [sample_local])) (\<lambda>s.
       and_then (run_prefetching (Cons 0) s) (\<lambda>s. Ok (\<not> destroyed s, [], s)))"
    by (simp add: serve_step_def sample_take)
  from sample_local_step obtain s where s: "serve_step (Cons 0) ?s = Ok (\<not> destroyed s, [], s)" "incoming s = []" "prefetched_files s = [0]"
    unfolding step by (auto split: outcome.splits)
  have ses: "session (Cons 0) [sample_local] s []" by (rule session_step [OF session_feed [OF session_start] s(1)])
  have "\<forall>i < length [str ''a.bin'']. \<forall>content. sample_fs ([str ''a.bin''] ! i) = Some content \<longrightarrow> length content \<le> (2 ^ 31 - 1) * 4096"
    by (simp add: sample_fs_def)
  from incremental_install_delivers [OF sample_open _ this sample_facts(3) ses] s(2,3) obtain n t log where
    "serve_steps (Cons 0) n s = Ok t" "receive ([] @ fst (drain_output t)) = Some log"
    "Some [1, 2, 3] = Some (assemble (\<lambda>d. Some (tl d)) log 0 (length (sent_blocks sample_local)))"
    by (auto simp: sample_fs_def)
  with ses show ?thesis by blast
qed

end
