(* ===== verification/Incremental_Requests.thy ===== *)
theory Incremental_Requests
  imports Incremental_Server
begin

text \<open>
  Requests in the bytes of the device. \<open>skim\<close> says, byte by byte, which requests a stream contains and
  which of its bytes are output to be forwarded; whatever pieces the stream arrives in and whenever the
  server looks for a request, \<open>take_request\<close> finds these requests and forwards these bytes, in this
  order.
\<close>

section \<open>The requests of a stream\<close>

datatype event = Request RequestCommand | Forward u8

function skim :: "bytes \<Rightarrow> event list \<times> bytes" where
  "skim xs =
     (if length xs \<le> 4 then ([], xs)
      else if u32_from_be (take 4 xs) = INCR_MAGIC then
        if length xs < 12 then ([], xs)
        else case skim (drop 12 xs) of (es, r) \<Rightarrow> (Request (the (RequestCommand_decode (take 8 (drop 4 xs)))) # es, r)
      else case skim (tl xs) of (es, r) \<Rightarrow> (Forward (hd xs) # es, r))"
  by pat_completeness auto
termination by (relation "measure length") auto

declare skim.simps [simp del]

lemma skim_cases:
  obtains (few) "length xs \<le> 4" "skim xs = ([], xs)"
  | (cut) "4 < length xs" "u32_from_be (take 4 xs) = INCR_MAGIC" "length xs < 12" "skim xs = ([], xs)"
  | (req) "u32_from_be (take 4 xs) = INCR_MAGIC" "12 \<le> length xs"
      "skim xs = (Request (the (RequestCommand_decode (take 8 (drop 4 xs)))) # fst (skim (drop 12 xs)), snd (skim (drop 12 xs)))"
  | (fwd) "4 < length xs" "u32_from_be (take 4 xs) \<noteq> INCR_MAGIC"
      "skim xs = (Forward (hd xs) # fst (skim (tl xs)), snd (skim (tl xs)))"
  using skim.simps [of xs] by (auto simp: split_def split: if_splits)

text \<open>Bytes that arrive later do not change what was already said about the earlier ones.\<close>

lemma skim_append:
  "skim (xs @ ys) = (fst (skim xs) @ fst (skim (snd (skim xs) @ ys)), snd (skim (snd (skim xs) @ ys)))"
proof (induction "length xs" arbitrary: xs rule: less_induct)
  case less
  show ?case
  proof (cases xs rule: skim_cases)
    case req
    have "skim (xs @ ys) = (Request (the (RequestCommand_decode (take 8 (drop 4 (xs @ ys))))) # fst (skim (drop 12 (xs @ ys))),
        snd (skim (drop 12 (xs @ ys))))"
      by (cases "xs @ ys" rule: skim_cases) (use req in simp_all)
    moreover have "take 8 (drop 4 (xs @ ys)) = take 8 (drop 4 xs)" "drop 12 (xs @ ys) = drop 12 xs @ ys" using req(2) by simp_all
    ultimately show ?thesis using less [of "drop 12 xs"] req by simp
  next
    case fwd
    then have ne: "xs \<noteq> []" by auto
    have "skim (xs @ ys) = (Forward (hd (xs @ ys)) # fst (skim (tl (xs @ ys))), snd (skim (tl (xs @ ys))))"
      by (cases "xs @ ys" rule: skim_cases) (use fwd in simp_all)
    then show ?thesis using less [of "tl xs"] fwd ne by simp
  qed simp_all
qed

section \<open>Looking for a request\<close>

lemma scan_magic_skim:
  assumes "k \<le> length xs" and "scan_magic xs (int (length xs)) (int k) = (c, found)"
  shows "\<exists>m. c = int m \<and> k \<le> m \<and> m \<le> length xs \<and>
    fst (skim (drop k xs)) = map Forward (take (m - k) (drop k xs)) @ fst (skim (drop m xs)) \<and>
    snd (skim (drop k xs)) = snd (skim (drop m xs)) \<and>
    (if found then m + 4 < length xs \<and> u32_from_be (take 4 (drop m xs)) = INCR_MAGIC else length xs \<le> m + 4)"
  using assms
proof (induction "length xs - k" arbitrary: k rule: less_induct)
  case less
  show ?case
  proof (cases "k + 4 < length xs \<and> u32_from_be (take 4 (drop k xs)) \<noteq> INCR_MAGIC")
    case True
    then have "scan_magic xs (int (length xs)) (int k) = scan_magic xs (int (length xs)) (int (Suc k))"
      by (subst scan_magic.simps) (simp add: add.commute)
    moreover have "length xs - Suc k < length xs - k" "Suc k \<le> length xs" using True by linarith+
    note less.hyps [OF this]
    ultimately obtain m where m: "c = int m" "Suc k \<le> m" "m \<le> length xs"
      "fst (skim (drop (Suc k) xs)) = map Forward (take (m - Suc k) (drop (Suc k) xs)) @ fst (skim (drop m xs))"
      "snd (skim (drop (Suc k) xs)) = snd (skim (drop m xs))"
      "if found then m + 4 < length xs \<and> u32_from_be (take 4 (drop m xs)) = INCR_MAGIC else length xs \<le> m + 4" using less.prems(2) by auto
    have dk: "drop k xs = xs ! k # drop (Suc k) xs" using True by (simp add: Cons_nth_drop_Suc)
    have "skim (drop k xs) = (Forward (xs ! k) # fst (skim (drop (Suc k) xs)), snd (skim (drop (Suc k) xs)))"
      by (cases "drop k xs" rule: skim_cases) (use True dk in auto)
    moreover have "take (m - k) (drop k xs) = xs ! k # take (m - Suc k) (drop (Suc k) xs)"
      using m(2) by (subst dk) (simp add: take_Cons' Suc_diff_le)
    ultimately show ?thesis using m by (intro exI [of _ m]) simp
  next
    case False
    then have "c = int k \<and> found = (k + 4 < length xs)"
      using less.prems(2) by (subst (asm) scan_magic.simps) (auto split: if_splits)
    then show ?thesis using False less.prems(1) by (intro exI [of _ k]) simp
  qed
qed

lemma take_request_skim:
  assumes small: "length (incoming s) < 2 ^ 31" and run: "take_request s = (req, fw, t)"
  shows "skim (incoming s) = (map Forward fw @ (case req of Some r \<Rightarrow> [Request r] | None \<Rightarrow> []) @ fst (skim (incoming t)),
      snd (skim (incoming t)))"
    and "length (incoming t) \<le> length (incoming s)"
proof -
  let ?xs = "incoming s"
  have b: "as_i32 (int (length ?xs)) = int (length ?xs)" using small by (simp add: is_i32_def)
  obtain c found where sm: "scan_magic ?xs (int (length ?xs)) 0 = (c, found)" by fastforce
  from scan_magic_skim [of 0 ?xs c found] sm obtain m where m: "c = int m" "m \<le> length ?xs"
    "skim ?xs = (map Forward (take m ?xs) @ fst (skim (drop m ?xs)), snd (skim (drop m ?xs)))"
    "if found then m + 4 < length ?xs \<and> u32_from_be (take 4 (drop m ?xs)) = INCR_MAGIC else length ?xs \<le> m + 4"
    by (auto simp: prod_eq_iff)
  define s1 where "s1 = (if m > 0 then s\<lparr>incoming := drop m ?xs\<rparr> else s)"
  have s1: "incoming s1 = drop m ?xs" by (simp add: s1_def)
  have tr: "take_request s = (if found \<and> 12 \<le> length (drop m ?xs)
      then (RequestCommand_decode (take 8 (drop 4 (drop m ?xs))), take m ?xs, s1\<lparr>incoming := drop 12 (drop m ?xs)\<rparr>)
      else (None, take m ?xs, s1))"
    unfolding take_request_def Let_def b sm prod.case m(1) by (auto simp: s1_def s1)
  show "skim (incoming s) = (map Forward fw @ (case req of Some r \<Rightarrow> [Request r] | None \<Rightarrow> []) @ fst (skim (incoming t)),
      snd (skim (incoming t)))"
  proof (cases "found \<and> 12 \<le> length (drop m ?xs)")
    case True
    then have r: "req = RequestCommand_decode (take 8 (drop 4 (drop m ?xs)))" "fw = take m ?xs" "incoming t = drop 12 (drop m ?xs)"
      using run tr by auto
    have "RequestCommand_decode (take 8 (drop 4 (drop m ?xs))) \<noteq> None" using True by (auto simp: RequestCommand_decode_def)
    moreover have "skim (drop m ?xs) = (Request (the (RequestCommand_decode (take 8 (drop 4 (drop m ?xs))))) # fst (skim (drop 12 (drop m ?xs))),
        snd (skim (drop 12 (drop m ?xs))))"
      by (cases "drop m ?xs" rule: skim_cases) (use True m(4) in simp_all)
    ultimately show ?thesis unfolding m(3) r by auto
  next
    case False
    then have "req = None" "fw = take m ?xs" "incoming t = drop m ?xs" using run tr s1 by auto
    then show ?thesis using m(3) by simp
  qed
  show "length (incoming t) \<le> length (incoming s)" using run tr s1 by (auto split: if_splits)
qed

text \<open>
  A schedule of bytes arriving and of looks for a request, with what the looks found and forwarded.
\<close>

datatype schedule = Arrive bytes | Look

fun run_schedule :: "schedule list \<Rightarrow> IncrementalServer \<Rightarrow> event list \<times> IncrementalServer" where
  "run_schedule [] s = ([], s)"
| "run_schedule (Arrive d # acts) s = run_schedule acts (inc_feed d s)"
| "run_schedule (Look # acts) s =
     (case take_request s of (req, fw, s) \<Rightarrow>
      case run_schedule acts s of (es, t) \<Rightarrow>
        (map Forward fw @ (case req of Some r \<Rightarrow> [Request r] | None \<Rightarrow> []) @ es, t))"

fun arrived :: "schedule list \<Rightarrow> bytes" where
  "arrived [] = []"
| "arrived (Arrive d # acts) = d @ arrived acts"
| "arrived (Look # acts) = arrived acts"

lemma run_schedule_skim:
  "length (incoming s) + length (arrived acts) < 2 ^ 31 \<Longrightarrow> run_schedule acts s = (es, t) \<Longrightarrow>
   skim (incoming s @ arrived acts) = (es @ fst (skim (incoming t)), snd (skim (incoming t)))"
proof (induction acts s arbitrary: es rule: run_schedule.induct)
  case (2 d acts s)
  then show ?case by (simp add: inc_feed_def)
next
  case (3 acts s)
  obtain req fw s1 where tk: "take_request s = (req, fw, s1)" by (metis prod_cases3)
  obtain es1 t1 where rs: "run_schedule acts s1 = (es1, t1)" by fastforce
  have es: "es = map Forward fw @ (case req of Some r \<Rightarrow> [Request r] | None \<Rightarrow> []) @ es1" "t = t1"
    using 3(3) by (simp_all add: tk rs)
  have "length (incoming s) < 2 ^ 31" using 3(2) by simp
  note k = take_request_skim [OF this tk]
  have "skim (incoming s1 @ arrived acts) = (es1 @ fst (skim (incoming t)), snd (skim (incoming t)))"
    using 3(1) [OF tk [symmetric] refl] 3(2) k(2) rs es(2) by simp
  then show ?case
    using skim_append [of "incoming s" "arrived acts"] skim_append [of "incoming s1" "arrived acts"] k(1) es by simp
qed simp

text \<open>
  C21: Requests do not depend on how the bytes are cut. For every schedule of bytes arriving and of the
  server looking for a request, the requests found and the bytes forwarded so far, in order, followed by
  those still in the buffer, are those of the stream taken as a whole; nothing is lost, repeated or
  reordered.\<close>

theorem requests_fragmentation:
  assumes "length (arrived acts) < 2 ^ 31" and "run_schedule acts (IncrementalServer_new files) = (es, t)"
  shows "skim (arrived acts) = (es @ fst (skim (incoming t)), snd (skim (incoming t)))"
  using run_schedule_skim [of "IncrementalServer_new files" acts es t] assms by (simp add: IncrementalServer_new_def)

theorem requests_fragmentation_witness:
  "\<exists>es t. run_schedule [Arrive [0x68, 0x49, 0x4e], Look, Arrive [0x43, 0x52, 0, 3, 0], Look, Arrive [0, 0, 0, 0, 1, 7], Look]
       (IncrementalServer_new []) = (es, t) \<and>
     skim [0x68, 0x49, 0x4e, 0x43, 0x52, 0, 3, 0, 0, 0, 0, 0, 1, 7] = (es @ fst (skim (incoming t)), snd (skim (incoming t)))"
proof -
  obtain es t where "run_schedule [Arrive [0x68, 0x49, 0x4e], Look, Arrive [0x43, 0x52, 0, 3, 0], Look, Arrive [0, 0, 0, 0, 1, 7], Look]
       (IncrementalServer_new []) = (es, t)" by fastforce
  with requests_fragmentation [OF _ this] show ?thesis by simp
qed

end
