(* ===== verification/Aidl_Ast.thy ===== *)
theory Aidl_Ast
  imports Rust_Str
begin

text \<open>
  The abstract syntax of an AIDL file (\<open>aidl-rs/src/ast.rs\<close>). Every \<open>struct\<close> is a record whose fields carry
  a prefix of the struct's name; \<open>AidlType\<close> is recursive and hence a datatype with the fields as selectors.
\<close>

datatype Direction = DIn | DOut | DInOut

definition Direction_fmt :: "Direction \<Rightarrow> rstr" where
  "Direction_fmt d = (case d of DIn \<Rightarrow> str ''in'' | DOut \<Rightarrow> str ''out'' | DInOut \<Rightarrow> str ''inout'')"

datatype AidlType =
  AidlType (ty_name: rstr) (generic_args: "AidlType list") (array_dimensions: nat) (is_nullable: bool)

definition AidlType_new :: "rstr \<Rightarrow> AidlType" where
  "AidlType_new name = AidlType name [] 0 False"

definition primitive_names :: "rstr list" where
  "primitive_names = map str [''void'', ''boolean'', ''byte'', ''char'', ''int'', ''long'', ''float'', ''double'']"

definition is_primitive :: "AidlType \<Rightarrow> bool" where
  "is_primitive ty \<longleftrightarrow> ty_name ty \<in> set primitive_names"

definition set_nullable :: "AidlType \<Rightarrow> AidlType" where
  "set_nullable ty = AidlType (ty_name ty) (generic_args ty) (array_dimensions ty) True"

record Annotation =
  anno_name :: rstr
  anno_args :: "(rstr option \<times> rstr) list"

record AidlConstant =
  const_ty :: AidlType
  const_name :: rstr
  const_value :: rstr

record AidlField =
  field_annotations :: "Annotation list"
  field_ty :: AidlType
  field_name :: rstr
  default_value :: "rstr option"

record AidlArg =
  arg_annotations :: "Annotation list"
  direction :: "Direction option"
  arg_ty :: AidlType
  arg_name :: rstr

record AidlMethod =
  method_annotations :: "Annotation list"
  method_oneway :: bool
  return_type :: AidlType
  method_name :: rstr
  method_args :: "AidlArg list"
  method_id :: "u32 option"

record EnumVariant =
  variant_name :: rstr
  variant_value :: "rstr option"

record AidlUnion =
  union_annotations :: "Annotation list"
  union_name :: rstr
  union_fields :: "AidlField list"

record AidlEnum =
  enum_annotations :: "Annotation list"
  enum_name :: rstr
  backing_type :: "AidlType option"
  variants :: "EnumVariant list"

record AidlParcelable =
  parcelable_annotations :: "Annotation list"
  parcelable_name :: rstr
  cpp_header :: "rstr option"
  parcelable_fields :: "AidlField list"

record AidlInterface =
  iface_annotations :: "Annotation list"
  iface_oneway :: bool
  iface_name :: rstr
  extends :: "rstr option"
  methods :: "AidlMethod list"
  constants :: "AidlConstant list"

datatype AidlDecl =
    Interface AidlInterface
  | Parcelable AidlParcelable
  | Enum AidlEnum
  | Union AidlUnion

record AidlFile =
  package :: "rstr option"
  imported :: "rstr list"
  decls :: "AidlDecl list"

end
