(* ===== verification/Aidl_Lexer.thy ===== *)
theory Aidl_Lexer
  imports Rust_Str
begin

text \<open>
  The lexer of the AIDL compiler (\<open>aidl-rs/src/parser.rs\<close>). The input is a Rust string, that is
  valid UTF-8, seen through \<open>char_indices\<close>: a character is the list of its bytes and its position is a
  byte offset. A floating point literal is kept as the bits that \<open>str::parse::<f64>\<close> gives; that
  function and \<open>f64::to_string\<close> are parameters.
\<close>

section \<open>Tokens\<close>

datatype ParseError =
    UnexpectedEof
  | UnexpectedChar bytes nat
  | UnterminatedComment nat
  | UnterminatedString nat
  | InvalidNumber rstr nat
  | ExpectedToken rstr rstr nat
  | Custom rstr nat

datatype (plugins only: code size) Token =
    Ident rstr | StringLit rstr | CharLit rstr | IntLit nat | FloatLit u64
  | At | Semi | Comma | Dot | Colon | Equals | LBrace | RBrace | LParen | RParen | LBracket | RBracket | LAngle | RAngle
  | Plus | Minus | Star | Slash | Percent | Amp | Pipe | Caret | Tilde | Bang
  | AndAnd | OrOr | EqEq | NotEq | LAngleAngle | RAngleAngle | LessEqual | GreaterEqual | Eof

record float_text =
  parse_f64 :: "rstr \<Rightarrow> u64 option"
  show_f64 :: "u64 \<Rightarrow> rstr"

fun Token_description :: "float_text \<Rightarrow> Token \<Rightarrow> rstr" where
  "Token_description ft (Ident s) = str ''identifier '' @ [0x27] @ s @ [0x27]"
| "Token_description ft (StringLit s) = str ''string '' @ [0x22] @ s @ [0x22]"
| "Token_description ft (CharLit s) = str ''character '' @ s"
| "Token_description ft (IntLit n) = str ''integer '' @ [0x27] @ fmt_dec n @ [0x27]"
| "Token_description ft (FloatLit f) = str ''float '' @ [0x27] @ show_f64 ft f @ [0x27]"
| "Token_description ft At = [0x27] @ str ''@'' @ [0x27]"
| "Token_description ft Semi = [0x27] @ str '';'' @ [0x27]"
| "Token_description ft Comma = [0x27] @ str '','' @ [0x27]"
| "Token_description ft Dot = [0x27] @ str ''.'' @ [0x27]"
| "Token_description ft Colon = [0x27] @ str '':'' @ [0x27]"
| "Token_description ft Equals = [0x27] @ str ''='' @ [0x27]"
| "Token_description ft LBrace = [0x27] @ str ''{'' @ [0x27]"
| "Token_description ft RBrace = [0x27] @ str ''}'' @ [0x27]"
| "Token_description ft LParen = [0x27] @ str ''('' @ [0x27]"
| "Token_description ft RParen = [0x27] @ str '')'' @ [0x27]"
| "Token_description ft LBracket = [0x27] @ str ''['' @ [0x27]"
| "Token_description ft RBracket = [0x27] @ str '']'' @ [0x27]"
| "Token_description ft LAngle = [0x27] @ str ''<'' @ [0x27]"
| "Token_description ft RAngle = [0x27] @ str ''>'' @ [0x27]"
| "Token_description ft Plus = [0x27] @ str ''+'' @ [0x27]"
| "Token_description ft Minus = [0x27] @ str ''-'' @ [0x27]"
| "Token_description ft Star = [0x27] @ str ''*'' @ [0x27]"
| "Token_description ft Slash = [0x27] @ str ''/'' @ [0x27]"
| "Token_description ft Percent = [0x27] @ str ''%'' @ [0x27]"
| "Token_description ft Amp = [0x27] @ str ''&'' @ [0x27]"
| "Token_description ft Pipe = [0x27] @ str ''|'' @ [0x27]"
| "Token_description ft Caret = [0x27] @ str ''^'' @ [0x27]"
| "Token_description ft Tilde = [0x27] @ str ''~'' @ [0x27]"
| "Token_description ft Bang = [0x27] @ str ''!'' @ [0x27]"
| "Token_description ft AndAnd = [0x27] @ str ''&&'' @ [0x27]"
| "Token_description ft OrOr = [0x27] @ str ''||'' @ [0x27]"
| "Token_description ft EqEq = [0x27] @ str ''=='' @ [0x27]"
| "Token_description ft NotEq = [0x27] @ str ''!='' @ [0x27]"
| "Token_description ft LAngleAngle = [0x27] @ str ''<<'' @ [0x27]"
| "Token_description ft RAngleAngle = [0x27] @ str ''>>'' @ [0x27]"
| "Token_description ft LessEqual = [0x27] @ str ''<='' @ [0x27]"
| "Token_description ft GreaterEqual = [0x27] @ str ''>='' @ [0x27]"
| "Token_description ft Eof = str ''EOF''"

section \<open>Characters\<close>

type_synonym chars = "(nat \<times> bytes) list"

definition utf8_len :: "u8 \<Rightarrow> nat" where
  "utf8_len b = (if b < 0x80 then 1 else if b < 0xE0 then 2 else if b < 0xF0 then 3 else 4)"

function char_indices :: "nat \<Rightarrow> rstr \<Rightarrow> chars" where
  "char_indices i [] = []"
| "char_indices i (b # bs) =
     (i, take (utf8_len b) (b # bs)) # char_indices (i + utf8_len b) (drop (utf8_len b) (b # bs))"
  by pat_completeness auto
termination by (relation "measure (\<lambda>(_, s). length s)") (auto simp: utf8_len_def)

definition is_ascii_digit :: "bytes \<Rightarrow> bool" where
  "is_ascii_digit c = (case c of [b] \<Rightarrow> 0x30 \<le> b \<and> b \<le> 0x39 | _ \<Rightarrow> False)"

definition is_ascii_alphabetic :: "bytes \<Rightarrow> bool" where
  "is_ascii_alphabetic c = (case c of [b] \<Rightarrow> 0x41 \<le> b \<and> b \<le> 0x5A \<or> 0x61 \<le> b \<and> b \<le> 0x7A | _ \<Rightarrow> False)"

definition ident_char :: "bytes \<Rightarrow> bool" where
  "ident_char c \<longleftrightarrow> is_ascii_alphabetic c \<or> is_ascii_digit c \<or> c = [0x5F]"

section \<open>Literals, identifiers and comments\<close>

definition string_escape :: "bytes \<Rightarrow> bytes" where
  "string_escape e =
     (if e = str ''n'' then [0x0A] else if e = str ''r'' then [0x0D] else if e = str ''t'' then [0x09]
      else if e = [0x5C] then [0x5C] else if e = [0x22] then [0x22] else if e = str ''0'' then [0x00] else e)"

fun read_string :: "nat \<Rightarrow> rstr \<Rightarrow> chars \<Rightarrow> (rstr \<times> chars, ParseError) outcome" where
  "read_string start s [] = Err (UnterminatedString start)"
| "read_string start s ((_, ch) # cs) =
     (if ch = [0x22] then Ok (s, cs)
      else if ch = [0x5C] then
        case cs of [] \<Rightarrow> Err (UnterminatedString start) | (_, escaped) # cs \<Rightarrow> read_string start (s @ string_escape escaped) cs
      else read_string start (s @ ch) cs)"

definition char_escape :: "bytes \<Rightarrow> bytes" where
  "char_escape e =
     (if e = str ''n'' then [0x0A] else if e = str ''r'' then [0x0D] else if e = str ''t'' then [0x09]
      else if e = [0x5C] then [0x5C] else if e = [0x27] then [0x27] else e)"

definition close_char :: "nat \<Rightarrow> rstr \<Rightarrow> chars \<Rightarrow> (rstr \<times> chars, ParseError) outcome" where
  "close_char start v cs =
     (case cs of
        (_, c) # cs \<Rightarrow> if c = [0x27] then Ok ([0x27] @ v @ [0x27], cs) else Err (UnterminatedString start)
      | [] \<Rightarrow> Err (UnterminatedString start))"

definition read_char :: "nat \<Rightarrow> chars \<Rightarrow> (rstr \<times> chars, ParseError) outcome" where
  "read_char start cs =
     (case cs of
        [] \<Rightarrow> Err (UnterminatedString start)
      | (_, c) # cs \<Rightarrow>
          if c = [0x5C] then
            case cs of
              [] \<Rightarrow> Err (UnterminatedString start)
            | (_, escaped) # cs \<Rightarrow> close_char start (char_escape escaped) cs
          else close_char start c cs)"

definition read_ident :: "chars \<Rightarrow> rstr \<times> chars" where
  "read_ident cs = (concat (map snd (takeWhile (ident_char \<circ> snd) cs)), dropWhile (ident_char \<circ> snd) cs)"

definition number_char :: "bytes \<Rightarrow> bool" where
  "number_char c \<longleftrightarrow> ident_char c \<or> c = [0x2E]"

definition number_suffixes :: "rstr list" where
  "number_suffixes = map str [''u8'', ''u32'', ''u64'', ''U8'', ''U32'', ''U64'', ''u'', ''U'', ''l'', ''L'', ''f'']"

fun find_suffix :: "rstr \<Rightarrow> rstr list \<Rightarrow> rstr option" where
  "find_suffix s [] = None"
| "find_suffix s (p # ps) = (case strip_suffix s p of Some t \<Rightarrow> Some t | None \<Rightarrow> find_suffix s ps)"

definition normalize_number :: "rstr \<Rightarrow> rstr" where
  "normalize_number s =
     filter (\<lambda>b. b \<noteq> 0x5F) (case find_suffix s number_suffixes of Some t \<Rightarrow> t | None \<Rightarrow> s)"

text \<open>\<open>i64::from_str_radix\<close> and \<open>parse::<i64>\<close> on the characters of a number, none of which is a sign.\<close>

definition number_token :: "float_text \<Rightarrow> nat \<Rightarrow> rstr \<Rightarrow> (Token, ParseError) outcome" where
  "number_token ft start s =
     (let normalized = normalize_number s in
      if starts_with normalized (str ''0x'') \<or> starts_with normalized (str ''0X'') then
        case from_str_radix 16 (2 ^ 63) (drop 2 normalized) of
          Some v \<Rightarrow> Ok (IntLit v) | None \<Rightarrow> Err (InvalidNumber s start)
      else if 0x2E \<in> set normalized \<or> 0x65 \<in> set normalized \<or> 0x45 \<in> set normalized then
        case parse_f64 ft normalized of
          Some v \<Rightarrow> Ok (FloatLit v) | None \<Rightarrow> Err (InvalidNumber s start)
      else
        case from_str_radix 10 (2 ^ 63) normalized of
          Some v \<Rightarrow> Ok (IntLit v) | None \<Rightarrow> Err (InvalidNumber s start))"

definition read_number :: "float_text \<Rightarrow> nat \<Rightarrow> chars \<Rightarrow> (Token \<times> chars, ParseError) outcome" where
  "read_number ft start cs =
     and_then (number_token ft start (concat (map snd (takeWhile (number_char \<circ> snd) cs)))) (\<lambda>t.
       Ok (t, dropWhile (number_char \<circ> snd) cs))"

fun skip_line :: "chars \<Rightarrow> chars" where
  "skip_line [] = []"
| "skip_line ((_, c) # cs) = (if c = [0x0A] then cs else skip_line cs)"

fun skip_block :: "chars \<Rightarrow> chars option" where
  "skip_block [] = None"
| "skip_block ((_, c) # cs) =
     (if c = str ''*'' \<and> cs \<noteq> [] \<and> snd (hd cs) = str ''/'' then Some (tl cs) else skip_block cs)"

section \<open>The main loop\<close>

definition single_tokens :: "(bytes \<times> Token) list" where
  "single_tokens =
     [(str ''@'', At), (str '';'', Semi), (str '','', Comma), (str ''.'', Dot), (str '':'', Colon), (str ''{'', LBrace),
      (str ''}'', RBrace), (str ''('', LParen), (str '')'', RParen), (str ''['', LBracket), (str '']'', RBracket),
      (str ''+'', Plus), (str ''-'', Minus), (str ''*'', Star), (str ''/'', Slash), (str ''%'', Percent),
      (str ''^'', Caret), (str ''~'', Tilde)]"

text \<open>Characters that may be the first of two: the alternatives, and the token of the character alone.\<close>

definition double_tokens :: "(bytes \<times> (bytes \<times> Token) list \<times> Token) list" where
  "double_tokens =
     [(str ''='', [(str ''='', EqEq)], Equals),
      (str ''<'', [(str ''<'', LAngleAngle), (str ''='', LessEqual)], LAngle),
      (str ''>'', [(str ''>'', RAngleAngle), (str ''='', GreaterEqual)], RAngle),
      (str ''&'', [(str ''&'', AndAnd)], Amp), (str ''|'', [(str ''|'', OrOr)], Pipe), (str ''!'', [(str ''='', NotEq)], Bang)]"

text \<open>
  One turn of the loop on the character \<open>ch\<close> at \<open>idx\<close>, with \<open>cs\<close> after it: a token, or none for
  white space and comments, and what is left.
\<close>

definition lex_step :: "float_text \<Rightarrow> nat \<Rightarrow> bytes \<Rightarrow> chars \<Rightarrow> (Token option \<times> chars, ParseError) outcome" where
  "lex_step ft idx ch cs =
     (if ch \<in> set white_space then Ok (None, cs)
      else if ch = str ''/'' \<and> cs \<noteq> [] then
        if snd (hd cs) = str ''/'' then Ok (None, skip_line (tl cs))
        else if snd (hd cs) = str ''*'' then
          case skip_block (tl cs) of Some cs \<Rightarrow> Ok (None, cs) | None \<Rightarrow> Err (UnterminatedComment idx)
        else Err (UnexpectedChar (str ''/'') idx)
      else case map_of single_tokens ch of
        Some t \<Rightarrow> Ok (Some t, cs)
      | None \<Rightarrow>
          case map_of double_tokens ch of
            Some (alts, single) \<Rightarrow>
              if cs = [] then Ok (Some single, cs)
              else (case map_of alts (snd (hd cs)) of Some t \<Rightarrow> Ok (Some t, tl cs) | None \<Rightarrow> Ok (Some single, cs))
          | None \<Rightarrow>
              if ch = [0x22] then and_then (read_string idx [] cs) (\<lambda>(s, cs). Ok (Some (StringLit s), cs))
              else if ch = [0x27] then and_then (read_char idx cs) (\<lambda>(s, cs). Ok (Some (CharLit s), cs))
              else if is_ascii_digit ch then and_then (read_number ft idx ((idx, ch) # cs)) (\<lambda>(t, cs). Ok (Some t, cs))
              else if is_ascii_alphabetic ch \<or> ch = [0x5F] then
                (case read_ident ((idx, ch) # cs) of (s, cs) \<Rightarrow> Ok (Some (Ident s), cs))
              else Err (UnexpectedChar ch idx))"

lemma skip_line_shorter: "length (skip_line cs) \<le> length cs"
  by (induction cs rule: skip_line.induct) auto

lemma skip_block_shorter: "skip_block cs = Some ds \<Longrightarrow> length ds \<le> length cs"
  by (induction cs rule: skip_block.induct) (auto split: if_splits)

lemma read_string_shorter: "read_string i s cs = Ok (t, ds) \<Longrightarrow> length ds \<le> length cs"
  by (induction i s cs rule: read_string.induct) (fastforce split: if_splits list.splits)+

lemma close_char_shorter: "close_char i v cs = Ok (t, ds) \<Longrightarrow> length ds \<le> length cs"
  by (auto simp: close_char_def split: if_splits list.splits)

lemma read_char_shorter: "read_char i cs = Ok (t, ds) \<Longrightarrow> length ds \<le> length cs"
  by (fastforce simp: read_char_def dest: close_char_shorter split: if_splits list.splits)

lemma lex_step_shorter:
  assumes "lex_step ft idx ch cs = Ok (t, ds)"
  shows "length ds \<le> length cs"
proof -
  have "length (tl cs) \<le> length cs" by simp
  moreover have "length (dropWhile (number_char \<circ> snd) ((idx, ch) # cs)) \<le> length cs" if "is_ascii_digit ch"
    using that length_dropWhile_le [of _ cs] by (simp add: number_char_def ident_char_def)
  moreover have "length (dropWhile (ident_char \<circ> snd) ((idx, ch) # cs)) \<le> length cs" if "is_ascii_alphabetic ch \<or> ch = [0x5F]"
    using that length_dropWhile_le [of _ cs] by (auto simp: ident_char_def)
  ultimately show ?thesis
    using assms skip_line_shorter [of "tl cs"] skip_block_shorter [of "tl cs" ds] read_string_shorter [of idx "[]" cs] read_char_shorter [of idx cs]
    by (auto simp: lex_step_def read_number_def read_ident_def split: if_splits option.splits)
qed

function lex_chars :: "float_text \<Rightarrow> nat \<Rightarrow> chars \<Rightarrow> ((Token \<times> nat) list, ParseError) outcome" where
  "lex_chars ft len [] = Ok [(Eof, len)]"
| "lex_chars ft len ((idx, ch) # cs) =
     and_then (lex_step ft idx ch cs) (\<lambda>(t, ds).
       case t of
         None \<Rightarrow> lex_chars ft len ds
       | Some t \<Rightarrow> and_then (lex_chars ft len ds) (\<lambda>ts. Ok ((t, idx) # ts)))"
  by pat_completeness auto
termination
  by (relation "measure (\<lambda>(_, _, cs). length cs)") (auto dest: lex_step_shorter simp: less_Suc_eq_le)

definition tokenize :: "float_text \<Rightarrow> rstr \<Rightarrow> ((Token \<times> nat) list, ParseError) outcome" where
  "tokenize ft input = lex_chars ft (length input) (char_indices 0 input)"
end
