(* ===== verification/Aidl_Parser.thy ===== *)
theory Aidl_Parser
  imports Aidl_Ast Aidl_Lexer
begin

text \<open>
  The recursive descent parser of the AIDL compiler (\<open>aidl-rs/src/parser.rs\<close>). The parser never looks back,
  so its state is the tokens from \<open>pos\<close> on, without the closing \<open>Eof\<close>, and the index of that \<open>Eof\<close>, which
  \<open>peek\<close> goes on to return at the end. Every function takes the state and returns its value with the state after
  it, or the error. Each loop and each recursion consumes tokens: the weight of a state, in which \<open>>>\<close> counts
  twice since it may be split, goes down.
\<close>

section \<open>The token stream\<close>

record Parser =
  toks :: "(Token \<times> nat) list"
  eof_at :: nat

type_synonym 'a parsed = "('a \<times> Parser, ParseError) outcome"

definition Parser_new :: "(Token \<times> nat) list \<Rightarrow> Parser" where
  "Parser_new ts = \<lparr>toks = butlast ts, eof_at = snd (List.last ts)\<rparr>"

definition peek_token :: "Parser \<Rightarrow> Token \<times> nat" where
  "peek_token p = (case toks p of [] \<Rightarrow> (Eof, eof_at p) | t # _ \<Rightarrow> t)"

definition at :: "Parser \<Rightarrow> Token \<Rightarrow> bool" where
  "at p t \<longleftrightarrow> fst (peek_token p) = t"

definition skip :: "Parser \<Rightarrow> Parser" where
  "skip p = p\<lparr>toks := tl (toks p)\<rparr>"

definition advance :: "Parser \<Rightarrow> (Token \<times> nat) \<times> Parser" where
  "advance p = (peek_token p, skip p)"

definition match_ident :: "rstr \<Rightarrow> Parser \<Rightarrow> bool \<times> Parser" where
  "match_ident expected p = (if at p (Ident expected) then (True, skip p) else (False, p))"

definition expected_token :: "float_text \<Rightarrow> rstr \<Rightarrow> Token \<times> nat \<Rightarrow> ParseError" where
  "expected_token ft expected t = ExpectedToken expected (Token_description ft (fst t)) (snd t)"

definition ident_of :: "Token \<Rightarrow> rstr option" where
  "ident_of t = (case t of Ident s \<Rightarrow> Some s | _ \<Rightarrow> None)"

definition expect_ident :: "float_text \<Rightarrow> Parser \<Rightarrow> (rstr \<times> nat) parsed" where
  "expect_ident ft p =
     (case ident_of (fst (peek_token p)) of
        Some s \<Rightarrow> Ok ((s, snd (peek_token p)), skip p)
      | None \<Rightarrow> Err (expected_token ft (str ''identifier'') (peek_token p)))"

definition expect_token :: "float_text \<Rightarrow> Token \<Rightarrow> Parser \<Rightarrow> nat parsed" where
  "expect_token ft t p =
     (if at p t then Ok (snd (peek_token p), skip p) else Err (expected_token ft (Token_description ft t) (peek_token p)))"

subsection \<open>How much is left\<close>

definition token_weight :: "Token \<times> nat \<Rightarrow> nat" where
  "token_weight t = (if fst t = RAngleAngle then 2 else 1)"

definition weight :: "Parser \<Rightarrow> nat" where
  "weight p = sum_list (map token_weight (toks p))"

named_theorems consumes \<open>what a parsing function leaves weighs less\<close>

lemma weight_skip: "weight (skip p) \<le> weight p"
  by (cases "toks p") (simp_all add: weight_def skip_def)

lemma weight_skip_less: "fst (peek_token p) \<noteq> Eof \<Longrightarrow> weight (skip p) < weight p"
  by (cases "toks p") (simp_all add: weight_def skip_def peek_token_def token_weight_def)

lemma weight_skip_at: "at p t \<Longrightarrow> t \<noteq> Eof \<Longrightarrow> weight (skip p) < weight p"
  by (simp add: at_def weight_skip_less)

lemma ident_of_eq_Some [simp]: "ident_of t = Some s \<longleftrightarrow> t = Ident s"
  by (cases t) (auto simp: ident_of_def)

lemma expect_ident_consumes [consumes]: "expect_ident ft p = Ok (x, q) \<Longrightarrow> weight q < weight p"
  using weight_skip_less [of p] by (auto simp: expect_ident_def split: option.splits)

lemma expect_token_consumes [consumes]: "expect_token ft t p = Ok (x, q) \<Longrightarrow> t \<noteq> Eof \<Longrightarrow> weight q < weight p"
  by (auto simp: expect_token_def weight_skip_at split: if_splits)

lemma match_ident_consumes [consumes]: "match_ident s p = (b, q) \<Longrightarrow> weight q \<le> weight p"
  using weight_skip [of p] by (auto simp: match_ident_def split: if_splits)

section \<open>Qualified identifiers\<close>

function qualified_rest :: "float_text \<Rightarrow> rstr \<Rightarrow> Parser \<Rightarrow> rstr parsed" where
  "qualified_rest ft name p =
     (if at p Dot then
        and_then (expect_ident ft (skip p)) (\<lambda>(part, p). qualified_rest ft (name @ str ''.'' @ fst part) p)
      else Ok (name, p))"
  by pat_completeness auto
termination
  by (relation "measure (\<lambda>(_, _, p). weight p)") (auto dest!: consumes dest: weight_skip_at)

definition parse_qualified_ident :: "float_text \<Rightarrow> Parser \<Rightarrow> rstr parsed" where
  "parse_qualified_ident ft p = and_then (expect_ident ft p) (\<lambda>(name, p). qualified_rest ft (fst name) p)"

declare qualified_rest.simps [simp del]

lemma qualified_rest_consumes [consumes]: "qualified_rest ft name p = Ok (x, q) \<Longrightarrow> weight q \<le> weight p"
proof (induction ft name p rule: qualified_rest.induct)
  case (1 ft name p)
  then show ?case
    using weight_skip [of p]
    by (subst (asm) (2) qualified_rest.simps) (fastforce dest: consumes split: if_splits)
qed

lemma parse_qualified_ident_consumes [consumes]:
  "parse_qualified_ident ft p = Ok (x, q) \<Longrightarrow> weight q < weight p"
  by (fastforce simp: parse_qualified_ident_def dest!: consumes)

section \<open>Constant expressions\<close>

definition binary_operator :: "Token \<Rightarrow> (rstr \<times> nat) option" where
  "binary_operator t = map_of
     [(OrOr, (str ''||'', 1)), (AndAnd, (str ''&&'', 2)), (Pipe, (str ''|'', 3)), (Caret, (str ''^'', 4)),
      (Amp, (str ''&'', 5)), (EqEq, (str ''=='', 6)), (NotEq, (str ''!='', 6)), (LAngle, (str ''<'', 7)),
      (RAngle, (str ''>'', 7)), (LessEqual, (str ''<='', 7)), (GreaterEqual, (str ''>='', 7)),
      (LAngleAngle, (str ''<<'', 8)), (RAngleAngle, (str ''>>'', 8)), (Plus, (str ''+'', 9)), (Minus, (str ''-'', 9)),
      (Star, (str ''*'', 10)), (Slash, (str ''/'', 10)), (Percent, (str ''%'', 10))] t"

definition literal_text :: "float_text \<Rightarrow> Token \<Rightarrow> rstr option" where
  "literal_text ft t =
     (case t of
        StringLit s \<Rightarrow> Some ([0x22] @ s @ [0x22])
      | CharLit s \<Rightarrow> Some s
      | IntLit n \<Rightarrow> Some (fmt_dec n)
      | FloatLit f \<Rightarrow> Some (show_f64 ft f)
      | Ident s \<Rightarrow> Some s
      | _ \<Rightarrow> None)"

definition unary_operator :: "Token \<Rightarrow> rstr option" where
  "unary_operator t = map_of [(Minus, str ''-''), (Plus, str ''+''), (Tilde, str ''~''), (Bang, str ''!'')] t"

definition parenthesised :: "rstr \<Rightarrow> rstr" where
  "parenthesised v = (if starts_with v (str ''('') \<and> ends_with v (str '')'') then v else str ''('' @ v @ str '')'')"

function (domintros) parse_expression_bp :: "float_text \<Rightarrow> nat \<Rightarrow> Parser \<Rightarrow> rstr parsed"
  and operator_loop :: "float_text \<Rightarrow> nat \<Rightarrow> rstr \<Rightarrow> Parser \<Rightarrow> rstr parsed" where
  "parse_expression_bp ft min_precedence p =
     and_then
       (case literal_text ft (fst (peek_token p)) of
          Some s \<Rightarrow> Ok (s, skip p)
        | None \<Rightarrow>
            case unary_operator (fst (peek_token p)) of
              Some s \<Rightarrow> and_then (parse_expression_bp ft 10 (skip p)) (\<lambda>(v, p). Ok (s @ v, p))
            | None \<Rightarrow>
                if at p LParen then
                  and_then (parse_expression_bp ft 0 (skip p)) (\<lambda>(v, p).
                    and_then (expect_token ft RParen p) (\<lambda>(_, p). Ok (parenthesised v, p)))
                else Err (expected_token ft (str ''constant expression operand'') (peek_token p)))
       (\<lambda>(left, p). operator_loop ft min_precedence left p)"
| "operator_loop ft min_precedence left p =
     (case binary_operator (fst (peek_token p)) of
        None \<Rightarrow> Ok (left, p)
      | Some (operator, precedence) \<Rightarrow>
          if precedence < min_precedence then Ok (left, p)
          else
            and_then (parse_expression_bp ft (precedence + 1) (skip p)) (\<lambda>(right, p).
              operator_loop ft min_precedence (str ''('' @ left @ operator @ right @ str '')'') p))"
  by pat_completeness auto

lemma literal_not_Eof: "literal_text ft t = Some s \<Longrightarrow> t \<noteq> Eof"
  by (auto simp: literal_text_def)

lemma unary_not_Eof: "unary_operator t = Some s \<Longrightarrow> t \<noteq> Eof"
  by (auto simp: unary_operator_def)

lemma binary_not_Eof: "binary_operator t = Some s \<Longrightarrow> t \<noteq> Eof"
  by (auto simp: binary_operator_def)

lemmas skip_consumes = weight_skip_less [OF literal_not_Eof] weight_skip_less [OF unary_not_Eof] weight_skip_less [OF binary_not_Eof]

lemma expression_consumes_dom:
  shows "parse_expression_bp_operator_loop_dom (Inl (ft, m, p)) \<Longrightarrow> parse_expression_bp ft m p = Ok (v, q) \<Longrightarrow> weight q < weight p"
    and "parse_expression_bp_operator_loop_dom (Inr (ft, m, l, p)) \<Longrightarrow> operator_loop ft m l p = Ok (v, q) \<Longrightarrow> weight q \<le> weight p"
proof (induction ft m p and ft m l p arbitrary: v q and v q rule: parse_expression_bp_operator_loop.pinduct)
  case (1 ft m p)
  then obtain left r where
      left: "(case literal_text ft (fst (peek_token p)) of
          Some s \<Rightarrow> Ok (s, skip p)
        | None \<Rightarrow>
            case unary_operator (fst (peek_token p)) of
              Some s \<Rightarrow> and_then (parse_expression_bp ft 10 (skip p)) (\<lambda>(v, p). Ok (s @ v, p))
            | None \<Rightarrow>
                if at p LParen then
                  and_then (parse_expression_bp ft 0 (skip p)) (\<lambda>(v, p).
                    and_then (expect_token ft RParen p) (\<lambda>(_, p). Ok (parenthesised v, p)))
                else Err (expected_token ft (str ''constant expression operand'') (peek_token p))) = Ok (left, r)"
    and loop: "operator_loop ft m left r = Ok (v, q)"
    by (auto simp: parse_expression_bp.psimps)
  have "weight r < weight p"
    using left 1(2, 3) skip_consumes
    by (fastforce dest: weight_skip_at consumes split: option.splits if_splits)
  moreover have "weight q \<le> weight r" using 1(4) [OF left refl loop] .
  ultimately show ?case by simp
next
  case (2 ft m l p)
  show ?case
  proof (cases "\<exists>operator k. binary_operator (fst (peek_token p)) = Some (operator, k) \<and> m \<le> k")
    case True
    then obtain operator k where op: "binary_operator (fst (peek_token p)) = Some (operator, k)" "m \<le> k" by blast
    then obtain right r where r: "parse_expression_bp ft (k + 1) (skip p) = Ok (right, r)"
        and loop: "operator_loop ft m (str ''('' @ l @ operator @ right @ str '')'') r = Ok (v, q)"
      using 2(1, 4) by (auto simp: operator_loop.psimps)
    have "weight r < weight (skip p)" using 2(2) [OF op(1) refl _ r] op(2) by simp
    moreover have "weight q \<le> weight r" using 2(3) [OF op(1) refl _ r refl loop] op(2) by simp
    ultimately show ?thesis using weight_skip [of p] by simp
  next
    case False
    then show ?thesis using 2(1, 4) by (auto simp: operator_loop.psimps split: option.splits if_splits)
  qed
qed

lemma expression_total: "All parse_expression_bp_operator_loop_dom"
  by (rule "parse_expression_bp_operator_loop.termination" [of "measure (case_sum (\<lambda>(_, _, p). 2 * weight p + 1) (\<lambda>(_, _, _, p). 2 * weight p))"])
    (fastforce dest: expression_consumes_dom skip_consumes weight_skip_at consumes split: option.splits if_splits)+

termination parse_expression_bp by (rule expression_total)

declare parse_expression_bp.simps [simp del] operator_loop.simps [simp del]

definition parse_expression_as_string :: "float_text \<Rightarrow> Parser \<Rightarrow> rstr parsed" where
  "parse_expression_as_string ft p = parse_expression_bp ft 0 p"

lemma parse_expression_consumes [consumes]: "parse_expression_bp ft m p = Ok (v, q) \<Longrightarrow> weight q < weight p"
  by (rule expression_consumes_dom) (simp_all add: expression_total)

lemma parse_expression_as_string_consumes [consumes]:
  "parse_expression_as_string ft p = Ok (v, q) \<Longrightarrow> weight q < weight p"
  by (auto simp: parse_expression_as_string_def dest: consumes)

section \<open>Annotations\<close>

definition annotation_key :: "Parser \<Rightarrow> rstr option \<times> Parser" where
  "annotation_key p =
     (case ident_of (fst (peek_token p)) of
        Some k \<Rightarrow> if at (skip p) Equals then (Some k, skip (skip p)) else (None, p)
      | None \<Rightarrow> (None, p))"

lemma annotation_key_consumes [consumes]: "annotation_key p = (k, q) \<Longrightarrow> weight q \<le> weight p"
  using weight_skip [of p] weight_skip [of "skip p"] by (auto simp: annotation_key_def split: option.splits if_splits)

lemmas annotation_key_consumes_sym [consumes] = annotation_key_consumes [OF sym]

function annotation_args :: "float_text \<Rightarrow> (rstr option \<times> rstr) list \<Rightarrow> Parser \<Rightarrow> (rstr option \<times> rstr) list parsed" where
  "annotation_args ft args p =
     (if at p RParen then Ok (args, p)
      else case annotation_key p of (key, q) \<Rightarrow>
        and_then (parse_expression_as_string ft q) (\<lambda>(val, p).
          if at p Comma then annotation_args ft (args @ [(key, val)]) (skip p) else Ok (args @ [(key, val)], p)))"
  by pat_completeness auto
termination
  by (relation "measure (\<lambda>(_, _, p). weight p)") (fastforce dest!: consumes dest: weight_skip_at)+

declare annotation_args.simps [simp del]

lemma annotation_args_consumes [consumes]: "annotation_args ft args p = Ok (x, q) \<Longrightarrow> weight q \<le> weight p"
proof (induction ft args p rule: annotation_args.induct)
  case (1 ft args p)
  obtain key r where key: "annotation_key p = (key, r)" by fastforce
  show ?case
  proof (cases "at p RParen")
    case True
    then show ?thesis using 1(2) by (simp add: annotation_args.simps [of _ _ p])
  next
    case False
    then obtain val t where t: "parse_expression_as_string ft r = Ok (val, t)"
        and rest: "(if at t Comma then annotation_args ft (args @ [(key, val)]) (skip t) else Ok (args @ [(key, val)], t)) = Ok (x, q)"
      using 1(2) key by (auto simp: annotation_args.simps [of _ _ p])
    have "weight t < weight p" using key t by (auto dest!: consumes)
    moreover have "weight q \<le> weight t"
      using rest 1(1) [OF False key [symmetric] t refl] weight_skip [of t] by (auto split: if_splits)
    ultimately show ?thesis by simp
  qed
qed

definition annotation_body :: "float_text \<Rightarrow> Parser \<Rightarrow> (rstr option \<times> rstr) list parsed" where
  "annotation_body ft p =
     (if at p LParen then
        and_then (annotation_args ft [] (skip p)) (\<lambda>(args, p).
          and_then (expect_token ft RParen p) (\<lambda>(_, p). Ok (args, p)))
      else Ok ([], p))"

lemma annotation_body_consumes [consumes]: "annotation_body ft p = Ok (x, q) \<Longrightarrow> weight q \<le> weight p"
  by (fastforce simp: annotation_body_def dest!: consumes dest: weight_skip_at split: if_splits)

function annotations_loop :: "float_text \<Rightarrow> Annotation list \<Rightarrow> Parser \<Rightarrow> Annotation list parsed" where
  "annotations_loop ft annos p =
     (if at p At then
        and_then (expect_ident ft (skip p)) (\<lambda>(name, p).
          and_then (annotation_body ft p) (\<lambda>(args, p).
            annotations_loop ft (annos @ [\<lparr>anno_name = fst name, anno_args = args\<rparr>]) p))
      else Ok (annos, p))"
  by pat_completeness auto
termination
  by (relation "measure (\<lambda>(_, _, p). weight p)") (fastforce dest!: consumes dest: weight_skip_at)+

declare annotations_loop.simps [simp del]

definition parse_annotations :: "float_text \<Rightarrow> Parser \<Rightarrow> Annotation list parsed" where
  "parse_annotations ft p = annotations_loop ft [] p"

lemma annotations_loop_consumes [consumes]: "annotations_loop ft annos p = Ok (x, q) \<Longrightarrow> weight q \<le> weight p"
proof (induction ft annos p rule: annotations_loop.induct)
  case (1 ft annos p)
  show ?case
  proof (cases "at p At")
    case True
    then obtain name r args t where r: "expect_ident ft (skip p) = Ok (name, r)" "annotation_body ft r = Ok (args, t)"
        and rest: "annotations_loop ft (annos @ [\<lparr>anno_name = fst name, anno_args = args\<rparr>]) t = Ok (x, q)"
      using 1(2) by (auto simp: annotations_loop.simps [of _ _ p])
    have "weight t \<le> weight p" using r weight_skip [of p] by (auto dest!: consumes)
    with 1(1) [OF True r(1) refl r(2) refl rest] show ?thesis by simp
  next
    case False
    then show ?thesis using 1(2) by (simp add: annotations_loop.simps [of _ _ p])
  qed
qed

lemma parse_annotations_consumes [consumes]: "parse_annotations ft p = Ok (x, q) \<Longrightarrow> weight q \<le> weight p"
  by (auto simp: parse_annotations_def dest: consumes)

definition has_nullable :: "Annotation list \<Rightarrow> bool" where
  "has_nullable annos \<longleftrightarrow> (\<exists>a\<in>set annos. anno_name a = str ''nullable'')"

section \<open>Types\<close>

function array_suffix :: "float_text \<Rightarrow> nat \<Rightarrow> Parser \<Rightarrow> nat parsed" where
  "array_suffix ft dims p =
     (if at p LBracket then and_then (expect_token ft RBracket (skip p)) (\<lambda>(_, p). array_suffix ft (dims + 1) p)
      else Ok (dims, p))"
  by pat_completeness auto
termination
  by (relation "measure (\<lambda>(_, _, p). weight p)") (fastforce dest!: consumes dest: weight_skip_at)+

declare array_suffix.simps [simp del]

lemma array_suffix_consumes [consumes]: "array_suffix ft dims p = Ok (x, q) \<Longrightarrow> weight q \<le> weight p"
proof (induction ft dims p rule: array_suffix.induct)
  case (1 ft dims p)
  show ?case
  proof (cases "at p LBracket")
    case True
    then obtain i r where r: "expect_token ft RBracket (skip p) = Ok (i, r)" and rest: "array_suffix ft (dims + 1) r = Ok (x, q)"
      using 1(2) by (auto simp: array_suffix.simps [of _ _ p])
    have "weight r \<le> weight p" using r weight_skip [of p] by (auto dest!: consumes)
    with 1(1) [OF True r refl rest] show ?thesis by simp
  next
    case False
    then show ?thesis using 1(2) by (simp add: array_suffix.simps [of _ _ p])
  qed
qed

definition expect_generic_close :: "float_text \<Rightarrow> Parser \<Rightarrow> nat parsed" where
  "expect_generic_close ft p =
     (if at p RAngleAngle then
        Ok (snd (peek_token p), (skip p)\<lparr>toks := (RAngle, snd (peek_token p) + 1) # toks (skip p)\<rparr>)
      else expect_token ft RAngle p)"

lemma expect_generic_close_consumes [consumes]: "expect_generic_close ft p = Ok (x, q) \<Longrightarrow> weight q < weight p"
  by (auto simp: expect_generic_close_def at_def peek_token_def weight_def skip_def token_weight_def
      split: if_splits list.splits dest!: consumes)

definition builtin_names :: "rstr list" where
  "builtin_names = primitive_names @ [str ''String'', str ''IBinder'']"

definition custom :: "rstr \<Rightarrow> ParseError" where
  "custom message = Custom message 0"

fun validate_type_shape :: "AidlType \<Rightarrow> (unit, ParseError) outcome"
  and validate_args :: "AidlType list \<Rightarrow> (unit, ParseError) outcome" where
  "validate_type_shape (AidlType name args dims nullable) =
     (if name = str ''void'' \<and> (dims \<noteq> 0 \<or> args \<noteq> []) then Err (custom (str ''void cannot be an array or generic type''))
      else if name \<in> set builtin_names \<and> args \<noteq> [] then Err (custom (name @ str '' cannot have type arguments''))
      else if name = str ''List'' \<and> length args \<noteq> 1 then
        Err (custom (name @ str '' requires exactly 1 type arguments''))
      else if name = str ''Map'' \<and> args \<noteq> [] \<and> length args \<noteq> 2 then
        Err (custom (name @ str '' requires 0 or 2 type arguments''))
      else if name \<noteq> str ''List'' \<and> name \<noteq> str ''Map'' \<and> args \<noteq> [] then
        Err (custom (name @ str '' is not a generic AIDL type''))
      else validate_args args)"
| "validate_args [] = Ok ()"
| "validate_args (arg # args) = and_then (validate_type_shape arg) (\<lambda>_. validate_args args)"

definition finish_type ::
  "float_text \<Rightarrow> Annotation list \<Rightarrow> rstr \<Rightarrow> AidlType list \<Rightarrow> Parser \<Rightarrow> AidlType parsed" where
  "finish_type ft annos name args p =
     and_then (array_suffix ft 0 p) (\<lambda>(dims, p).
       let ty = AidlType name args dims (has_nullable annos)
       in and_then (validate_type_shape ty) (\<lambda>_. Ok (ty, p)))"

lemma finish_type_consumes [consumes]: "finish_type ft annos name args p = Ok (x, q) \<Longrightarrow> weight q \<le> weight p"
  by (auto simp: finish_type_def Let_def dest!: consumes)

function (domintros) parse_type :: "float_text \<Rightarrow> Parser \<Rightarrow> AidlType parsed"
  and type_args :: "float_text \<Rightarrow> AidlType list \<Rightarrow> Parser \<Rightarrow> AidlType list parsed" where
  "parse_type ft p =
     and_then (parse_annotations ft p) (\<lambda>(annos, p).
       and_then (parse_qualified_ident ft p) (\<lambda>(name, p).
         if at p LAngle then
           and_then (type_args ft [] (skip p)) (\<lambda>(args, p).
             and_then (expect_generic_close ft p) (\<lambda>(_, p). finish_type ft annos name args p))
         else finish_type ft annos name [] p))"
| "type_args ft args p =
     (if at p RAngle then Ok (args, p)
      else
        and_then (parse_type ft p) (\<lambda>(gty, p).
          if at p Comma then type_args ft (args @ [gty]) (skip p) else Ok (args @ [gty], p)))"
  by pat_completeness auto

lemma type_consumes_dom:
  shows "parse_type_type_args_dom (Inl (ft, p)) \<Longrightarrow> parse_type ft p = Ok (ty, q) \<Longrightarrow> weight q < weight p"
    and "parse_type_type_args_dom (Inr (ft, args, p)) \<Longrightarrow> type_args ft args p = Ok (tys, q) \<Longrightarrow> weight q \<le> weight p"
proof (induction ft p and ft args p arbitrary: ty q and tys q rule: parse_type_type_args.pinduct)
  case (1 ft p)
  from 1(1, 3) obtain annos r name s where r: "parse_annotations ft p = Ok (annos, r)" "parse_qualified_ident ft r = Ok (name, s)"
      and rest: "(if at s LAngle then
           and_then (type_args ft [] (skip s)) (\<lambda>(args, p).
             and_then (expect_generic_close ft p) (\<lambda>(_, p). finish_type ft annos name args p))
         else finish_type ft annos name [] s) = Ok (ty, q)"
    by (auto simp: parse_type.psimps)
  have "weight s < weight p" using r by (auto dest!: consumes)
  moreover have "weight q \<le> weight s"
    using rest 1(2) [OF r(1) refl r(2) refl] weight_skip [of s]
    by (fastforce split: if_splits dest!: consumes)
  ultimately show ?case by simp
next
  case (2 ft args p)
  show ?case
  proof (cases "at p RAngle")
    case True
    then show ?thesis using 2(1, 4) by (simp add: type_args.psimps)
  next
    case False
    then obtain gty r where r: "parse_type ft p = Ok (gty, r)"
        and rest: "(if at r Comma then type_args ft (args @ [gty]) (skip r) else Ok (args @ [gty], r)) = Ok (tys, q)"
      using 2(1, 4) by (auto simp: type_args.psimps)
    show ?thesis
      using rest 2(2) [OF False r] 2(3) [OF False r refl] weight_skip [of r] by (fastforce split: if_splits)
  qed
qed

lemma type_total: "All parse_type_type_args_dom"
  by (rule "parse_type_type_args.termination" [of "measure (case_sum (\<lambda>(_, p). 2 * weight p) (\<lambda>(_, _, p). 2 * weight p + 1))"])
    (fastforce dest!: consumes dest: type_consumes_dom weight_skip_at)+

termination parse_type by (rule type_total)

declare parse_type.simps [simp del] type_args.simps [simp del]

lemma parse_type_consumes [consumes]: "parse_type ft p = Ok (ty, q) \<Longrightarrow> weight q < weight p"
  by (rule type_consumes_dom) (simp_all add: type_total)

section \<open>Members\<close>

definition parse_constant :: "float_text \<Rightarrow> Parser \<Rightarrow> AidlConstant parsed" where
  "parse_constant ft p =
     and_then (parse_type ft p) (\<lambda>(ty, p).
     and_then (expect_ident ft p) (\<lambda>(cname, p).
     and_then (expect_token ft Equals p) (\<lambda>(_, p).
     and_then (parse_expression_as_string ft p) (\<lambda>(val, p).
     and_then (expect_token ft Semi p) (\<lambda>(_, p).
       Ok (\<lparr>const_ty = ty, const_name = fst cname, const_value = val\<rparr>, p))))))"

definition parse_direction :: "Parser \<Rightarrow> Direction option \<times> Parser" where
  "parse_direction p =
     (if at p (Ident (str ''in'')) then (Some DIn, skip p)
      else if at p (Ident (str ''out'')) then (Some DOut, skip p)
      else if at p (Ident (str ''inout'')) then (Some DInOut, skip p)
      else (None, p))"

definition parse_arg :: "float_text \<Rightarrow> Parser \<Rightarrow> AidlArg parsed" where
  "parse_arg ft p =
     and_then (parse_annotations ft p) (\<lambda>(annos, p).
     case parse_direction p of (dir, p) \<Rightarrow>
     and_then (parse_type ft p) (\<lambda>(ty, p).
     and_then (expect_ident ft p) (\<lambda>(name, p).
       Ok (\<lparr>arg_annotations = annos, direction = dir, arg_ty = ty, arg_name = fst name\<rparr>, p))))"

lemma parse_constant_consumes [consumes]: "parse_constant ft p = Ok (x, q) \<Longrightarrow> weight q < weight p"
  by (fastforce simp: parse_constant_def dest!: consumes)

lemma parse_direction_consumes [consumes]: "parse_direction p = (d, q) \<Longrightarrow> weight q \<le> weight p"
  using weight_skip [of p] by (auto simp: parse_direction_def split: if_splits)

lemma parse_arg_consumes [consumes]:
  assumes "parse_arg ft p = Ok (x, q)"
  shows "weight q < weight p"
proof -
  obtain annos r where r: "parse_annotations ft p = Ok (annos, r)" using assms by (auto simp: parse_arg_def)
  obtain d s where "parse_direction r = (d, s)" by fastforce
  then show ?thesis using assms r by (auto simp: parse_arg_def dest!: consumes)
qed

function parse_args :: "float_text \<Rightarrow> AidlArg list \<Rightarrow> Parser \<Rightarrow> AidlArg list parsed" where
  "parse_args ft args p =
     (if at p RParen then Ok (args, p)
      else
        and_then (parse_arg ft p) (\<lambda>(arg, p).
          if at p Comma then parse_args ft (args @ [arg]) (skip p) else Ok (args @ [arg], p)))"
  by pat_completeness auto
termination
  by (relation "measure (\<lambda>(_, _, p). weight p)") (fastforce dest!: consumes dest: weight_skip_at)+

declare parse_args.simps [simp del]

lemma parse_args_consumes [consumes]: "parse_args ft args p = Ok (x, q) \<Longrightarrow> weight q \<le> weight p"
proof (induction ft args p rule: parse_args.induct)
  case (1 ft args p)
  show ?case
  proof (cases "at p RParen")
    case True
    then show ?thesis using 1(2) by (simp add: parse_args.simps [of _ _ p])
  next
    case False
    then obtain arg r where r: "parse_arg ft p = Ok (arg, r)"
        and rest: "(if at r Comma then parse_args ft (args @ [arg]) (skip r) else Ok (args @ [arg], r)) = Ok (x, q)"
      using 1(2) by (auto simp: parse_args.simps [of _ _ p])
    show ?thesis
      using rest 1(1) [OF False r refl] weight_skip [of r] parse_arg_consumes [OF r] by (auto split: if_splits)
  qed
qed

definition parse_transaction_id :: "float_text \<Rightarrow> Parser \<Rightarrow> u32 option parsed" where
  "parse_transaction_id ft p =
     (if at p Equals then
        case fst (peek_token (skip p)) of
          IntLit n \<Rightarrow> Ok (Some (of_nat n), skip (skip p))
        | _ \<Rightarrow> Err (expected_token ft (str ''integer transaction ID'') (peek_token (skip p)))
      else Ok (None, p))"

lemma parse_transaction_id_consumes [consumes]: "parse_transaction_id ft p = Ok (x, q) \<Longrightarrow> weight q \<le> weight p"
  using weight_skip [of p] weight_skip [of "skip p"]
  by (auto simp: parse_transaction_id_def split: if_splits Token.splits)

definition parse_method :: "float_text \<Rightarrow> bool \<Rightarrow> Annotation list \<Rightarrow> Parser \<Rightarrow> AidlMethod parsed" where
  "parse_method ft is_oneway member_annos p =
     (case match_ident (str ''oneway'') p of (m_oneway, p) \<Rightarrow>
     and_then (parse_type ft p) (\<lambda>(ty, p).
     and_then (expect_ident ft p) (\<lambda>(mname, p).
     and_then (expect_token ft LParen p) (\<lambda>(_, p).
     and_then (parse_args ft [] p) (\<lambda>(args, p).
     and_then (expect_token ft RParen p) (\<lambda>(_, p).
     and_then (parse_transaction_id ft p) (\<lambda>(id, p).
     and_then (expect_token ft Semi p) (\<lambda>(_, p).
       Ok (\<lparr>method_annotations = member_annos, method_oneway = is_oneway \<or> m_oneway,
            return_type = (if has_nullable member_annos then set_nullable ty else ty),
            method_name = fst mname, method_args = args, method_id = id\<rparr>, p)))))))))"

lemma parse_method_consumes [consumes]:
  assumes "parse_method ft w annos p = Ok (x, q)"
  shows "weight q < weight p"
proof -
  obtain b r where "match_ident (str ''oneway'') p = (b, r)" by fastforce
  then show ?thesis using assms by (auto simp: parse_method_def dest!: consumes)
qed

lemmas match_ident_consumes_sym [consumes] = match_ident_consumes [OF sym]

function interface_members ::
  "float_text \<Rightarrow> bool \<Rightarrow> AidlMethod list \<Rightarrow> AidlConstant list \<Rightarrow> Parser \<Rightarrow> (AidlMethod list \<times> AidlConstant list) parsed" where
  "interface_members ft is_oneway ms cs p =
     (if at p RBrace then Ok ((ms, cs), p)
      else
        and_then (parse_annotations ft p) (\<lambda>(member_annos, p).
          case match_ident (str ''const'') p of (is_const, p) \<Rightarrow>
            if is_const then
              and_then (parse_constant ft p) (\<lambda>(c, p). interface_members ft is_oneway ms (cs @ [c]) p)
            else
              and_then (parse_method ft is_oneway member_annos p) (\<lambda>(m, p).
                interface_members ft is_oneway (ms @ [m]) cs p)))"
  by pat_completeness auto

termination
  by (relation "measure (\<lambda>(_, _, _, _, p). weight p)") (fastforce dest!: consumes)+

declare interface_members.simps [simp del]

definition parse_field :: "float_text \<Rightarrow> Parser \<Rightarrow> AidlField parsed" where
  "parse_field ft p =
     and_then (parse_annotations ft p) (\<lambda>(annos, p).
     and_then (parse_type ft p) (\<lambda>(ty, p).
     and_then (expect_ident ft p) (\<lambda>(fname, p).
     and_then
       (if at p Equals then and_then (parse_expression_as_string ft (skip p)) (\<lambda>(v, p). Ok (Some v, p)) else Ok (None, p))
       (\<lambda>(default, p).
     and_then (expect_token ft Semi p) (\<lambda>(_, p).
       Ok (\<lparr>field_annotations = annos, field_ty = (if has_nullable annos then set_nullable ty else ty),
            field_name = fst fname, default_value = default\<rparr>, p))))))"

lemma parse_field_consumes [consumes]: "parse_field ft p = Ok (x, q) \<Longrightarrow> weight q < weight p"
  by (fastforce simp: parse_field_def dest!: consumes dest: weight_skip_at split: if_splits)

function parcelable_members :: "float_text \<Rightarrow> AidlField list \<Rightarrow> Parser \<Rightarrow> AidlField list parsed" where
  "parcelable_members ft fs p =
     (if at p RBrace then Ok (fs, p)
      else and_then (parse_field ft p) (\<lambda>(f, p). parcelable_members ft (fs @ [f]) p))"
  by pat_completeness auto
termination
  by (relation "measure (\<lambda>(_, _, p). weight p)") (fastforce dest!: consumes)+

definition parse_variant :: "float_text \<Rightarrow> Parser \<Rightarrow> EnumVariant parsed" where
  "parse_variant ft p =
     and_then (expect_ident ft p) (\<lambda>(vname, p).
     and_then
       (if at p Equals then and_then (parse_expression_as_string ft (skip p)) (\<lambda>(v, p). Ok (Some v, p)) else Ok (None, p))
       (\<lambda>(value, p). Ok (\<lparr>variant_name = fst vname, variant_value = value\<rparr>, p)))"

lemma parse_variant_consumes [consumes]: "parse_variant ft p = Ok (x, q) \<Longrightarrow> weight q < weight p"
  by (fastforce simp: parse_variant_def dest!: consumes dest: weight_skip_at split: if_splits)

function enum_variants :: "float_text \<Rightarrow> EnumVariant list \<Rightarrow> Parser \<Rightarrow> EnumVariant list parsed" where
  "enum_variants ft vs p =
     (if at p RBrace then Ok (vs, p)
      else
        and_then (parse_variant ft p) (\<lambda>(v, p).
          if at p Comma then enum_variants ft (vs @ [v]) (skip p) else Ok (vs @ [v], p)))"
  by pat_completeness auto
termination
  by (relation "measure (\<lambda>(_, _, p). weight p)") (fastforce dest!: consumes dest: weight_skip_at)+

definition parse_union_field :: "float_text \<Rightarrow> Parser \<Rightarrow> AidlField parsed" where
  "parse_union_field ft p =
     and_then (parse_annotations ft p) (\<lambda>(annos, p).
     and_then (parse_type ft p) (\<lambda>(ty, p).
     and_then (expect_ident ft p) (\<lambda>(fname, p).
     and_then (expect_token ft Semi p) (\<lambda>(_, p).
       Ok (\<lparr>field_annotations = annos, field_ty = ty, field_name = fst fname, default_value = None\<rparr>, p)))))"

lemma parse_union_field_consumes [consumes]: "parse_union_field ft p = Ok (x, q) \<Longrightarrow> weight q < weight p"
  by (fastforce simp: parse_union_field_def dest!: consumes)

function union_members :: "float_text \<Rightarrow> AidlField list \<Rightarrow> Parser \<Rightarrow> AidlField list parsed" where
  "union_members ft fs p =
     (if at p RBrace then Ok (fs, p)
      else and_then (parse_union_field ft p) (\<lambda>(f, p). union_members ft (fs @ [f]) p))"
  by pat_completeness auto
termination
  by (relation "measure (\<lambda>(_, _, p). weight p)") (fastforce dest!: consumes)+

declare parcelable_members.simps [simp del] enum_variants.simps [simp del] union_members.simps [simp del]

lemma parcelable_members_consumes [consumes]: "parcelable_members ft xs p = Ok (x, q) \<Longrightarrow> weight q \<le> weight p"
proof (induction ft xs p rule: parcelable_members.induct)
  case (1 ft xs p)
  show ?case
  proof (cases "at p RBrace")
    case True
    then show ?thesis using 1(2) by (simp add: parcelable_members.simps [of _ _ p])
  next
    case False
    then obtain f r where r: "parse_field ft p = Ok (f, r)" and rest: "parcelable_members ft (xs @ [f]) r = Ok (x, q)"
      using 1(2) by (auto simp: parcelable_members.simps [of _ _ p])
    show ?thesis using 1(1) [OF False r refl rest] parse_field_consumes [OF r] by simp
  qed
qed

lemma union_members_consumes [consumes]: "union_members ft xs p = Ok (x, q) \<Longrightarrow> weight q \<le> weight p"
proof (induction ft xs p rule: union_members.induct)
  case (1 ft xs p)
  show ?case
  proof (cases "at p RBrace")
    case True
    then show ?thesis using 1(2) by (simp add: union_members.simps [of _ _ p])
  next
    case False
    then obtain f r where r: "parse_union_field ft p = Ok (f, r)" and rest: "union_members ft (xs @ [f]) r = Ok (x, q)"
      using 1(2) by (auto simp: union_members.simps [of _ _ p])
    show ?thesis using 1(1) [OF False r refl rest] parse_union_field_consumes [OF r] by simp
  qed
qed

lemma enum_variants_consumes [consumes]: "enum_variants ft vs p = Ok (x, q) \<Longrightarrow> weight q \<le> weight p"
proof (induction ft vs p rule: enum_variants.induct)
  case (1 ft vs p)
  show ?case
  proof (cases "at p RBrace")
    case True
    then show ?thesis using 1(2) by (simp add: enum_variants.simps [of _ _ p])
  next
    case False
    then obtain v r where r: "parse_variant ft p = Ok (v, r)"
        and rest: "(if at r Comma then enum_variants ft (vs @ [v]) (skip r) else Ok (vs @ [v], r)) = Ok (x, q)"
      using 1(2) by (auto simp: enum_variants.simps [of _ _ p])
    show ?thesis
      using rest 1(1) [OF False r refl] weight_skip [of r] parse_variant_consumes [OF r] by (auto split: if_splits)
  qed
qed

lemma interface_members_cases:
  assumes "interface_members ft w ms cs p = Ok (x, q)" and "\<not> at p RBrace"
  obtains (const) annos r r' c s where "parse_annotations ft p = Ok (annos, r)" "match_ident (str ''const'') r = (True, r')"
      "parse_constant ft r' = Ok (c, s)" "interface_members ft w ms (cs @ [c]) s = Ok (x, q)"
  | (meth) annos r r' m s where "parse_annotations ft p = Ok (annos, r)" "match_ident (str ''const'') r = (False, r')"
      "parse_method ft w annos r' = Ok (m, s)" "interface_members ft w (ms @ [m]) cs s = Ok (x, q)"
proof -
  obtain annos r where r: "parse_annotations ft p = Ok (annos, r)"
    using assms by (auto simp: interface_members.simps [of _ _ _ _ p])
  obtain b r' where b: "match_ident (str ''const'') r = (b, r')" by fastforce
  show ?thesis
    using assms r b that by (cases b) (auto simp: interface_members.simps [of _ _ _ _ p])
qed

lemma interface_members_consumes [consumes]: "interface_members ft w ms cs p = Ok (x, q) \<Longrightarrow> weight q \<le> weight p"
proof (induction ft w ms cs p rule: interface_members.induct)
  case (1 ft w ms cs p)
  show ?case
  proof (cases "at p RBrace")
    case True
    then show ?thesis using 1(3) by (simp add: interface_members.simps [of _ _ _ _ p])
  next
    case False
    from 1(3) False show ?thesis
    proof (cases rule: interface_members_cases)
      case (const annos r r' c s)
      then show ?thesis using 1(1) [OF False const(1) refl const(2) [symmetric] _ const(3) refl const(4)] by (auto dest!: consumes)
    next
      case (meth annos r r' m s)
      then show ?thesis using 1(2) [OF False meth(1) refl meth(2) [symmetric] _ meth(3) refl meth(4)] by (auto dest!: consumes)
    qed
  qed
qed

section \<open>Declarations and files\<close>

definition parse_interface :: "float_text \<Rightarrow> Annotation list \<Rightarrow> bool \<Rightarrow> Parser \<Rightarrow> AidlDecl parsed" where
  "parse_interface ft annos is_oneway p =
     and_then (expect_ident ft p) (\<lambda>(name, p).
     and_then
       (case match_ident (str ''extends'') p of (b, p) \<Rightarrow>
          if b then and_then (parse_qualified_ident ft p) (\<lambda>(e, p). Ok (Some e, p)) else Ok (None, p))
       (\<lambda>(extended, p).
     and_then (expect_token ft LBrace p) (\<lambda>(_, p).
     and_then (interface_members ft is_oneway [] [] p) (\<lambda>(members, p).
     and_then (expect_token ft RBrace p) (\<lambda>(_, p).
       Ok (Interface \<lparr>iface_annotations = annos, iface_oneway = is_oneway, iface_name = fst name,
             extends = extended, methods = fst members, constants = snd members\<rparr>, p))))))"

definition parse_cpp_header :: "float_text \<Rightarrow> Parser \<Rightarrow> rstr option parsed" where
  "parse_cpp_header ft p =
     (case match_ident (str ''cpp_header'') p of (b, p) \<Rightarrow>
        if b then
          case fst (peek_token p) of
            StringLit h \<Rightarrow> Ok (Some h, skip p)
          | _ \<Rightarrow> Err (expected_token ft (str ''string header path'') (peek_token p))
        else Ok (None, p))"

definition parse_parcelable :: "float_text \<Rightarrow> Annotation list \<Rightarrow> Parser \<Rightarrow> AidlDecl parsed" where
  "parse_parcelable ft annos p =
     and_then (expect_ident ft p) (\<lambda>(name, p).
     and_then (parse_cpp_header ft p) (\<lambda>(header, p).
       if at p Semi then
         Ok (Parcelable \<lparr>parcelable_annotations = annos, parcelable_name = fst name, cpp_header = header,
               parcelable_fields = []\<rparr>, skip p)
       else
         and_then (expect_token ft LBrace p) (\<lambda>(_, p).
         and_then (parcelable_members ft [] p) (\<lambda>(fs, p).
         and_then (expect_token ft RBrace p) (\<lambda>(_, p).
           Ok (Parcelable \<lparr>parcelable_annotations = annos, parcelable_name = fst name, cpp_header = header,
                 parcelable_fields = fs\<rparr>, p))))))"

definition parse_enum :: "float_text \<Rightarrow> Annotation list \<Rightarrow> Parser \<Rightarrow> AidlDecl parsed" where
  "parse_enum ft annos p =
     and_then (expect_ident ft p) (\<lambda>(name, p).
     and_then (expect_token ft LBrace p) (\<lambda>(_, p).
     and_then (enum_variants ft [] p) (\<lambda>(vs, p).
     and_then (expect_token ft RBrace p) (\<lambda>(_, p).
       Ok (Enum \<lparr>enum_annotations = annos, enum_name = fst name, backing_type = None, variants = vs\<rparr>, p)))))"

definition parse_union :: "float_text \<Rightarrow> Annotation list \<Rightarrow> Parser \<Rightarrow> AidlDecl parsed" where
  "parse_union ft annos p =
     and_then (expect_ident ft p) (\<lambda>(name, p).
     and_then (expect_token ft LBrace p) (\<lambda>(_, p).
     and_then (union_members ft [] p) (\<lambda>(fs, p).
     and_then (expect_token ft RBrace p) (\<lambda>(_, p).
       Ok (Union \<lparr>union_annotations = annos, union_name = fst name, union_fields = fs\<rparr>, p)))))"

definition parse_decl :: "float_text \<Rightarrow> Parser \<Rightarrow> AidlDecl parsed" where
  "parse_decl ft p =
     and_then (parse_annotations ft p) (\<lambda>(annos, p).
     case match_ident (str ''oneway'') p of (is_oneway, p) \<Rightarrow>
     and_then (expect_ident ft p) (\<lambda>(kind, p).
       if fst kind = str ''interface'' then parse_interface ft annos is_oneway p
       else if fst kind = str ''parcelable'' then parse_parcelable ft annos p
       else if fst kind = str ''enum'' then parse_enum ft annos p
       else if fst kind = str ''union'' then parse_union ft annos p
       else Err (Custom (str ''Unknown declaration type '' @ [0x27] @ fst kind @ [0x27]) (snd kind))))"

lemma parse_interface_consumes [consumes]:
  assumes "parse_interface ft annos w p = Ok (x, q)"
  shows "weight q \<le> weight p"
proof -
  obtain name r where r: "expect_ident ft p = Ok (name, r)" using assms by (auto simp: parse_interface_def)
  obtain b s where "match_ident (str ''extends'') r = (b, s)" by fastforce
  then show ?thesis using assms r by (auto simp: parse_interface_def dest!: consumes split: if_splits)
qed

lemma parse_cpp_header_consumes [consumes]: "parse_cpp_header ft p = Ok (x, q) \<Longrightarrow> weight q \<le> weight p"
  using weight_skip [of p] weight_skip [of "skip p"]
  by (auto simp: parse_cpp_header_def match_ident_def split: if_splits Token.splits)

lemma parse_parcelable_consumes [consumes]: "parse_parcelable ft annos p = Ok (x, q) \<Longrightarrow> weight q \<le> weight p"
  by (fastforce simp: parse_parcelable_def dest!: consumes dest: weight_skip_at split: if_splits)

lemma parse_enum_consumes [consumes]: "parse_enum ft annos p = Ok (x, q) \<Longrightarrow> weight q \<le> weight p"
  by (fastforce simp: parse_enum_def dest!: consumes)

lemma parse_union_consumes [consumes]: "parse_union ft annos p = Ok (x, q) \<Longrightarrow> weight q \<le> weight p"
  by (fastforce simp: parse_union_def dest!: consumes)

lemma parse_decl_consumes [consumes]:
  assumes "parse_decl ft p = Ok (x, q)"
  shows "weight q < weight p"
proof -
  obtain annos r where r: "parse_annotations ft p = Ok (annos, r)" using assms by (auto simp: parse_decl_def)
  obtain b s where "match_ident (str ''oneway'') r = (b, s)" by fastforce
  then show ?thesis using assms r by (auto simp: parse_decl_def dest!: consumes split: if_splits)
qed

definition parse_dotted_line :: "float_text \<Rightarrow> Parser \<Rightarrow> rstr parsed" where
  "parse_dotted_line ft p =
     and_then (parse_qualified_ident ft p) (\<lambda>(name, p).
       and_then (expect_token ft Semi p) (\<lambda>(_, p). Ok (name, p)))"

lemma parse_dotted_line_consumes [consumes]: "parse_dotted_line ft p = Ok (x, q) \<Longrightarrow> weight q < weight p"
  by (fastforce simp: parse_dotted_line_def dest!: consumes)

function parse_file :: "float_text \<Rightarrow> AidlFile \<Rightarrow> Parser \<Rightarrow> (AidlFile, ParseError) outcome" where
  "parse_file ft file1 p =
     (if at p Eof then Ok file1
      else if at p (Ident (str ''package'')) then
        and_then (parse_dotted_line ft (skip p)) (\<lambda>(pkg, p). parse_file ft (file1\<lparr>package := Some pkg\<rparr>) p)
      else if at p (Ident (str ''import'')) then
        and_then (parse_dotted_line ft (skip p)) (\<lambda>(imp, p).
          parse_file ft (file1\<lparr>imported := imported file1 @ [imp]\<rparr>) p)
      else
        and_then (parse_decl ft p) (\<lambda>(decl, p). parse_file ft (file1\<lparr>decls := decls file1 @ [decl]\<rparr>) p))"
  by pat_completeness auto
termination
  by (relation "measure (\<lambda>(_, _, p). weight p)") (fastforce dest!: consumes dest: weight_skip_at)+

declare parse_file.simps [simp del]

definition AidlFile_default :: AidlFile where
  "AidlFile_default = \<lparr>package = None, imported = [], decls = []\<rparr>"

definition parse_str :: "float_text \<Rightarrow> rstr \<Rightarrow> (AidlFile, ParseError) outcome" where
  "parse_str ft input = and_then (tokenize ft input) (\<lambda>ts. parse_file ft AidlFile_default (Parser_new ts))"

end
