(* ===== verification/Aidl_Expression.thy ===== *)
theory Aidl_Expression
  imports Aidl_Parser
begin

text \<open>
  The grammar of the constant expressions that the AIDL parser reads by precedence climbing, and that the parser
  reads exactly that grammar: every expression of it is read to its end and turned into its parenthesised text,
  and whatever the parser accepts is the text of one of them.
\<close>

section \<open>The grammar\<close>

datatype expr =
    Literal Token
  | Unary Token expr
  | Binary Token expr expr
  | Paren expr

fun expr_tokens :: "expr \<Rightarrow> Token list" where
  "expr_tokens (Literal t) = [t]"
| "expr_tokens (Unary t e) = t # expr_tokens e"
| "expr_tokens (Binary t l r) = expr_tokens l @ t # expr_tokens r"
| "expr_tokens (Paren e) = LParen # expr_tokens e @ [RParen]"

definition precedence :: "Token \<Rightarrow> nat option" where
  "precedence t = map_option snd (binary_operator t)"

fun expr_text :: "float_text \<Rightarrow> expr \<Rightarrow> rstr" where
  "expr_text ft (Literal t) = the (literal_text ft t)"
| "expr_text ft (Unary t e) = the (unary_operator t) @ expr_text ft e"
| "expr_text ft (Binary t l r) =
     str ''('' @ expr_text ft l @ fst (the (binary_operator t)) @ expr_text ft r @ str '')''"
| "expr_text ft (Paren e) = parenthesised (expr_text ft e)"

text \<open>
  An operator of precedence \<open>j\<close> right after an expression belongs to the last operand of it: to the right operand of
  a weaker operator, or to the operand of a unary operator, which takes the operators of precedence 10.
\<close>

fun absorbs :: "nat \<Rightarrow> expr \<Rightarrow> bool" where
  "absorbs j (Literal t) \<longleftrightarrow> False"
| "absorbs j (Unary t e) \<longleftrightarrow> 10 \<le> j \<or> absorbs j e"
| "absorbs j (Binary t l r) \<longleftrightarrow> the (precedence t) < j \<or> absorbs j r"
| "absorbs j (Paren e) \<longleftrightarrow> False"

fun fits :: "float_text \<Rightarrow> nat \<Rightarrow> expr \<Rightarrow> bool" where
  "fits ft m (Literal t) \<longleftrightarrow> literal_text ft t \<noteq> None"
| "fits ft m (Unary t e) \<longleftrightarrow> unary_operator t \<noteq> None \<and> fits ft 10 e"
| "fits ft m (Binary t l r) \<longleftrightarrow>
     (case precedence t of
        None \<Rightarrow> False
      | Some k \<Rightarrow> m \<le> k \<and> fits ft m l \<and> \<not> absorbs k l \<and> fits ft (k + 1) r)"
| "fits ft m (Paren e) \<longleftrightarrow> fits ft 0 e"

definition ends_operand :: "expr \<Rightarrow> Parser \<Rightarrow> bool" where
  "ends_operand e p \<longleftrightarrow> (case precedence (fst (peek_token p)) of None \<Rightarrow> True | Some j \<Rightarrow> \<not> absorbs j e)"

definition stops :: "nat \<Rightarrow> Parser \<Rightarrow> bool" where
  "stops m p \<longleftrightarrow> (case precedence (fst (peek_token p)) of None \<Rightarrow> True | Some j \<Rightarrow> j < m)"

definition skip_n :: "nat \<Rightarrow> Parser \<Rightarrow> Parser" where
  "skip_n n p = p\<lparr>toks := drop n (toks p)\<rparr>"

section \<open>Every expression of the grammar is read\<close>

lemma skip_n_0 [simp]: "skip_n 0 p = p"
  by (simp add: skip_n_def)

lemma skip_n_Suc: "skip_n (Suc n) p = skip_n n (skip p)"
  by (simp add: skip_n_def skip_def drop_Suc)

lemma skip_n_plus [simp]: "skip_n m (skip_n n p) = skip_n (n + m) p"
  by (simp add: skip_n_def add.commute)

lemma toks_skip_n [simp]: "toks (skip_n n p) = drop n (toks p)"
  by (simp add: skip_n_def)

lemma toks_skip [simp]: "toks (skip p) = tl (toks p)"
  by (simp add: skip_def)

lemma skip_skip_n: "skip (skip_n n p) = skip_n (Suc n) p"
  by (simp add: skip_n_def skip_def drop_Suc drop_tl)

lemma peek_token_Cons: "map fst (toks p) = t # ts \<Longrightarrow> fst (peek_token p) = t"
  by (cases "toks p") (auto simp: peek_token_def)

lemma operator_loop_stops: "stops m p \<Longrightarrow> operator_loop ft m l p = Ok (l, p)"
  by (auto simp: operator_loop.simps [of _ _ _ p] stops_def precedence_def split: option.splits)

lemma operator_loop_step:
  assumes "fst (peek_token p) = t" and "precedence t = Some k" and "m \<le> k"
  shows "operator_loop ft m l p =
    and_then (parse_expression_bp ft (k + 1) (skip p)) (\<lambda>(right, p).
      operator_loop ft m (str ''('' @ l @ fst (the (binary_operator t)) @ right @ str '')'') p)"
  using assms by (auto simp: operator_loop.simps [of _ _ _ p] precedence_def)

lemma parse_fits:
  assumes "fits ft m e" and "map fst (toks p) = expr_tokens e @ ts" and "ends_operand e (skip_n (length (expr_tokens e)) p)"
  shows "parse_expression_bp ft m p = operator_loop ft m (expr_text ft e) (skip_n (length (expr_tokens e)) p)"
  using assms
proof (induction e arbitrary: m p ts)
  case (Literal t)
  then show ?case by (auto simp: parse_expression_bp.simps [of _ _ p] peek_token_Cons skip_n_Suc)
next
  case (Unary t e)
  have peek_token: "fst (peek_token p) = t" using Unary.prems(2) by (simp add: peek_token_Cons)
  have lit: "literal_text ft t = None" using Unary.prems(1) by (auto simp: unary_operator_def literal_text_def split: if_splits)
  let ?q = "skip_n (length (expr_tokens e)) (skip p)"
  have q: "skip_n (length (expr_tokens (Unary t e))) p = ?q" by (simp add: skip_n_Suc)
  have "ends_operand e ?q" and "stops 10 ?q"
    using Unary.prems(3) unfolding q by (auto simp: ends_operand_def stops_def split: option.splits)
  moreover have "map fst (toks (skip p)) = expr_tokens e @ ts" using Unary.prems(2) by (simp add: map_tl)
  ultimately have "parse_expression_bp ft 10 (skip p) = Ok (expr_text ft e, ?q)"
    using Unary.IH [of 10 "skip p" ts] Unary.prems(1) by (simp add: operator_loop_stops)
  then show ?case
    using peek_token lit Unary.prems(1) unfolding q by (auto simp: parse_expression_bp.simps [of _ _ p])
next
  case (Binary t l r)
  obtain k where k: "precedence t = Some k" "m \<le> k" "fits ft m l" "\<not> absorbs k l" "fits ft (k + 1) r"
    using Binary.prems(1) by (auto split: option.splits)
  let ?a = "skip_n (length (expr_tokens l)) p"
  let ?q = "skip_n (length (expr_tokens (Binary t l r))) p"
  have toks: "map fst (toks p) = expr_tokens l @ t # expr_tokens r @ ts" using Binary.prems(2) by simp
  have a: "fst (peek_token ?a) = t" by (rule peek_token_Cons) (simp add: toks flip: drop_map)
  have "map fst (toks (skip ?a)) = expr_tokens r @ ts" by (simp add: map_tl toks flip: drop_map)
  moreover have q: "skip_n (length (expr_tokens r)) (skip ?a) = ?q" by (simp add: skip_skip_n)
  moreover have "ends_operand r ?q" "stops (k + 1) ?q"
    using Binary.prems(3) k(1) by (auto simp: ends_operand_def stops_def split: option.splits)
  ultimately have "parse_expression_bp ft (k + 1) (skip ?a) = Ok (expr_text ft r, ?q)"
    using Binary.IH(2) [of "k + 1" "skip ?a" ts] k(5) by (simp add: operator_loop_stops)
  then have "operator_loop ft m (expr_text ft l) ?a = operator_loop ft m (expr_text ft (Binary t l r)) ?q"
    using operator_loop_step [OF a k(1, 2), of ft "expr_text ft l"] by simp
  moreover have "parse_expression_bp ft m p = operator_loop ft m (expr_text ft l) ?a"
    using Binary.IH(1) [of m p "t # expr_tokens r @ ts"] toks k a by (simp add: ends_operand_def)
  ultimately show ?case by simp
next
  case (Paren e)
  have peek_token: "fst (peek_token p) = LParen" using Paren.prems(2) by (simp add: peek_token_Cons)
  let ?q = "skip_n (length (expr_tokens e)) (skip p)"
  have toks: "map fst (toks (skip p)) = expr_tokens e @ RParen # ts" using Paren.prems(2) by (simp add: map_tl)
  have q: "fst (peek_token ?q) = RParen" by (rule peek_token_Cons) (use toks in \<open>simp flip: drop_map\<close>)
  have "precedence RParen = None" by (simp add: precedence_def binary_operator_def)
  then have "parse_expression_bp ft 0 (skip p) = Ok (expr_text ft e, ?q)"
    using Paren.IH [of 0 "skip p" "RParen # ts"] Paren.prems(1) toks q by (simp add: operator_loop_stops stops_def ends_operand_def)
  moreover have "literal_text ft LParen = None" "unary_operator LParen = None" by (simp_all add: literal_text_def unary_operator_def)
  ultimately show ?case
    using peek_token q by (simp add: parse_expression_bp.simps [of _ _ p] at_def expect_token_def skip_skip_n flip: skip_n_Suc)
qed

section \<open>Whatever is read is an expression of the grammar\<close>

definition reads :: "float_text \<Rightarrow> nat \<Rightarrow> expr \<Rightarrow> Parser \<Rightarrow> Parser \<Rightarrow> bool" where
  "reads ft m e p q \<longleftrightarrow>
     fits ft m e \<and> map fst (take (length (expr_tokens e)) (toks p)) = expr_tokens e \<and>
     q = skip_n (length (expr_tokens e)) p \<and> ends_operand e q"

lemma reads_token: "fst (peek_token p) = t \<Longrightarrow> t \<noteq> Eof \<Longrightarrow> map fst (take 1 (toks p)) = [t]"
  by (cases "toks p") (auto simp: peek_token_def)

lemma take_tokens_Cons:
  assumes "fst (peek_token p) = t" and "t \<noteq> Eof" and "map fst (take n (toks (skip p))) = ts"
  shows "map fst (take (Suc n) (toks p)) = t # ts"
  using assms by (cases "toks p") (auto simp: peek_token_def)

lemma take_tokens_append:
  assumes "map fst (take (length ts) (toks p)) = ts" and "map fst (take n (toks (skip_n (length ts) p))) = us"
  shows "map fst (take (length ts + n) (toks p)) = ts @ us"
  using assms by (simp add: take_add)

lemma reads_Literal:
  assumes "literal_text ft (fst (peek_token p)) = Some s"
  shows "reads ft m (Literal (fst (peek_token p))) p (skip p)"
  using assms reads_token [OF refl literal_not_Eof [OF assms]]
  by (auto simp: reads_def skip_n_Suc ends_operand_def split: option.splits)

lemma reads_Unary:
  assumes "unary_operator (fst (peek_token p)) = Some s" and "reads ft 10 e (skip p) q" and "stops 10 q"
  shows "reads ft m (Unary (fst (peek_token p)) e) p q"
  using assms take_tokens_Cons [OF refl unary_not_Eof [OF assms(1)]]
  by (auto simp: reads_def skip_n_Suc ends_operand_def stops_def split: option.splits)

lemma reads_Paren:
  assumes "fst (peek_token p) = LParen" and "reads ft 0 e (skip p) q" and "fst (peek_token q) = RParen"
  shows "reads ft m (Paren e) p (skip q)"
proof -
  have "map fst (take (length (expr_tokens e) + 1) (toks (skip p))) = expr_tokens e @ [RParen]"
    by (rule take_tokens_append) (use assms(2) reads_token [OF assms(3)] in \<open>auto simp: reads_def simp del: take_Suc\<close>)
  then have "map fst (take (Suc (length (expr_tokens e) + 1)) (toks p)) = LParen # expr_tokens e @ [RParen]"
    by (intro take_tokens_Cons assms) auto
  then show ?thesis
    using assms(2) by (auto simp: reads_def skip_skip_n skip_n_Suc [of _ p, symmetric] ends_operand_def simp flip: skip_n_Suc split: option.splits)
qed

lemma reads_Binary:
  assumes "reads ft m l p a" and "fst (peek_token a) = t" and "precedence t = Some k" and "m \<le> k"
    and "reads ft (k + 1) r (skip a) q" and "stops (k + 1) q"
  shows "reads ft m (Binary t l r) p q"
proof -
  have t: "t \<noteq> Eof" using assms(3) by (auto simp: precedence_def binary_operator_def)
  have "map fst (take (length (expr_tokens l) + Suc (length (expr_tokens r))) (toks p)) = expr_tokens l @ t # expr_tokens r"
    by (rule take_tokens_append)
      (use assms(1, 5) take_tokens_Cons [OF assms(2) t, of "length (expr_tokens r)" "expr_tokens r"] in \<open>auto simp: reads_def\<close>)
  then show ?thesis
    using assms by (auto simp: reads_def ends_operand_def stops_def skip_skip_n split: option.splits)
qed

lemma parse_reads:
  shows "parse_expression_bp ft m p = Ok (v, q) \<Longrightarrow> \<exists>e. reads ft m e p q \<and> v = expr_text ft e \<and> stops m q"
    and "operator_loop ft m l a = Ok (v, q) \<Longrightarrow> reads ft m e0 p0 a \<Longrightarrow> l = expr_text ft e0 \<Longrightarrow>
      \<exists>e. reads ft m e p0 q \<and> v = expr_text ft e \<and> stops m q"
proof (induction ft m p and ft m l a arbitrary: v q and v q e0 p0 rule: parse_expression_bp_operator_loop.induct)
  case (1 ft m p)
  from 1(4) obtain left r where
      left: "(case literal_text ft (fst (peek_token p)) of
          Some s \<Rightarrow> Ok (s, skip p)
        | None \<Rightarrow>
            case unary_operator (fst (peek_token p)) of
              Some s \<Rightarrow> and_then (parse_expression_bp ft 10 (skip p)) (\<lambda>(v, p). Ok (s @ v, p))
            | None \<Rightarrow>
                if at p LParen then
                  and_then (parse_expression_bp ft 0 (skip p)) (\<lambda>(v, p).
                    and_then (expect_token ft RParen p) (\<lambda>(_, p). Ok (parenthesised v, p)))
                else Err (expected_token ft (str ''constant expression operand'') (peek_token p))) = Ok (left, r)"
    and loop: "operator_loop ft m left r = Ok (v, q)"
    by (auto simp: parse_expression_bp.simps [of _ _ p])
  have "\<exists>e. reads ft m e p r \<and> left = expr_text ft e"
  proof (cases "literal_text ft (fst (peek_token p))")
    case (Some s)
    then show ?thesis using left reads_Literal [OF Some, of m] by fastforce
  next
    case lit: None
    show ?thesis
    proof (cases "unary_operator (fst (peek_token p))")
      case (Some s)
      with left lit obtain w where "parse_expression_bp ft 10 (skip p) = Ok (w, r)" "left = s @ w" by auto
      then show ?thesis using 1(2) [OF lit Some] reads_Unary [OF Some] Some by fastforce
    next
      case un: None
      with left lit obtain w r' i where w: "at p LParen" "parse_expression_bp ft 0 (skip p) = Ok (w, r')"
          "expect_token ft RParen r' = Ok (i, r)" "left = parenthesised w"
        by (auto split: if_splits)
      then have "fst (peek_token r') = RParen" "r = skip r'" by (auto simp: expect_token_def at_def split: if_splits)
      then show ?thesis using 1(1) [OF lit un w(1, 2)] reads_Paren [of p ft _ r' m] w(1, 4) by (fastforce simp: at_def)
    qed
  qed
  then show ?case using 1(3) [OF left refl loop] by blast
next
  case (2 ft m l a)
  show ?case
  proof (cases "stops m a")
    case True
    then show ?thesis using 2(3, 4, 5) by (auto simp: operator_loop_stops)
  next
    case False
    then obtain operator k where op: "binary_operator (fst (peek_token a)) = Some (operator, k)" "\<not> k < m"
      by (auto simp: stops_def precedence_def split: option.splits)
    then have k: "precedence (fst (peek_token a)) = Some k" "m \<le> k" by (auto simp: precedence_def)
    from 2(3) obtain right r where r: "parse_expression_bp ft (k + 1) (skip a) = Ok (right, r)"
        and loop: "operator_loop ft m (str ''('' @ l @ operator @ right @ str '')'') r = Ok (v, q)"
      using op by (auto simp: operator_loop_step [OF refl k])
    from 2(1) [OF op(1) refl op(2) r] obtain e where e: "reads ft (k + 1) e (skip a) r" "right = expr_text ft e" "stops (k + 1) r"
      by blast
    have "reads ft m (Binary (fst (peek_token a)) e0 e) p0 r" using reads_Binary [OF 2(4) refl k e(1, 3)] .
    then show ?thesis using 2(2) [OF op(1) refl op(2) r refl loop] 2(5) e(2) op(1) by simp
  qed
qed

lemma stops_0: "stops 0 q \<longleftrightarrow> binary_operator (fst (peek_token q)) = None"
  by (auto simp: stops_def precedence_def split: option.splits)


text \<open>
  The operand of a unary operator is read at precedence 10, so that it takes the products that follow: \<open>~a * b\<close> is
  read as \<open>~(a * b)\<close>, where C reads \<open>(~a) * b\<close>.
\<close>

lemma unary_takes_product:
  assumes "map fst (toks p) = [t, Ident a, Star, Ident b, Semi]" and "unary_operator t = Some s"
  shows "parse_expression_as_string ft p = Ok (s @ str ''('' @ a @ str ''*'' @ b @ str '')'', skip_n 4 p)"
proof -
  let ?e = "Unary t (Binary Star (Literal (Ident a)) (Literal (Ident b)))"
  have "fits ft 0 ?e" "expr_text ft ?e = s @ str ''('' @ a @ str ''*'' @ b @ str '')''"
    using assms(2) by (simp_all add: precedence_def binary_operator_def literal_text_def)
  moreover have "fst (peek_token (skip_n 4 p)) = Semi" by (rule peek_token_Cons) (use assms(1) in \<open>simp flip: drop_map\<close>)
  then have "stops 0 (skip_n 4 p)" by (simp add: stops_0 binary_operator_def)
  moreover have "ends_operand ?e (skip_n 4 p)" using \<open>stops 0 _\<close> by (auto simp: stops_def ends_operand_def split: option.splits)
  ultimately show ?thesis
    using parse_fits [of ft 0 ?e p "[Semi]"] assms(1) by (simp add: parse_expression_as_string_def operator_loop_stops numeral_eq_Suc)
qed


end
