(* ===== verification/Aidl_Lexing.thy ===== *)
theory Aidl_Lexing
  imports Aidl_Lexer
begin

text \<open>
  Correctness of the AIDL lexer: the printed form of a list of tokens lexes back to these tokens at their offsets, for
  identifiers, integers, string literals and every operator but \<open>/\<close>. The division operator and hexadecimal literals
  that end in \<open>f\<close> are the two places where the lexer does not give the token that is written.
\<close>

section \<open>The printed form of tokens\<close>

definition escape_string :: "rstr \<Rightarrow> rstr" where
  "escape_string s = concat (map (\<lambda>b. if b = 0x22 \<or> b = 0x5C then [0x5C, b] else [b]) s)"

definition punctuation :: "(Token \<times> string) list" where
  "punctuation =
     [(At, ''@''), (Semi, '';''), (Comma, '',''), (Dot, ''.''), (Colon, '':''), (Equals, ''=''), (LBrace, ''{''), (RBrace, ''}''),
      (LParen, ''(''), (RParen, '')''), (LBracket, ''[''), (RBracket, '']''), (LAngle, ''<''), (RAngle, ''>''),
      (Plus, ''+''), (Minus, ''-''), (Star, ''*''), (Percent, ''%''), (Amp, ''&''), (Pipe, ''|''), (Caret, ''^''),
      (Tilde, ''~''), (Bang, ''!''), (AndAnd, ''&&''), (OrOr, ''||''), (EqEq, ''==''), (NotEq, ''!=''),
      (LAngleAngle, ''<<''), (RAngleAngle, ''>>''), (LessEqual, ''<=''), (GreaterEqual, ''>='')]"

fun token_text :: "Token \<Rightarrow> rstr" where
  "token_text (Ident s) = s"
| "token_text (IntLit n) = fmt_dec n"
| "token_text (StringLit s) = [0x22] @ escape_string s @ [0x22]"
| "token_text t = (case map_of punctuation t of Some s \<Rightarrow> str s | None \<Rightarrow> [])"

definition is_identifier :: "rstr \<Rightarrow> bool" where
  "is_identifier s \<longleftrightarrow> s \<noteq> [] \<and> \<not> is_ascii_digit [hd s] \<and> (\<forall>b\<in>set s. ident_char [b])"

fun printable :: "Token \<Rightarrow> bool" where
  "printable (Ident s) \<longleftrightarrow> is_identifier s"
| "printable (IntLit n) \<longleftrightarrow> n < 2 ^ 63"
| "printable (StringLit s) \<longleftrightarrow> (\<forall>b\<in>set s. b < 0x80)"
| "printable t \<longleftrightarrow> map_of punctuation t \<noteq> None"

definition render :: "Token list \<Rightarrow> rstr" where
  "render ts = concat (map (\<lambda>t. token_text t @ [0x20]) ts)"

fun placed :: "nat \<Rightarrow> Token list \<Rightarrow> (Token \<times> nat) list" where
  "placed i [] = [(Eof, i)]"
| "placed i (t # ts) = (t, i) # placed (i + length (token_text t) + 1) ts"

section \<open>ASCII text\<close>

definition ascii_chars :: "nat \<Rightarrow> rstr \<Rightarrow> chars" where
  "ascii_chars i s = map (\<lambda>(j, b). (j, [b])) (List.enumerate i s)"

lemma ascii_chars_simps [simp]:
  "ascii_chars i [] = []" "ascii_chars i (b # s) = (i, [b]) # ascii_chars (Suc i) s"
  by (simp_all add: ascii_chars_def)

lemma char_indices_ascii:
  "\<forall>b\<in>set s. b < 0x80 \<Longrightarrow> char_indices i (s @ r) = ascii_chars i s @ char_indices (i + length s) r"
  by (induction s arbitrary: i) (simp_all add: utf8_len_def)

lemma concat_ascii_chars [simp]: "concat (map snd (ascii_chars i s)) = s"
  by (induction s arbitrary: i) simp_all

lemma span_ascii:
  assumes "\<forall>b\<in>set s. P [b]" and "\<not> P [0x20]"
  shows "takeWhile (P \<circ> snd) (ascii_chars i s @ (j, [0x20]) # cs) = ascii_chars i s"
    and "dropWhile (P \<circ> snd) (ascii_chars i s @ (j, [0x20]) # cs) = (j, [0x20]) # cs"
  using assms by (induction s arbitrary: i) simp_all

lemma not_ident_char_space [simp]: "\<not> ident_char [0x20]" "\<not> number_char [0x20]"
  by (simp_all add: ident_char_def number_char_def is_ascii_digit_def is_ascii_alphabetic_def)

lemma ident_char_graphic: "ident_char [b] \<Longrightarrow> ascii_graphic b"
  by (auto simp: ident_char_def is_ascii_digit_def is_ascii_alphabetic_def ascii_graphic_def word_le_nat_alt)

lemma graphic_not_space: "ascii_graphic b \<Longrightarrow> [b] \<notin> set white_space"
  by (auto simp: white_space_def ascii_graphic_def)

section \<open>One token\<close>

definition lexes :: "float_text \<Rightarrow> Token \<Rightarrow> bool" where
  "lexes ft t \<longleftrightarrow> (\<exists>b s. token_text t = b # s \<and> (\<forall>c\<in>set (b # s). c < 0x80) \<and>
     (\<forall>i j k cs. lex_step ft i [b] (ascii_chars j s @ (k, [0x20]) # cs) = Ok (Some t, (k, [0x20]) # cs)))"

lemma ident_char_no_operator:
  assumes "ident_char [b]"
  shows "map_of single_tokens [b] = None" "map_of double_tokens [b] = None" "b \<noteq> 0x22" "b \<noteq> 0x27" "b \<noteq> 0x2F"
  using assms
  by (auto simp: single_tokens_def double_tokens_def str_def ident_char_def is_ascii_digit_def is_ascii_alphabetic_def)

lemma lexes_Ident:
  assumes "is_identifier s"
  shows "lexes ft (Ident s)"
proof -
  obtain b r where s: "s = b # r" using assms by (cases s) (auto simp: is_identifier_def)
  have b: "ident_char [b]" "\<not> is_ascii_digit [b]" "\<forall>c\<in>set r. ident_char [c]" using assms s by (auto simp: is_identifier_def)
  have "ascii_graphic c" if "c \<in> set s" for c using that b s by (auto intro: ident_char_graphic)
  moreover have "lex_step ft i [b] (ascii_chars j r @ (k, [0x20]) # cs) = Ok (Some (Ident s), (k, [0x20]) # cs)" for i j k cs
    using b ident_char_no_operator [OF b(1)] graphic_not_space [OF ident_char_graphic [OF b(1)]] span_ascii [of r ident_char j k cs]
    by (auto simp: lex_step_def read_ident_def s str_def) (auto simp: ident_char_def)
  ultimately show ?thesis
    using s by (auto simp: lexes_def ascii_graphic_less)
qed

lemma decimal_digits: "b \<in> set (fmt_dec n) \<Longrightarrow> 0x30 \<le> b \<and> b \<le> 0x39"
proof -
  assume "b \<in> set (fmt_dec n)"
  then obtain d where "d < 10" "b = digit_char d" using fmt_radix_digits [of 10 n] by (auto simp: fmt_dec_def)
  moreover have "list_all (\<lambda>d. 0x30 \<le> digit_char d \<and> digit_char d \<le> 0x39) [0..<10]" by code_simp
  ultimately show ?thesis by (simp add: list_all_iff)
qed

lemma strip_suffix_digits:
  assumes "\<forall>b\<in>set s. 0x30 \<le> b \<and> b \<le> 0x39" and "p \<in> set number_suffixes"
  shows "strip_suffix s p = None"
proof -
  have "hd p \<in> set p" "\<not> (0x30 \<le> hd p \<and> hd p \<le> 0x39)"
    using assms(2) by (auto simp: number_suffixes_def str_def)
  then have "\<not> ends_with s p" using assms(1) by (metis ends_with_def set_drop_subset subset_iff)
  then show ?thesis by (simp add: strip_suffix_def)
qed

lemma find_suffix_None: "\<forall>p\<in>set ps. strip_suffix s p = None \<Longrightarrow> find_suffix s ps = None"
  by (induction ps) auto

lemma starts_with_subset: "starts_with s p \<Longrightarrow> set p \<subseteq> set s"
  by (metis starts_with_def set_take_subset)

lemma number_token_dec:
  assumes "n < 2 ^ 63"
  shows "number_token ft i (fmt_dec n) = Ok (IntLit n)"
proof -
  have d: "\<forall>b\<in>set (fmt_dec n). 0x30 \<le> b \<and> b \<le> 0x39" using decimal_digits by blast
  then have "filter (\<lambda>b. b \<noteq> 0x5F) (fmt_dec n) = fmt_dec n" by (auto intro!: filter_True)
  then have norm: "normalize_number (fmt_dec n) = fmt_dec n"
    using strip_suffix_digits [OF d] by (simp add: normalize_number_def find_suffix_None)
  have x: "0x78 \<notin> set (fmt_dec n)" "0x58 \<notin> set (fmt_dec n)" "0x2E \<notin> set (fmt_dec n)" "0x65 \<notin> set (fmt_dec n)" "0x45 \<notin> set (fmt_dec n)"
    using d by auto
  then have "\<not> starts_with (fmt_dec n) (str ''0x'')" "\<not> starts_with (fmt_dec n) (str ''0X'')"
    using starts_with_subset [of "fmt_dec n" "str ''0x''"] starts_with_subset [of "fmt_dec n" "str ''0X''"] by (auto simp: str_def)
  then show ?thesis using x assms by (simp add: number_token_def norm from_str_fmt_dec Let_def)
qed

lemma lexes_IntLit:
  assumes "n < 2 ^ 63"
  shows "lexes ft (IntLit n)"
proof -
  obtain b r where s: "fmt_dec n = b # r" by (cases "fmt_dec n") (auto simp: fmt_dec_def)
  have d: "\<forall>c\<in>set (b # r). 0x30 \<le> c \<and> c \<le> 0x39" using decimal_digits s by metis
  then have num: "\<forall>c\<in>set (b # r). number_char [c]" "is_ascii_digit [b]" "ident_char [b]"
    by (auto simp: number_char_def ident_char_def is_ascii_digit_def)
  have "\<forall>c\<in>set (b # r). c < 0x80" using d by (auto intro: order_le_less_trans)
  moreover have "lex_step ft i [b] (ascii_chars j r @ (k, [0x20]) # cs) = Ok (Some (IntLit n), (k, [0x20]) # cs)" for i j k cs
    using num ident_char_no_operator [OF num(3)] graphic_not_space [OF ident_char_graphic [OF num(3)]]
      span_ascii [of r number_char j k cs] number_token_dec [OF assms, of ft i]
    by (simp add: lex_step_def read_number_def s str_def)
  ultimately show ?thesis using s by (auto simp: lexes_def)
qed

lemma read_string_escaped:
  "read_string i acc (ascii_chars j (escape_string s) @ (k, [0x22]) # cs) = Ok (acc @ s, cs)"
  by (induction s arbitrary: acc j) (auto simp: escape_string_def string_escape_def str_def)

lemma ascii_chars_append: "ascii_chars i (s @ t) = ascii_chars i s @ ascii_chars (i + length s) t"
  by (induction s arbitrary: i) simp_all

lemma lexes_StringLit:
  assumes "\<forall>b\<in>set s. b < 0x80"
  shows "lexes ft (StringLit s)"
proof -
  have "[0x22] \<notin> set white_space" "map_of single_tokens [0x22] = None" "map_of double_tokens [0x22] = None"
    by (simp_all add: white_space_def single_tokens_def double_tokens_def str_def)
  moreover have "\<forall>b\<in>set (escape_string s). b < 0x80" using assms by (auto simp: escape_string_def)
  ultimately show ?thesis
    by (auto simp: lexes_def lex_step_def ascii_chars_append read_string_escaped str_def)
qed

definition operator_entry :: "Token \<Rightarrow> bool" where
  "operator_entry t =
     (let s = token_text t in
      s \<noteq> [] \<and> list_all (\<lambda>c. c < 0x80) s \<and> [hd s] \<notin> set white_space \<and> hd s \<noteq> 0x2F \<and>
      (case map_of single_tokens [hd s] of
         Some u \<Rightarrow> u = t \<and> tl s = []
       | None \<Rightarrow>
           (case map_of double_tokens [hd s] of
              Some (alts, u) \<Rightarrow>
                if tl s = [] then u = t \<and> map_of alts [0x20] = None else length s = 2 \<and> map_of alts (tl s) = Some t
            | None \<Rightarrow> False)))"

lemma punctuation_entries: "list_all (\<lambda>(t, s). operator_entry t) punctuation"
  by code_simp

lemma lexes_operator:
  assumes "operator_entry t"
  shows "lexes ft t"
proof -
  obtain b s where t: "token_text t = b # s" using assms by (cases "token_text t") (auto simp: operator_entry_def)
  have b: "[b] \<notin> set white_space" "[b] \<noteq> str ''/''" "\<forall>c\<in>set (b # s). c < 0x80"
    using assms by (simp_all add: operator_entry_def t str_def list_all_iff Let_def)
  have "lex_step ft i [b] (ascii_chars j s @ (k, [0x20]) # cs) = Ok (Some t, (k, [0x20]) # cs)" for i j k cs
  proof (cases "map_of single_tokens [b]")
    case (Some u)
    then have "u = t" "s = []" using assms by (simp_all add: operator_entry_def t Let_def)
    then show ?thesis using b(1, 2) Some by (simp add: lex_step_def)
  next
    case None
    then obtain alts u where u: "map_of double_tokens [b] = Some (alts, u)"
        "if s = [] then u = t \<and> map_of alts [0x20] = None else length (b # s) = 2 \<and> map_of alts (tl (b # s)) = Some t"
      using assms by (auto simp: operator_entry_def t Let_def split: option.splits)
    show ?thesis
    proof (cases s)
      case Nil
      then show ?thesis using b(1, 2) None u by (simp add: lex_step_def)
    next
      case (Cons c r)
      then show ?thesis using b(1, 2) None u by (auto simp: lex_step_def)
    qed
  qed
  then show ?thesis using b(3) by (auto simp: lexes_def t)
qed

lemma lexes_punctuation: "(t, s) \<in> set punctuation \<Longrightarrow> lexes ft t"
  using punctuation_entries by (auto simp: list_all_iff intro: lexes_operator)

lemma printable_lexes: "printable t \<Longrightarrow> lexes ft t"
  by (cases t) (auto simp: lexes_Ident lexes_IntLit lexes_StringLit intro: lexes_punctuation dest!: map_of_SomeD)

section \<open>All tokens\<close>

lemma lex_placed:
  assumes "\<forall>t\<in>set ts. printable t" and "len = i + length (render ts)"
  shows "lex_chars ft len (char_indices i (render ts)) = Ok (placed i ts)"
  using assms
proof (induction ts arbitrary: i)
  case (Cons t ts)
  obtain b s where t: "token_text t = b # s" "\<forall>c\<in>set (b # s). c < 0x80"
      "\<And>i j k cs. lex_step ft i [b] (ascii_chars j s @ (k, [0x20]) # cs) = Ok (Some t, (k, [0x20]) # cs)"
    using printable_lexes [of t ft] Cons.prems(1) by (auto simp: lexes_def)
  have "lex_step ft k [0x20] cs = Ok (None, cs)" for k cs by (simp add: lex_step_def white_space_def)
  moreover have "char_indices i (render (t # ts)) =
      (i, [b]) # ascii_chars (Suc i) s @ (i + length (b # s), [0x20]) # char_indices (i + length (b # s) + 1) (render ts)"
    using char_indices_ascii [of "b # s @ [0x20]" i "render ts"] t(2) by (simp add: render_def t(1) ascii_chars_append)
  ultimately show ?case
    using Cons.IH [of "i + length (b # s) + 1"] Cons.prems t(1, 3) by (simp add: render_def)
qed (simp add: render_def)

text \<open>
  C40: The lexer inverts printing. The text of a list of tokens, with a space after each, lexes to exactly these tokens, each
  at the offset where its text starts, with \<open>Eof\<close> at the end of the input: for identifiers, integers below $2^{63}$, ASCII
  string literals with their quotes and backslashes escaped, and every operator and delimiter but \<open>/\<close>.
\<close>

theorem tokenize_render:
  assumes "\<forall>t\<in>set ts. printable t"
  shows "tokenize ft (render ts) = Ok (placed 0 ts)"
  using lex_placed [OF assms, of "length (render ts)" 0] by (simp add: tokenize_def)

theorem tokenize_render_witness:
  "tokenize \<lparr>parse_f64 = \<lambda>_. None, show_f64 = \<lambda>_. []\<rparr> (render [Ident (str ''x1''), RAngleAngle, StringLit [0x22], Semi]) =
     Ok [(Ident (str ''x1''), 0), (RAngleAngle, 3), (StringLit [0x22], 6), (Semi, 11), (Eof, 13)]"
  by (subst tokenize_render) (code_simp | simp add: escape_string_def punctuation_def)+

text \<open>A \<open>/\<close> that is not at the end of the input is never a token.\<close>

lemma slash_unlexable:
  "c \<noteq> str ''/'' \<Longrightarrow> c \<noteq> str ''*'' \<Longrightarrow> lex_step ft i (str ''/'') ((j, c) # cs) = Err (UnexpectedChar (str ''/'') i)"
  by (simp add: lex_step_def white_space_def str_def)

text \<open>
  The type suffix \<open>f\<close> is taken off a number before the number is known to be hexadecimal. A hexadecimal literal
  whose last digit is \<open>f\<close> therefore loses that digit: \<open>0x1f\<close> is lexed as 1.
\<close>

theorem hex_literal_loses_f:
  assumes "0x5F \<notin> set d" and "from_str_radix 16 (2 ^ 63) d = Some v"
  shows "number_token ft i (str ''0x'' @ d @ str ''f'') = Ok (IntLit v)"
proof -
  have "strip_suffix (str ''0x'' @ d @ str ''f'') p = None" if "p \<noteq> []" "List.last p \<noteq> 0x66" for p
    using that by (auto simp: strip_suffix_def str_def dest!: ends_withD simp flip: append_Cons dest: arg_cong [where f = List.last])
  then have "find_suffix (str ''0x'' @ d @ str ''f'') number_suffixes = Some (str ''0x'' @ d)"
    by (simp add: number_suffixes_def str_def) (simp add: strip_suffix_def ends_with_def)
  then have "normalize_number (str ''0x'' @ d @ str ''f'') = str ''0x'' @ d"
    using assms(1) by (auto simp: normalize_number_def str_def intro!: filter_True)
  then show ?thesis using assms(2) by (simp add: number_token_def starts_with_def)
qed

theorem hex_literal_loses_f_witness:
  "number_token \<lparr>parse_f64 = \<lambda>_. None, show_f64 = \<lambda>_. []\<rparr> 0 (str ''0x1f'') = Ok (IntLit 1)"
  using hex_literal_loses_f [of "str ''1''" 1 _ 0]
  by (simp add: str_def from_str_radix_def digit_val_def)

end
