(* ===== verification/Aidl_Generator.thy ===== *)
theory Aidl_Generator
  imports Aidl_Parser
begin

text \<open>
  The code generator of the AIDL compiler (\<open>aidl-rs/src/generator.rs\<close>): the Rust text of a parsed file. The names
  that reach it are identifiers of the lexer and so ASCII; \<open>char::to_uppercase\<close> is modelled for those.
\<close>

section \<open>Names and types\<close>

definition last_rust_ident :: "rstr \<Rightarrow> rstr" where
  "last_rust_ident name = List.last (split_on 0x2E name)"

definition capitalize_first :: "rstr \<Rightarrow> rstr" where
  "capitalize_first s =
     (case s of [] \<Rightarrow> [] | b # bs \<Rightarrow> (if 0x61 \<le> b \<and> b \<le> 0x7A then b - 0x20 else b) # bs)"

fun join :: "rstr \<Rightarrow> rstr list \<Rightarrow> rstr" where
  "join sep [] = []"
| "join sep [s] = s"
| "join sep (s # ss) = s @ sep @ join sep ss"

definition rust_names :: "(rstr \<times> rstr) list" where
  "rust_names = map (map_prod str str)
     [(''void'', ''()''), (''boolean'', ''bool''), (''byte'', ''i8''), (''char'', ''u16''), (''int'', ''i32''),
      (''long'', ''i64''), (''float'', ''f32''), (''double'', ''f64''), (''String'', ''String''),
      (''Utf8String'', ''String''), (''IBinder'', ''String''), (''ParcelFileDescriptor'', ''std::fs::File'')]"

definition wrap :: "rstr \<Rightarrow> rstr \<Rightarrow> rstr" where
  "wrap name s = name @ str ''<'' @ s @ str ''>''"

definition nth_or :: "rstr list \<Rightarrow> nat \<Rightarrow> rstr \<Rightarrow> rstr" where
  "nth_or xs i d = (if i < length xs then xs ! i else d)"

fun aidl_type_to_rust :: "AidlType \<Rightarrow> rstr" where
  "aidl_type_to_rust (AidlType name args dims nullable) =
     (let rs = map aidl_type_to_rust args;
          base = (case map_of rust_names name of
              Some s \<Rightarrow> s
            | None \<Rightarrow>
                if name = str ''List'' then wrap (str ''Vec'') (nth_or rs 0 (str ''String''))
                else if name = str ''Map'' then
                  wrap (str ''std::collections::HashMap'') (nth_or rs 0 (str ''String'') @ str '', '' @ nth_or rs 1 (str ''String''))
                else if args = [] then name
                else wrap name (join (str '', '') rs));
          res = (wrap (str ''Vec'') ^^ dims) base
      in if nullable then wrap (str ''Option'') res else res)"

section \<open>Declarations\<close>

definition nl :: rstr where
  "nl = [0x0A]"

definition line :: "string \<Rightarrow> rstr" where
  "line s = str s @ nl"

text \<open>The transaction code of each method: its own, or the next of a counter that starts at 0.\<close>

fun transaction_ids :: "u32 \<Rightarrow> AidlMethod list \<Rightarrow> u32 list" where
  "transaction_ids auto_id [] = []"
| "transaction_ids auto_id (m # ms) =
     (case method_id m of
        Some i \<Rightarrow> i # transaction_ids auto_id ms
      | None \<Rightarrow> auto_id # transaction_ids (auto_id + 1) ms)"

definition generate_method :: "AidlMethod \<Rightarrow> rstr" where
  "generate_method m =
     (let ret_str = str ''Result<'' @ aidl_type_to_rust (return_type m) @ str '', String>'';
          args_str = join (str '', '') (map (\<lambda>arg. arg_name arg @ str '': '' @ aidl_type_to_rust (arg_ty arg)) (method_args m))
      in if args_str = [] then str ''    fn '' @ method_name m @ str ''(&self) -> '' @ ret_str @ str '';'' @ nl
         else str ''    fn '' @ method_name m @ str ''(&self, '' @ args_str @ str '') -> '' @ ret_str @ str '';'' @ nl)"

definition generate_constant :: "AidlConstant \<Rightarrow> rstr" where
  "generate_constant c =
     str ''    pub const '' @ const_name c @ str '': '' @ aidl_type_to_rust (const_ty c) @ str '' = '' @ const_value c @ str '';'' @ nl"

definition generate_transaction :: "rstr \<Rightarrow> u32 \<Rightarrow> rstr" where
  "generate_transaction name tx_id =
     str ''    pub const TRANSACTION_'' @ name @ str '': u32 = FIRST_CALL_TRANSACTION + '' @ fmt_dec (unat tx_id) @ str '';'' @ nl"

definition generate_transactions :: "AidlInterface \<Rightarrow> rstr" where
  "generate_transactions iface =
     str ''pub mod '' @ iface_name iface @ line ''_transactions {'' @
     concat (map2 generate_transaction (map method_name (methods iface)) (transaction_ids 0 (methods iface))) @
     line ''    pub const FIRST_CALL_TRANSACTION: u32 = 1;'' @ line ''}'' @ nl"

definition generate_proxy :: "AidlInterface \<Rightarrow> rstr" where
  "generate_proxy iface =
     str ''pub struct '' @ iface_name iface @ line ''Proxy<B> {'' @ line ''    pub binder: B,'' @ line ''}'' @ nl @
     str ''impl<B> '' @ iface_name iface @ line ''Proxy<B> {'' @ line ''    pub fn new(binder: B) -> Self {'' @
     line ''        Self { binder }'' @ line ''    }'' @ line ''}''"

definition generate_interface :: "bool \<Rightarrow> AidlInterface \<Rightarrow> rstr" where
  "generate_interface stubs iface =
     str ''pub trait '' @ iface_name iface @ str '': '' @
     (case extends iface of Some name \<Rightarrow> last_rust_ident name @ str '' + '' | None \<Rightarrow> []) @ line ''Send + Sync {'' @
     concat (map generate_constant (constants iface)) @ (if constants iface = [] then [] else nl) @
     concat (map generate_method (methods iface)) @ line ''}'' @ nl @
     generate_transactions iface @ (if stubs then generate_proxy iface else [])"

definition generate_parcelable :: "AidlParcelable \<Rightarrow> rstr" where
  "generate_parcelable parcelable =
     (let name = parcelable_name parcelable; fields = parcelable_fields parcelable in
      if fields = [] then line ''#[derive(Debug, Clone, PartialEq, Eq, Default)]'' @ str ''pub struct '' @ name @ line '';''
      else
        line ''#[derive(Debug, Clone, PartialEq, Default)]'' @ str ''pub struct '' @ name @ line '' {'' @
        concat (map (\<lambda>f. str ''    pub '' @ field_name f @ str '': '' @ aidl_type_to_rust (field_ty f) @ line '','') fields) @
        line ''}'' @ nl @ str ''impl '' @ name @ line '' {'' @ str ''    pub fn new('' @
        join (str '', '') (map (\<lambda>f. field_name f @ str '': '' @ aidl_type_to_rust (field_ty f)) fields) @
        line '') -> Self {'' @ line ''        Self {'' @
        concat (map (\<lambda>f. str ''            '' @ field_name f @ line '','') fields) @
        line ''        }'' @ line ''    }'' @ line ''}'')"

definition variant_line :: "nat \<times> EnumVariant \<Rightarrow> rstr" where
  "variant_line iv =
     str ''    '' @ variant_name (snd iv) @ str '' = '' @
     (case variant_value (snd iv) of Some val \<Rightarrow> val | None \<Rightarrow> fmt_dec (fst iv)) @ line '',''"

definition generate_enum :: "AidlEnum \<Rightarrow> rstr" where
  "generate_enum enm =
     line ''#[derive(Debug, Clone, Copy, PartialEq, Eq, Hash)]'' @ line ''#[repr(i32)]'' @
     str ''pub enum '' @ enum_name enm @ line '' {'' @
     concat (map variant_line (List.enumerate 0 (variants enm))) @ line ''}''"

definition generate_union :: "AidlUnion \<Rightarrow> rstr" where
  "generate_union un =
     line ''#[derive(Debug, Clone, PartialEq)]'' @ str ''pub enum '' @ union_name un @ line '' {'' @
     concat (map (\<lambda>f. str ''    '' @ capitalize_first (field_name f) @ str ''('' @ aidl_type_to_rust (field_ty f) @ line ''),'')
       (union_fields un)) @ line ''}''"

definition generate_decl :: "bool \<Rightarrow> AidlDecl \<Rightarrow> rstr" where
  "generate_decl stubs decl =
     (case decl of
        Interface iface \<Rightarrow> generate_interface stubs iface
      | Parcelable parcelable \<Rightarrow> generate_parcelable parcelable
      | Enum enm \<Rightarrow> generate_enum enm
      | Union un \<Rightarrow> generate_union un) @ nl"

definition Generator_generate_file :: "bool \<Rightarrow> AidlFile \<Rightarrow> rstr" where
  "Generator_generate_file stubs f =
     line ''// Auto-generated by aidl-rs from AIDL definition.'' @ line ''// DO NOT EDIT DIRECTLY.'' @ nl @
     line ''#[allow(non_snake_case)]'' @ line ''#[allow(unused_imports)]'' @ line ''#[allow(unused_variables)]'' @ nl @
     (case package f of Some pkg \<Rightarrow> str ''// Package: '' @ pkg @ nl @ nl | None \<Rightarrow> []) @
     concat (map (generate_decl stubs) (decls f))"

section \<open>Transaction codes\<close>

lemma length_transaction_ids [simp]: "length (transaction_ids n ms) = length ms"
  by (induction n ms rule: transaction_ids.induct) (auto split: option.splits)

lemma transaction_ids_nth:
  "i < length ms \<Longrightarrow> transaction_ids n ms ! i =
     (case method_id (ms ! i) of
        Some k \<Rightarrow> k
      | None \<Rightarrow> n + of_nat (length (filter (\<lambda>m. method_id m = None) (take i ms))))"
proof (induction ms arbitrary: n i)
  case (Cons m ms)
  then show ?case by (cases i) (auto split: option.splits)
qed simp

text \<open>Methods without a number get different codes; a numbered method may get the code of another one.\<close>

lemma transaction_ids_unnumbered:
  assumes "\<forall>m\<in>set ms. method_id m = None" and "length ms \<le> 2 ^ 32"
  shows "distinct (transaction_ids 0 ms)"
proof -
  have "transaction_ids 0 ms ! i = of_nat i" if "i < length ms" for i
  proof -
    have "filter (\<lambda>m. method_id m = None) (take i ms) = take i ms"
      using assms(1) by (auto intro!: filter_True dest: in_set_takeD)
    then show ?thesis using assms(1) that by (simp add: transaction_ids_nth)
  qed
  then show ?thesis
    using assms(2) by (auto simp: distinct_conv_nth word_of_nat_eq_iff take_bit_nat_eq_self)
qed

lemma transaction_ids_collide: "method_id a = None \<Longrightarrow> method_id b = Some 0 \<Longrightarrow> \<not> distinct (transaction_ids 0 [a, b])"
  by simp

end
