(* ===== verification/Aidl_Types.thy ===== *)
theory Aidl_Types
  imports Aidl_Generator
begin

text \<open>
  Type correctness of the AIDL compiler: every type in a file that the parser accepts is well formed, and the
  generator prints for it the Rust type that it denotes. The types are collected from all methods, arguments,
  constants and fields of a file, and the proof follows the functions of the parser.
\<close>

section \<open>Well formed types and what they denote\<close>

fun well_formed :: "AidlType \<Rightarrow> bool" where
  "well_formed (AidlType name args dims nullable) \<longleftrightarrow>
     (if name = str ''List'' then length args = 1
      else if name = str ''Map'' then args = [] \<or> length args = 2
      else args = []) \<and>
     (name = str ''void'' \<longrightarrow> dims = 0) \<and> (\<forall>a\<in>set args. well_formed a)"

datatype RustType = Path rstr | Vec RustType | HashMap RustType RustType | Optional RustType

fun show_rust :: "RustType \<Rightarrow> rstr" where
  "show_rust (Path s) = s"
| "show_rust (Vec t) = wrap (str ''Vec'') (show_rust t)"
| "show_rust (HashMap k v) = wrap (str ''std::collections::HashMap'') (show_rust k @ str '', '' @ show_rust v)"
| "show_rust (Optional t) = wrap (str ''Option'') (show_rust t)"

fun rust_type :: "AidlType \<Rightarrow> RustType" where
  "rust_type (AidlType name args dims nullable) =
     (let base = (case map rust_type args of
            [elem] \<Rightarrow> Vec elem
          | [key, val] \<Rightarrow> HashMap key val
          | _ \<Rightarrow> if name = str ''Map'' then HashMap (Path (str ''String'')) (Path (str ''String''))
                 else Path (case map_of rust_names name of Some s \<Rightarrow> s | None \<Rightarrow> name));
          ty = (Vec ^^ dims) base
      in if nullable then Optional ty else ty)"

lemma show_rust_dims: "show_rust ((Vec ^^ n) t) = (wrap (str ''Vec'') ^^ n) (show_rust t)"
  by (induction n) simp_all

lemma show_rust_nullable:
  "show_rust (if b then Optional t else t) = (if b then wrap (str ''Option'') (show_rust t) else show_rust t)"
  by simp

lemma well_formed_cases:
  assumes "well_formed (AidlType name args dims nullable)"
  obtains (list) a where "name = str ''List''" "args = [a]"
  | (map) k v where "name = str ''Map''" "args = [k, v]"
  | (raw) "name = str ''Map''" "args = []"
  | (plain) "name \<noteq> str ''List''" "name \<noteq> str ''Map''" "args = []"
  using assms by (auto simp: length_Suc_conv numeral_2_eq_2 split: if_splits)

lemma aidl_type_to_rust_correct: "well_formed ty \<Longrightarrow> aidl_type_to_rust ty = show_rust (rust_type ty)"
proof (induction ty)
  case (AidlType name args dims nullable)
  have IH: "\<And>a. a \<in> set args \<Longrightarrow> aidl_type_to_rust a = show_rust (rust_type a)"
    using AidlType by simp
  have names: "map_of rust_names (str ''List'') = None" "map_of rust_names (str ''Map'') = None" "str ''Map'' \<noteq> str ''List''"
    by (simp_all add: rust_names_def str_def)
  from AidlType.prems show ?case
    by (cases rule: well_formed_cases)
      (simp_all add: Let_def show_rust_dims show_rust_nullable names IH nth_or_def split: option.splits)
qed

lemma builtin_not_generic: "str ''List'' \<notin> set builtin_names" "str ''Map'' \<notin> set builtin_names" "str ''void'' \<in> set builtin_names"
  by (simp_all add: builtin_names_def primitive_names_def str_def)

lemma validate_well_formed:
  shows "validate_type_shape ty = Ok () \<longleftrightarrow> well_formed ty"
    and "validate_args tys = Ok () \<longleftrightarrow> (\<forall>ty\<in>set tys. well_formed ty)"
proof (induction ty and tys rule: validate_type_shape_validate_args.induct)
  case (1 name args dims nullable)
  have "str ''void'' \<noteq> str ''List''" "str ''void'' \<noteq> str ''Map''" "str ''Map'' \<noteq> str ''List''" by (simp_all add: str_def)
  with 1 builtin_not_generic show ?case by auto
qed auto

declare validate_type_shape.simps [simp del]

section \<open>The types of a parsed file\<close>

definition method_types :: "AidlMethod \<Rightarrow> AidlType list" where
  "method_types m = return_type m # map arg_ty (method_args m)"

definition decl_types :: "AidlDecl \<Rightarrow> AidlType list" where
  "decl_types d =
     (case d of
        Interface i \<Rightarrow> concat (map method_types (methods i)) @ map const_ty (constants i)
      | Parcelable p \<Rightarrow> map field_ty (parcelable_fields p)
      | Enum e \<Rightarrow> (case backing_type e of Some ty \<Rightarrow> [ty] | None \<Rightarrow> [])
      | Union u \<Rightarrow> map field_ty (union_fields u))"

definition file_types :: "AidlFile \<Rightarrow> AidlType list" where
  "file_types f = concat (map decl_types (decls f))"

lemma well_formed_set_nullable [simp]: "well_formed (set_nullable ty) = well_formed ty"
  by (cases ty) (simp add: set_nullable_def)

lemma finish_type_typed: "finish_type ft annos name args p = Ok (ty, q) \<Longrightarrow> well_formed ty"
  by (auto simp: finish_type_def Let_def validate_well_formed simp del: well_formed.simps)

lemma parse_type_typed: "parse_type ft p = Ok (ty, q) \<Longrightarrow> well_formed ty"
  by (auto simp: parse_type.simps [of _ p] split: if_splits dest: finish_type_typed)

lemma parse_constant_typed: "parse_constant ft p = Ok (c, q) \<Longrightarrow> well_formed (const_ty c)"
  by (auto simp: parse_constant_def dest: parse_type_typed)

lemma parse_arg_typed:
  assumes "parse_arg ft p = Ok (a, q)"
  shows "well_formed (arg_ty a)"
proof -
  obtain annos r where r: "parse_annotations ft p = Ok (annos, r)" using assms by (auto simp: parse_arg_def)
  obtain d s where "parse_direction r = (d, s)" by fastforce
  then show ?thesis using assms r by (auto simp: parse_arg_def dest: parse_type_typed)
qed

lemma parse_args_typed:
  "parse_args ft args p = Ok (bs, q) \<Longrightarrow> \<forall>a\<in>set args. well_formed (arg_ty a) \<Longrightarrow> \<forall>a\<in>set bs. well_formed (arg_ty a)"
proof (induction ft args p rule: parse_args.induct)
  case (1 ft args p)
  show ?case
  proof (cases "at p RParen")
    case True
    then show ?thesis using 1(2, 3) by (simp add: parse_args.simps [of _ _ p])
  next
    case False
    with 1(2) obtain a r where r: "parse_arg ft p = Ok (a, r)"
        and rest: "(if at r Comma then parse_args ft (args @ [a]) (skip r) else Ok (args @ [a], r)) = Ok (bs, q)"
      by (auto simp: parse_args.simps [of _ _ p])
    show ?thesis using 1(1) [OF False r refl] rest 1(3) parse_arg_typed [OF r] by (auto split: if_splits)
  qed
qed

lemma parse_method_typed:
  assumes "parse_method ft w annos p = Ok (m, q)"
  shows "\<forall>ty\<in>set (method_types m). well_formed ty"
proof -
  obtain b r where r: "match_ident (str ''oneway'') p = (b, r)" by fastforce
  from assms obtain args s t where "parse_args ft [] s = Ok (args, t)" "method_args m = args" "well_formed (return_type m)"
    by (auto simp: parse_method_def r dest!: parse_type_typed)
  then show ?thesis using parse_args_typed [of ft "[]" s args t] by (simp add: method_types_def)
qed

lemma interface_members_typed:
  "interface_members ft w ms cs p = Ok ((ms', cs'), q) \<Longrightarrow>
   \<forall>m\<in>set ms. \<forall>ty\<in>set (method_types m). well_formed ty \<Longrightarrow> \<forall>c\<in>set cs. well_formed (const_ty c) \<Longrightarrow>
   (\<forall>m\<in>set ms'. \<forall>ty\<in>set (method_types m). well_formed ty) \<and> (\<forall>c\<in>set cs'. well_formed (const_ty c))"
proof (induction ft w ms cs p rule: interface_members.induct)
  case (1 ft w ms cs p)
  show ?case
  proof (cases "at p RBrace")
    case True
    then show ?thesis using 1(3, 4, 5) by (simp add: interface_members.simps [of _ _ _ _ p])
  next
    case False
    from 1(3) False show ?thesis
    proof (cases rule: interface_members_cases)
      case (const annos r r' c s)
      then show ?thesis
        using 1(1) [OF False const(1) refl const(2) [symmetric] _ const(3) refl const(4)] 1(4, 5) parse_constant_typed [OF const(3)]
        by simp
    next
      case (meth annos r r' m s)
      then show ?thesis
        using 1(2) [OF False meth(1) refl meth(2) [symmetric] _ meth(3) refl meth(4)] 1(4, 5) parse_method_typed [OF meth(3)]
        by simp
    qed
  qed
qed

lemma parse_field_typed: "parse_field ft p = Ok (f, q) \<Longrightarrow> well_formed (field_ty f)"
  by (auto simp: parse_field_def dest: parse_type_typed split: if_splits)

lemma parse_union_field_typed: "parse_union_field ft p = Ok (f, q) \<Longrightarrow> well_formed (field_ty f)"
  by (auto simp: parse_union_field_def dest: parse_type_typed)

lemma parcelable_members_typed:
  "parcelable_members ft fs p = Ok (gs, q) \<Longrightarrow> \<forall>f\<in>set fs. well_formed (field_ty f) \<Longrightarrow> \<forall>f\<in>set gs. well_formed (field_ty f)"
proof (induction ft fs p rule: parcelable_members.induct)
  case (1 ft fs p)
  show ?case
  proof (cases "at p RBrace")
    case True
    then show ?thesis using 1(2, 3) by (simp add: parcelable_members.simps [of _ _ p])
  next
    case False
    with 1(2) obtain f r where r: "parse_field ft p = Ok (f, r)" and rest: "parcelable_members ft (fs @ [f]) r = Ok (gs, q)"
      by (auto simp: parcelable_members.simps [of _ _ p])
    show ?thesis using 1(1) [OF False r refl rest] 1(3) parse_field_typed [OF r] by simp
  qed
qed

lemma union_members_typed:
  "union_members ft fs p = Ok (gs, q) \<Longrightarrow> \<forall>f\<in>set fs. well_formed (field_ty f) \<Longrightarrow> \<forall>f\<in>set gs. well_formed (field_ty f)"
proof (induction ft fs p rule: union_members.induct)
  case (1 ft fs p)
  show ?case
  proof (cases "at p RBrace")
    case True
    then show ?thesis using 1(2, 3) by (simp add: union_members.simps [of _ _ p])
  next
    case False
    with 1(2) obtain f r where r: "parse_union_field ft p = Ok (f, r)" and rest: "union_members ft (fs @ [f]) r = Ok (gs, q)"
      by (auto simp: union_members.simps [of _ _ p])
    show ?thesis using 1(1) [OF False r refl rest] 1(3) parse_union_field_typed [OF r] by simp
  qed
qed

lemma parse_interface_typed:
  assumes "parse_interface ft annos w p = Ok (d, q)"
  shows "\<forall>ty\<in>set (decl_types d). well_formed ty"
proof -
  obtain i members s t where "interface_members ft w [] [] s = Ok (members, t)" "d = Interface i"
      "methods i = fst members" "constants i = snd members"
    using assms by (fastforce simp: parse_interface_def)
  then show ?thesis
    using interface_members_typed [of ft w "[]" "[]" s "fst members" "snd members" t] by (auto simp: decl_types_def)
qed

lemma parse_decl_typed:
  assumes "parse_decl ft p = Ok (d, q)"
  shows "\<forall>ty\<in>set (decl_types d). well_formed ty"
proof -
  obtain annos r where r: "parse_annotations ft p = Ok (annos, r)" using assms by (auto simp: parse_decl_def)
  obtain b s where s: "match_ident (str ''oneway'') r = (b, s)" by fastforce
  obtain t where "parse_interface ft annos b t = Ok (d, q) \<or> parse_parcelable ft annos t = Ok (d, q) \<or>
      parse_enum ft annos t = Ok (d, q) \<or> parse_union ft annos t = Ok (d, q)"
    using assms r s by (auto simp: parse_decl_def split: if_splits)
  then show ?thesis
    by (auto dest: parse_interface_typed)
      (auto simp: parse_parcelable_def parse_enum_def parse_union_def decl_types_def split: if_splits
         dest!: parcelable_members_typed union_members_typed)
qed

lemma parse_file_typed:
  "parse_file ft f p = Ok g \<Longrightarrow> \<forall>ty\<in>set (file_types f). well_formed ty \<Longrightarrow> \<forall>ty\<in>set (file_types g). well_formed ty"
proof (induction ft f p rule: parse_file.induct)
  case (1 ft f p)
  consider (eof) "at p Eof" | (package) "\<not> at p Eof" "at p (Ident (str ''package''))"
    | (imp) "\<not> at p Eof" "\<not> at p (Ident (str ''package''))" "at p (Ident (str ''import''))"
    | (decl) "\<not> at p Eof" "\<not> at p (Ident (str ''package''))" "\<not> at p (Ident (str ''import''))"
    by blast
  then show ?case
  proof cases
    case eof
    then show ?thesis using 1(4, 5) by (simp add: parse_file.simps [of _ _ p])
  next
    case package
    then obtain pkg r where r: "parse_dotted_line ft (skip p) = Ok (pkg, r)" "parse_file ft (f\<lparr>package := Some pkg\<rparr>) r = Ok g"
      using 1(4) by (auto simp: parse_file.simps [of _ _ p])
    show ?thesis using 1(1) [OF package r(1) refl r(2)] 1(5) by (simp add: file_types_def)
  next
    case imp
    then obtain i r where r: "parse_dotted_line ft (skip p) = Ok (i, r)" "parse_file ft (f\<lparr>imported := imported f @ [i]\<rparr>) r = Ok g"
      using 1(4) by (auto simp: parse_file.simps [of _ _ p])
    show ?thesis using 1(2) [OF imp r(1) refl r(2)] 1(5) by (simp add: file_types_def)
  next
    case decl
    then obtain d r where r: "parse_decl ft p = Ok (d, r)" "parse_file ft (f\<lparr>decls := decls f @ [d]\<rparr>) r = Ok g"
      using 1(4) by (auto simp: parse_file.simps [of _ _ p])
    show ?thesis using 1(3) [OF decl r(1) refl r(2)] 1(5) parse_decl_typed [OF r(1)] by (auto simp: file_types_def)
  qed
qed

text \<open>
  C27: Type correctness of the AIDL compiler. Every type in a file that the parser accepts is well formed: \<open>List\<close> has one
  argument, \<open>Map\<close> none or two, no other type has any, \<open>void\<close> is no array, and so on inwards; and the generator prints
  for it the Rust type that it denotes, never a made up default.
\<close>

theorem parsed_types_correct:
  assumes "parse_str ft input = Ok f" and "ty \<in> set (file_types f)"
  shows "well_formed ty \<and> aidl_type_to_rust ty = show_rust (rust_type ty)"
proof -
  obtain ts where "parse_file ft AidlFile_default (Parser_new ts) = Ok f" using assms(1) by (auto simp: parse_str_def)
  then have "well_formed ty" using assms(2) by (auto dest!: parse_file_typed simp: AidlFile_default_def file_types_def)
  then show ?thesis by (simp add: aidl_type_to_rust_correct)
qed

definition no_floats :: float_text where
  "no_floats = \<lparr>parse_f64 = \<lambda>_. None, show_f64 = \<lambda>_. []\<rparr>"

definition sample_aidl :: rstr where
  "sample_aidl = str ''union U { List<List<int>> a; }''"

definition sample_type :: AidlType where
  "sample_type = AidlType (str ''List'') [AidlType (str ''List'') [AidlType_new (str ''int'')] 0 False] 0 False"

definition sample_union_file :: AidlFile where
  "sample_union_file = \<lparr>package = None, imported = [], decls =
     [Union \<lparr>union_annotations = [], union_name = str ''U'', union_fields =
        [\<lparr>field_annotations = [], field_ty = sample_type, field_name = str ''a'', default_value = None\<rparr>]\<rparr>]\<rparr>"

lemma sample_parses: "parse_str no_floats sample_aidl = Ok sample_union_file"
  by code_simp

theorem parsed_types_correct_witness:
  "parse_str no_floats sample_aidl = Ok sample_union_file \<and> well_formed sample_type \<and>
   aidl_type_to_rust sample_type = str ''Vec<Vec<i32>>''"
proof -
  have "sample_type \<in> set (file_types sample_union_file)"
    by (simp add: sample_union_file_def file_types_def decl_types_def)
  from parsed_types_correct [OF sample_parses this] sample_parses show ?thesis
    by (simp add: sample_type_def AidlType_new_def rust_names_def wrap_def str_def)
qed

end
