(* ===== verification/Server_Registry.thy ===== *)
theory Server_Registry
  imports Rust_Str
begin

text \<open>
  The transport registry of the ADB server: devices (\<open>server/models.rs\<close>), their life cycle with the events it fires
  (\<open>server/transport.rs\<close>) and the forward and reverse rules (\<open>server/forward.rs\<close>). Each operation runs under the
  lock of the registry and is one function on its state. The fields \<open>mdns_services\<close> and \<open>usb_auth\<close>, which no operation
  here touches, are left out. The flag that a forward rule shares with its listener thread is an address of
  \<open>flag_store\<close>, the memory of the \<open>AtomicBool\<close>s. What the operating system answers is an argument: the result of
  binding a port and the list of the attached USB devices.
\<close>

section \<open>Devices\<close>

datatype DeviceState =
  Offline | Device | Recovery | Sideload | Bootloader | Authorizing | Connecting | NoPerm | Unknown

definition DeviceState_as_str :: "DeviceState \<Rightarrow> rstr" where
  "DeviceState_as_str s = str
     (case s of
        Offline \<Rightarrow> ''offline'' | Device \<Rightarrow> ''device'' | Recovery \<Rightarrow> ''recovery'' | Sideload \<Rightarrow> ''sideload''
      | Bootloader \<Rightarrow> ''bootloader'' | Authorizing \<Rightarrow> ''authorizing'' | Connecting \<Rightarrow> ''connecting''
      | NoPerm \<Rightarrow> ''no permissions'' | Unknown \<Rightarrow> ''unknown'')"

definition is_usable_state :: "DeviceState \<Rightarrow> bool" where
  "is_usable_state s \<longleftrightarrow> s \<in> {Device, Recovery, Sideload, Bootloader}"

datatype IpAddr = V4 bytes | V6 bytes

type_synonym SocketAddr = "IpAddr \<times> u16"

datatype DeviceOrigin = Usb | Tcp SocketAddr

record DeviceEntry =
  serial :: rstr
  transport_id :: u64
  state :: DeviceState
  origin :: DeviceOrigin
  product :: "rstr option"
  model :: "rstr option"
  device_name :: "rstr option"
  transport_features :: "rstr option"

record ForwardRule =
  fw_serial :: rstr
  fw_local :: rstr
  fw_remote :: rstr
  active_flag :: nat

record ReverseRule =
  rv_serial :: rstr
  rv_remote :: rstr
  rv_local :: rstr

record TransportRegistry =
  devices :: "DeviceEntry list"
  forwards :: "ForwardRule list"
  reverses :: "ReverseRule list"
  next_id :: u64
  flag_store :: "bool list"

definition TransportRegistry_empty :: TransportRegistry where
  "TransportRegistry_empty = \<lparr>devices = [], forwards = [], reverses = [], next_id = 1, flag_store = []\<rparr>"

definition push_device :: "rstr \<Rightarrow> DeviceOrigin \<Rightarrow> TransportRegistry \<Rightarrow> TransportRegistry" where
  "push_device s orig r =
     r\<lparr>devices := devices r @
         [\<lparr>serial = s, transport_id = next_id r, state = Device, origin = orig, product = None, model = None,
           device_name = None, transport_features = None\<rparr>],
       next_id := next_id r + 1\<rparr>"

text \<open>\<open>devices.iter_mut().find(|d| d.serial == s)\<close> and an update of what it finds.\<close>

fun update_first :: "('a \<Rightarrow> bool) \<Rightarrow> ('a \<Rightarrow> 'a) \<Rightarrow> 'a list \<Rightarrow> 'a list" where
  "update_first P f [] = []"
| "update_first P f (x # xs) = (if P x then f x # xs else x # update_first P f xs)"

lemma update_first_map: "(\<And>x. P x \<Longrightarrow> g (f x) = g x) \<Longrightarrow> map g (update_first P f xs) = map g xs"
  by (induction xs) auto

lemma update_first_in: "y \<in> set (update_first P f xs) \<Longrightarrow> y \<in> set xs \<or> (\<exists>x\<in>set xs. P x \<and> y = f x)"
  by (induction xs) (auto split: if_splits)

definition has_serial :: "rstr \<Rightarrow> TransportRegistry \<Rightarrow> bool" where
  "has_serial s r \<longleftrightarrow> (\<exists>d\<in>set (devices r). serial d = s)"

type_synonym usb_candidate = "rstr option \<times> u8 \<times> u8"

text \<open>\<open>format!("{:03}{:03}", bus_number, address)\<close> where the device has no serial number\<close>

definition fmt_dec3 :: "u8 \<Rightarrow> rstr" where
  "fmt_dec3 n = (let s = fmt_dec (unat n) in replicate (3 - length s) 0x30 @ s)"

definition candidate_serial :: "usb_candidate \<Rightarrow> rstr" where
  "candidate_serial c = (case c of (Some s, _) \<Rightarrow> s | (None, bus, address) \<Rightarrow> fmt_dec3 bus @ fmt_dec3 address)"

definition add_usb :: "usb_candidate \<Rightarrow> TransportRegistry \<Rightarrow> TransportRegistry" where
  "add_usb c r = (if has_serial (candidate_serial c) r then r else push_device (candidate_serial c) Usb r)"

text \<open>\<open>refresh_usb_devices\<close> of the registry; an error of the enumeration (\<open>None\<close>) leaves it as it is.\<close>

definition refresh_usb_devices :: "usb_candidate list option \<Rightarrow> TransportRegistry \<Rightarrow> TransportRegistry" where
  "refresh_usb_devices enumerated r =
     (case enumerated of
        None \<Rightarrow> r
      | Some candidates \<Rightarrow>
          let r = fold add_usb candidates r
          in r\<lparr>devices := filter (\<lambda>d. origin d = Usb \<longrightarrow> serial d \<in> set (map candidate_serial candidates)) (devices r)\<rparr>)"

definition TransportRegistry_new :: "usb_candidate list option \<Rightarrow> TransportRegistry" where
  "TransportRegistry_new enumerated = refresh_usb_devices enumerated TransportRegistry_empty"

definition device_line :: "bool \<Rightarrow> DeviceEntry \<Rightarrow> rstr" where
  "device_line verbose d =
     (let unknown = (\<lambda>x. case x of Some s \<Rightarrow> s | None \<Rightarrow> str ''unknown'') in
      serial d @ [0x09] @ DeviceState_as_str (state d) @
      (if verbose then
         str '' product:'' @ unknown (product d) @ str '' model:'' @ unknown (model d) @
         str '' device:'' @ unknown (device_name d)
       else []) @ [0x0A])"

definition list_devices :: "bool \<Rightarrow> TransportRegistry \<Rightarrow> rstr" where
  "list_devices verbose r = concat (map (device_line verbose) (devices r))"

definition find_by_transport_id :: "u64 \<Rightarrow> TransportRegistry \<Rightarrow> DeviceEntry option" where
  "find_by_transport_id i r = List.find (\<lambda>d. transport_id d = i) (devices r)"

definition find_by_serial :: "rstr \<Rightarrow> TransportRegistry \<Rightarrow> DeviceEntry option" where
  "find_by_serial s r = List.find (\<lambda>d. serial d = s) (devices r)"

definition find_any_device :: "TransportRegistry \<Rightarrow> DeviceEntry option" where
  "find_any_device r = List.find (\<lambda>d. is_usable_state (state d)) (devices r)"

definition find_unique_device :: "TransportRegistry \<Rightarrow> (DeviceEntry, rstr) outcome" where
  "find_unique_device r =
     (case filter (\<lambda>d. is_usable_state (state d)) (devices r) of
        [] \<Rightarrow> Err (str ''no devices/emulators found'')
      | [d] \<Rightarrow> Ok d
      | _ \<Rightarrow> Err (str ''more than one device/emulator''))"

definition upsert_tcp_device :: "SocketAddr \<Rightarrow> rstr \<Rightarrow> TransportRegistry \<Rightarrow> TransportRegistry" where
  "upsert_tcp_device addr s r =
     (if has_serial s r then
        r\<lparr>devices := update_first (\<lambda>d. serial d = s) (\<lambda>d. d\<lparr>state := Device, origin := Tcp addr\<rparr>) (devices r)\<rparr>
      else push_device s (Tcp addr) r)"

definition remove_device :: "rstr \<Rightarrow> TransportRegistry \<Rightarrow> bool \<times> TransportRegistry" where
  "remove_device s r =
     (let ds = filter (\<lambda>d. serial d \<noteq> s) (devices r) in (length (devices r) \<noteq> length ds, r\<lparr>devices := ds\<rparr>))"

definition remove_all_tcp_devices :: "TransportRegistry \<Rightarrow> TransportRegistry" where
  "remove_all_tcp_devices r = r\<lparr>devices := filter (\<lambda>d. origin d = Usb) (devices r)\<rparr>"

section \<open>The life cycle and its events\<close>

datatype TransportEvent =
    Connected rstr DeviceOrigin
  | Disconnected rstr
  | StateChanged rstr DeviceState DeviceState

definition register_tcp_device :: "SocketAddr \<Rightarrow> rstr \<Rightarrow> TransportRegistry \<Rightarrow> TransportEvent list \<times> TransportRegistry" where
  "register_tcp_device addr s r =
     (if find_by_serial s r = None then [Connected s (Tcp addr)] else [], upsert_tcp_device addr s r)"

definition register_usb_device :: "rstr \<Rightarrow> TransportRegistry \<Rightarrow> TransportEvent list \<times> TransportRegistry" where
  "register_usb_device s r =
     (if find_by_serial s r \<noteq> None then ([], r) else ([Connected s Usb], push_device s Usb r))"

definition unregister_device :: "rstr \<Rightarrow> TransportRegistry \<Rightarrow> TransportEvent list \<times> TransportRegistry" where
  "unregister_device s r =
     (case remove_device s r of (removed, r) \<Rightarrow> (if removed then [Disconnected s] else [], r))"

definition unregister_all_tcp_devices :: "TransportRegistry \<Rightarrow> TransportEvent list \<times> TransportRegistry" where
  "unregister_all_tcp_devices r =
     (map (Disconnected \<circ> serial) (filter (\<lambda>d. origin d \<noteq> Usb) (devices r)), remove_all_tcp_devices r)"

definition rsplit_last :: "u8 \<Rightarrow> rstr \<Rightarrow> rstr" where
  "rsplit_last c s = List.last (split_on c s)"

definition banner_property :: "rstr \<Rightarrow> DeviceEntry \<Rightarrow> DeviceEntry" where
  "banner_property part d =
     (case split_once 0x3D part of
        None \<Rightarrow> d
      | Some (key, val) \<Rightarrow>
          let key_trimmed = rsplit_last 0x3A key in
          if key_trimmed = str ''product'' then d\<lparr>product := Some val\<rparr>
          else if key_trimmed = str ''model'' then d\<lparr>model := Some val\<rparr>
          else if key_trimmed = str ''device'' then d\<lparr>device_name := Some val\<rparr>
          else d)"

definition state_event :: "rstr \<Rightarrow> DeviceState \<Rightarrow> TransportRegistry \<Rightarrow> TransportEvent list" where
  "state_event s new r =
     (case find_by_serial s r of
        None \<Rightarrow> []
      | Some d \<Rightarrow> if state d \<noteq> new then [StateChanged s (state d) new] else [])"

definition update_device_info :: "rstr \<Rightarrow> rstr \<Rightarrow> TransportRegistry \<Rightarrow> TransportEvent list \<times> TransportRegistry" where
  "update_device_info s banner r =
     (state_event s Device r,
      r\<lparr>devices := update_first (\<lambda>d. serial d = s)
          (\<lambda>d. fold banner_property (split_on 0x3B (trim banner))
             (d\<lparr>state := Device, transport_features := Some banner\<rparr>)) (devices r)\<rparr>)"

definition set_device_state :: "rstr \<Rightarrow> DeviceState \<Rightarrow> TransportRegistry \<Rightarrow> TransportEvent list \<times> TransportRegistry" where
  "set_device_state s new r =
     (state_event s new r, r\<lparr>devices := update_first (\<lambda>d. serial d = s) (\<lambda>d. d\<lparr>state := new\<rparr>) (devices r)\<rparr>)"

text \<open>
  \<open>refresh_usb_devices\<close> of \<open>server/transport.rs\<close>. The serial numbers of the known USB devices are collected once,
  before the new ones are added. Removing swaps the last device into the gap.
\<close>

function swap_remove_from :: "('a \<Rightarrow> bool) \<Rightarrow> nat \<Rightarrow> 'a list \<Rightarrow> 'a list" where
  "swap_remove_from P i xs =
     (if i < length xs then
        if P (xs ! i) then swap_remove_from P i (butlast (xs[i := List.last xs])) else swap_remove_from P (i + 1) xs
      else xs)"
  by pat_completeness auto
termination
  by (relation "measure (\<lambda>(P, i, xs). length xs - i)") auto

declare swap_remove_from.simps [simp del]

definition manager_refresh_usb :: "usb_candidate list option \<Rightarrow> TransportRegistry \<Rightarrow> TransportEvent list \<times> TransportRegistry" where
  "manager_refresh_usb enumerated r =
     (case enumerated of
        None \<Rightarrow> ([], r)
      | Some candidates \<Rightarrow>
          let before = remdups (map serial (filter (\<lambda>d. origin d = Usb) (devices r)));
              now = map candidate_serial candidates;
              added = filter (\<lambda>s. s \<notin> set before) now;
              removed = filter (\<lambda>s. s \<notin> set now) before;
              r = fold (\<lambda>s. push_device s Usb) added r
          in (map (\<lambda>s. Connected s Usb) added @ map Disconnected removed,
              r\<lparr>devices := swap_remove_from (\<lambda>d. origin d = Usb \<and> serial d \<notin> set now) 0 (devices r)\<rparr>))"

section \<open>Looking a transport up\<close>

definition debug_state :: "DeviceState \<Rightarrow> rstr" where
  "debug_state s = str
     (case s of
        Offline \<Rightarrow> ''Offline'' | Device \<Rightarrow> ''Device'' | Recovery \<Rightarrow> ''Recovery'' | Sideload \<Rightarrow> ''Sideload''
      | Bootloader \<Rightarrow> ''Bootloader'' | Authorizing \<Rightarrow> ''Authorizing'' | Connecting \<Rightarrow> ''Connecting''
      | NoPerm \<Rightarrow> ''NoPerm'' | Unknown \<Rightarrow> ''Unknown'')"

definition acquire_transport :: "rstr \<Rightarrow> TransportRegistry \<Rightarrow> (DeviceEntry \<times> DeviceOrigin, rstr) outcome" where
  "acquire_transport s r =
     and_then (ok_or (find_by_serial s r) (str ''device '' @ [0x27] @ s @ [0x27] @ str '' not found'')) (\<lambda>d.
       if is_usable_state (state d) then Ok (d, origin d)
       else Err (str ''device '' @ [0x27] @ s @ [0x27] @ str '' is in state '' @ debug_state (state d) @ str '' (not usable)''))"

definition acquire_any_transport :: "TransportRegistry \<Rightarrow> (DeviceEntry \<times> DeviceOrigin, rstr) outcome" where
  "acquire_any_transport r =
     and_then (ok_or (find_any_device r) (str ''no devices available'')) (\<lambda>d. Ok (d, origin d))"

definition acquire_transport_by_id :: "u64 \<Rightarrow> TransportRegistry \<Rightarrow> (DeviceEntry \<times> DeviceOrigin, rstr) outcome" where
  "acquire_transport_by_id i r =
     and_then (ok_or (find_by_transport_id i r) (str ''transport id '' @ fmt_dec (unat i) @ str '' not found'')) (\<lambda>d.
       if is_usable_state (state d) then Ok (d, origin d)
       else Err (str ''transport id '' @ fmt_dec (unat i) @ str '' is in state '' @ debug_state (state d) @ str '' (not usable)''))"

end
