(* ===== verification/Server_Forward.thy ===== *)
theory Server_Forward
  imports Server_Registry
begin

text \<open>
  The forward and reverse rules of the ADB server (\<open>server/forward.rs\<close>): the tables, the host services that change
  them, and the answers on the wire. A forward of a TCP port has a listener thread that runs until its flag is
  cleared. What a client connection relays is not modelled.
\<close>

section \<open>The tables\<close>

definition all_digits :: "rstr \<Rightarrow> bool" where
  "all_digits s \<longleftrightarrow> (\<forall>b\<in>set s. 0x30 \<le> b \<and> b \<le> 0x39)"

text \<open>\<open>TcpListener::bind\<close> on a port of the loopback interface, and then \<open>local_addr\<close>; the errors are their texts.\<close>

type_synonym bind_result = "((u16, rstr) outcome, rstr) outcome"

definition list_forwards :: "TransportRegistry \<Rightarrow> rstr" where
  "list_forwards r = concat (map (\<lambda>f. fw_serial f @ str '' '' @ fw_local f @ str '' '' @ fw_remote f @ [0x0A]) (forwards r))"

definition bind_local :: "(u16 \<Rightarrow> bind_result) \<Rightarrow> rstr \<Rightarrow> (u16 \<times> rstr, rstr) outcome" where
  "bind_local bind spec =
     (if starts_with spec (str ''tcp:'') \<or> all_digits spec then
        let port_str = (if starts_with spec (str ''tcp:'') then drop 4 spec else spec) in
        case from_str_radix 10 (2 ^ 16) port_str of
          None \<Rightarrow> Err (str ''invalid port in local spec: '' @ spec)
        | Some requested \<Rightarrow>
            and_then (map_err (\<lambda>e. str ''cannot bind listener for '' @ spec @ str '': '' @ e) (bind (of_nat requested))) (\<lambda>l.
            and_then (map_err (\<lambda>e. str ''cannot get local addr: '' @ e) l) (\<lambda>p.
              Ok (p, str ''tcp:'' @ fmt_dec (unat p))))
      else Ok (0, spec))"

definition canonical_local :: "rstr \<Rightarrow> rstr" where
  "canonical_local s = (if \<not> starts_with s (str ''tcp:'') \<and> all_digits s then str ''tcp:'' @ s else s)"

definition clear_flags :: "nat list \<Rightarrow> bool list \<Rightarrow> bool list" where
  "clear_flags as fs = fold (\<lambda>a fs. fs[a := False]) as fs"

definition remove_forward :: "rstr \<Rightarrow> TransportRegistry \<Rightarrow> bool \<times> TransportRegistry" where
  "remove_forward s r =
     (let hit = (\<lambda>f. fw_local f = canonical_local s \<or> fw_local f = s);
          gone = filter hit (forwards r)
      in (gone \<noteq> [],
          r\<lparr>forwards := filter (\<lambda>f. \<not> hit f) (forwards r), flag_store := clear_flags (map active_flag gone) (flag_store r)\<rparr>))"

definition remove_all_forwards :: "TransportRegistry \<Rightarrow> TransportRegistry" where
  "remove_all_forwards r = r\<lparr>forwards := [], flag_store := clear_flags (map active_flag (forwards r)) (flag_store r)\<rparr>"

definition default_serial :: "TransportRegistry \<Rightarrow> rstr" where
  "default_serial r = (case find_any_device r of Some d \<Rightarrow> serial d | None \<Rightarrow> str ''127.0.0.1:5555'')"

definition push_forward :: "rstr \<Rightarrow> rstr \<Rightarrow> TransportRegistry \<Rightarrow> TransportRegistry" where
  "push_forward loc remote r =
     r\<lparr>forwards := forwards r @
         [\<lparr>fw_serial = default_serial r, fw_local = loc, fw_remote = remote, active_flag = length (flag_store r)\<rparr>],
       flag_store := flag_store r @ [True]\<rparr>"

definition add_forward ::
  "(u16 \<Rightarrow> bind_result) \<Rightarrow> rstr \<Rightarrow> rstr \<Rightarrow> bool \<Rightarrow> TransportRegistry \<Rightarrow> (rstr, rstr) outcome \<times> TransportRegistry" where
  "add_forward bind local_spec remote_spec no_rebind r =
     (case bind_local bind local_spec of
        Ok (port, canonical) \<Rightarrow>
          if no_rebind \<and> (\<exists>f\<in>set (forwards r). fw_local f = canonical) then
            (Err (str ''forward '' @ [0x27] @ canonical @ [0x27] @ str '' already exists''), r)
          else
            (Ok (if local_spec = str ''tcp:0'' \<or> local_spec = str ''0'' then fmt_dec (unat port) else []),
             push_forward canonical remote_spec (snd (remove_forward canonical r)))
      | Err e \<Rightarrow> (Err e, r)
      | Panic \<Rightarrow> (Panic, r))"

definition list_reverses :: "TransportRegistry \<Rightarrow> rstr" where
  "list_reverses r = concat (map (\<lambda>v. rv_serial v @ str '' '' @ rv_remote v @ str '' '' @ rv_local v @ [0x0A]) (reverses r))"

definition add_reverse :: "rstr \<Rightarrow> rstr \<Rightarrow> bool \<Rightarrow> TransportRegistry \<Rightarrow> (unit, rstr) outcome \<times> TransportRegistry" where
  "add_reverse remote loc no_rebind r =
     (if no_rebind \<and> (\<exists>v\<in>set (reverses r). rv_remote v = remote) then
        (Err (str ''reverse forward '' @ [0x27] @ remote @ [0x27] @ str '' already exists''), r)
      else
        (Ok (), r\<lparr>reverses := filter (\<lambda>v. rv_remote v \<noteq> remote) (reverses r) @
                    [\<lparr>rv_serial = default_serial r, rv_remote = remote, rv_local = loc\<rparr>]\<rparr>))"

definition remove_reverse :: "rstr \<Rightarrow> TransportRegistry \<Rightarrow> bool \<times> TransportRegistry" where
  "remove_reverse remote r =
     (let vs = filter (\<lambda>v. rv_remote v \<noteq> remote) (reverses r) in (length (reverses r) \<noteq> length vs, r\<lparr>reverses := vs\<rparr>))"

definition remove_all_reverses :: "TransportRegistry \<Rightarrow> TransportRegistry" where
  "remove_all_reverses r = r\<lparr>reverses := []\<rparr>"

section \<open>The host services\<close>

definition spec_prefixes :: "rstr list" where
  "spec_prefixes = map str [''tcp:'', ''localabstract:'', ''localreserved:'', ''localfilesystem:'', ''dev:'', ''jdwp:'']"

fun split_after_prefix :: "rstr \<Rightarrow> rstr list \<Rightarrow> (rstr \<times> rstr) option" where
  "split_after_prefix s [] = None"
| "split_after_prefix s (p # ps) =
     (case (if starts_with s p then split_once 0x3A (drop (length p) s) else None) of
        Some (p1, p2) \<Rightarrow> Some (take (length p + length p1) s, drop (length p + length p1 + 1) s)
      | None \<Rightarrow> split_after_prefix s ps)"

definition parse_spec_pair :: "rstr \<Rightarrow> (rstr \<times> rstr) option" where
  "parse_spec_pair s =
     (case split_once 0x3B s of
        Some pair \<Rightarrow> Some pair
      | None \<Rightarrow> (case split_after_prefix s spec_prefixes of Some pair \<Rightarrow> Some pair | None \<Rightarrow> split_once 0x3A s))"

definition ok_str :: "rstr \<Rightarrow> bytes" where
  "ok_str s = str ''OKAY'' @ fmt_hex 4 (length s) @ s"

definition fail_str :: "rstr \<Rightarrow> bytes" where
  "fail_str msg = str ''FAIL'' @ fmt_hex 4 (length msg) @ msg"

definition quoted :: "rstr \<Rightarrow> rstr" where
  "quoted s = [0x27] @ s @ [0x27]"

definition forward_answer :: "(rstr, rstr) outcome \<times> TransportRegistry \<Rightarrow> bytes \<times> TransportRegistry" where
  "forward_answer res = (case res of (Ok s, r) \<Rightarrow> (ok_str s, r) | (Err msg, r) \<Rightarrow> (fail_str msg, r) | (Panic, r) \<Rightarrow> ([], r))"

definition reverse_answer :: "(unit, rstr) outcome \<times> TransportRegistry \<Rightarrow> bytes \<times> TransportRegistry" where
  "reverse_answer res = (case res of (Ok _, r) \<Rightarrow> (ok_str [], r) | (Err msg, r) \<Rightarrow> (fail_str msg, r) | (Panic, r) \<Rightarrow> ([], r))"

text \<open>The bytes that the client gets and the registry after it.\<close>

definition handle_forward :: "(u16 \<Rightarrow> bind_result) \<Rightarrow> rstr \<Rightarrow> TransportRegistry \<Rightarrow> bytes \<times> TransportRegistry" where
  "handle_forward bind sub r =
     (if sub = str ''list'' then (ok_str (list_forwards r), r)
      else if sub = str ''killforward-all'' \<or> sub = str ''remove-all'' then (ok_str [], remove_all_forwards r)
      else if starts_with sub (str ''killforward:'') \<or> starts_with sub (str ''remove:'') then
        (let loc = (if starts_with sub (str ''killforward:'') then drop 12 sub else drop 7 sub) in
         case remove_forward loc r of (removed, r) \<Rightarrow>
           (if removed then ok_str [] else fail_str (str ''forward '' @ quoted loc @ str '' not found''), r))
      else if starts_with sub (str ''norebind:'') then
        (case parse_spec_pair (drop 9 sub) of
           Some (loc, remote) \<Rightarrow> forward_answer (add_forward bind loc remote True r)
         | None \<Rightarrow> (fail_str (str ''invalid forward norebind format: use local;remote''), r))
      else
        (case parse_spec_pair sub of
           Some (loc, remote) \<Rightarrow> forward_answer (add_forward bind loc remote False r)
         | None \<Rightarrow> (fail_str (str ''invalid forward: '' @ sub), r)))"

definition handle_reverse :: "rstr \<Rightarrow> TransportRegistry \<Rightarrow> bytes \<times> TransportRegistry" where
  "handle_reverse sub r =
     (let format_error = fail_str (str ''invalid reverse format: use remote;local or remote:local'') in
      if sub = str ''list'' then (ok_str (list_reverses r), r)
      else if sub = str ''killforward-all'' \<or> sub = str ''killreverse-all'' \<or> sub = str ''remove-all'' then
        (ok_str [], remove_all_reverses r)
      else if starts_with sub (str ''killreverse:'') \<or> starts_with sub (str ''killforward:'') \<or> starts_with sub (str ''remove:'') then
        (let remote = (if starts_with sub (str ''remove:'') then drop 7 sub else drop 12 sub) in
         case remove_reverse remote r of (removed, r) \<Rightarrow>
           (if removed then ok_str [] else fail_str (str ''reverse forward '' @ quoted remote @ str '' not found''), r))
      else if starts_with sub (str ''norebind:'') then
        (case parse_spec_pair (drop 9 sub) of
           Some (remote, loc) \<Rightarrow> reverse_answer (add_reverse remote loc True r)
         | None \<Rightarrow> (format_error, r))
      else if starts_with sub (str ''forward:'') then
        (case parse_spec_pair (drop 8 sub) of
           Some (remote, loc) \<Rightarrow> reverse_answer (add_reverse remote loc False r)
         | None \<Rightarrow> (format_error, r))
      else
        (case parse_spec_pair sub of
           Some (remote, loc) \<Rightarrow> reverse_answer (add_reverse remote loc False r)
         | None \<Rightarrow> (fail_str (str ''invalid reverse: '' @ sub), r)))"

end
