(* ===== verification/Server_Invariant.thy ===== *)
theory Server_Invariant
  imports Server_Forward
begin

text \<open>
  What every sequence of operations keeps of the transport registry: serial numbers and transport ids name one device,
  the tables have one rule per socket, and the listener threads that still run are those of the forwards that are
  listed. The events that the life cycle fires replay to the set of the devices.
\<close>

section \<open>Operations\<close>

datatype op =
    RegisterTcp SocketAddr rstr
  | RegisterUsb rstr
  | Unregister rstr
  | UnregisterAllTcp
  | UpdateInfo rstr rstr
  | SetState rstr DeviceState

datatype request =
    Manage op
  | RefreshUsb "usb_candidate list option"
  | ForwardService "u16 \<Rightarrow> bind_result" rstr
  | ReverseService rstr

definition manage :: "op \<Rightarrow> TransportRegistry \<Rightarrow> TransportEvent list \<times> TransportRegistry" where
  "manage x r =
     (case x of
        RegisterTcp addr s \<Rightarrow> register_tcp_device addr s r
      | RegisterUsb s \<Rightarrow> register_usb_device s r
      | Unregister s \<Rightarrow> unregister_device s r
      | UnregisterAllTcp \<Rightarrow> unregister_all_tcp_devices r
      | UpdateInfo s banner \<Rightarrow> update_device_info s banner r
      | SetState s st \<Rightarrow> set_device_state s st r)"

definition serve_request :: "request \<Rightarrow> TransportRegistry \<Rightarrow> TransportRegistry" where
  "serve_request q r =
     (case q of
        Manage x \<Rightarrow> snd (manage x r)
      | RefreshUsb enumerated \<Rightarrow> refresh_usb_devices enumerated r
      | ForwardService bind sub \<Rightarrow> snd (handle_forward bind sub r)
      | ReverseService sub \<Rightarrow> snd (handle_reverse sub r))"

text \<open>How many transport ids a request may use up.\<close>

definition request_ids :: "request \<Rightarrow> nat" where
  "request_ids q =
     (case q of
        Manage x \<Rightarrow> 1
      | RefreshUsb enumerated \<Rightarrow> (case enumerated of Some cs \<Rightarrow> length cs | None \<Rightarrow> 0)
      | _ \<Rightarrow> 0)"

section \<open>Devices\<close>

definition devices_ok :: "TransportRegistry \<Rightarrow> bool" where
  "devices_ok r \<longleftrightarrow>
     distinct (map serial (devices r)) \<and> distinct (map transport_id (devices r)) \<and>
     (\<forall>d\<in>set (devices r). transport_id d < next_id r)"

lemma devices_ok_update:
  assumes "devices_ok r" and "\<And>d. serial (f d) = serial d" and "\<And>d. transport_id (f d) = transport_id d"
  shows "devices_ok (r\<lparr>devices := update_first P f (devices r)\<rparr>)"
  using assms update_first_in [of _ P f "devices r"] by (fastforce simp: devices_ok_def update_first_map)

lemma devices_ok_filter: "devices_ok r \<Longrightarrow> devices_ok (r\<lparr>devices := filter P (devices r)\<rparr>)"
  by (auto simp: devices_ok_def distinct_map_filter)

lemma next_id_fresh: "unat (n :: u64) + 1 < 2 ^ 64 \<Longrightarrow> n < n + 1 \<and> unat (n + 1) = unat n + 1"
  using unat_add_lem [of n 1] by (simp add: word_less_nat_alt)

lemma devices_ok_push:
  assumes "devices_ok r" and "\<not> has_serial s r" and "unat (next_id r) + 1 < 2 ^ 64"
  shows "devices_ok (push_device s orig r)"
  using assms next_id_fresh [OF assms(3)]
  by (fastforce simp: devices_ok_def push_device_def has_serial_def intro: less_trans)

lemma next_id_push: "unat (next_id r) + 1 < 2 ^ 64 \<Longrightarrow> unat (next_id (push_device s orig r)) = unat (next_id r) + 1"
  by (simp add: push_device_def next_id_fresh)

lemma find_by_serial_None: "find_by_serial s r = None \<longleftrightarrow> \<not> has_serial s r"
  by (auto simp: find_by_serial_def has_serial_def find_None_iff)

lemma banner_property_keeps [simp]:
  "serial (banner_property p d) = serial d" "transport_id (banner_property p d) = transport_id d"
  by (simp_all add: banner_property_def Let_def split: option.splits prod.splits)

lemma banner_properties_keep [simp]:
  "serial (fold banner_property ps d) = serial d" "transport_id (fold banner_property ps d) = transport_id d"
  by (induction ps arbitrary: d) simp_all

lemmas manage_defs = manage_def register_tcp_device_def register_usb_device_def unregister_device_def
  unregister_all_tcp_devices_def update_device_info_def set_device_state_def upsert_tcp_device_def remove_device_def
  remove_all_tcp_devices_def

lemma manage_devices:
  assumes "devices_ok r" and "unat (next_id r) + 1 < 2 ^ 64"
  shows "devices_ok (snd (manage x r)) \<and> unat (next_id (snd (manage x r))) \<le> unat (next_id r) + 1"
  using assms
  by (cases x) (auto simp: manage_defs Let_def find_by_serial_None next_id_push
      intro!: devices_ok_push devices_ok_update devices_ok_filter)

lemma add_usb_devices:
  assumes "devices_ok r" and "unat (next_id r) + 1 < 2 ^ 64"
  shows "devices_ok (add_usb c r) \<and> unat (next_id (add_usb c r)) \<le> unat (next_id r) + 1"
  using assms by (auto simp: add_usb_def next_id_push intro!: devices_ok_push)

lemma add_all_usb_devices:
  "devices_ok r \<Longrightarrow> unat (next_id r) + length cs < 2 ^ 64 \<Longrightarrow>
   devices_ok (fold add_usb cs r) \<and> unat (next_id (fold add_usb cs r)) \<le> unat (next_id r) + length cs"
proof (induction cs arbitrary: r)
  case (Cons c cs)
  have c: "devices_ok (add_usb c r)" "unat (next_id (add_usb c r)) \<le> unat (next_id r) + 1"
    using add_usb_devices [of r c] Cons.prems by auto
  show ?case using Cons.IH [OF c(1)] c(2) Cons.prems(2) by simp
qed simp

section \<open>Rules\<close>

definition rules_ok :: "TransportRegistry \<Rightarrow> bool" where
  "rules_ok r \<longleftrightarrow>
     distinct (map fw_local (forwards r)) \<and> distinct (map rv_remote (reverses r)) \<and>
     distinct (map active_flag (forwards r)) \<and>
     (\<forall>f\<in>set (forwards r). active_flag f < length (flag_store r)) \<and>
     (\<forall>a<length (flag_store r). flag_store r ! a \<longleftrightarrow> a \<in> active_flag ` set (forwards r))"

lemma length_clear_flags [simp]: "length (clear_flags as fs) = length fs"
  unfolding clear_flags_def by (induction as arbitrary: fs) simp_all

lemma clear_flags_nth: "i < length fs \<Longrightarrow> clear_flags as fs ! i \<longleftrightarrow> fs ! i \<and> i \<notin> set as"
  unfolding clear_flags_def
proof (induction as arbitrary: fs)
  case (Cons a as)
  then show ?case by (cases "a = i") simp_all
qed simp

lemma rules_ok_remove: "rules_ok r \<Longrightarrow> rules_ok (snd (remove_forward s r))"
  by (auto simp: rules_ok_def remove_forward_def Let_def distinct_map_filter clear_flags_nth)
    (auto simp: distinct_map inj_on_def)

lemma rules_ok_remove_all: "rules_ok r \<Longrightarrow> rules_ok (remove_all_forwards r)"
  by (auto simp: rules_ok_def remove_all_forwards_def clear_flags_nth)

lemma rules_ok_push: "rules_ok r \<Longrightarrow> loc \<notin> fw_local ` set (forwards r) \<Longrightarrow> rules_ok (push_forward loc remote r)"
  by (fastforce simp: rules_ok_def push_forward_def nth_append less_Suc_eq)

lemma rules_ok_add_forward: "rules_ok r \<Longrightarrow> rules_ok (snd (add_forward bind loc remote nb r))"
  by (auto simp: add_forward_def split: outcome.splits intro!: rules_ok_push rules_ok_remove)
    (auto simp: remove_forward_def Let_def)

lemma rules_ok_reverses:
  "rules_ok r \<Longrightarrow> rules_ok (snd (add_reverse remote loc nb r))" "rules_ok r \<Longrightarrow> rules_ok (snd (remove_reverse remote r))"
  "rules_ok r \<Longrightarrow> rules_ok (remove_all_reverses r)"
  by (auto simp: rules_ok_def add_reverse_def remove_reverse_def remove_all_reverses_def Let_def distinct_map_filter)

lemma answers_snd [simp]: "snd (forward_answer x) = snd x" "snd (reverse_answer y) = snd y"
  by (auto simp: forward_answer_def reverse_answer_def split: prod.splits outcome.splits)

lemma handle_forward_induct:
  assumes "P r" and "P (remove_all_forwards r)" and "\<And>loc. P (snd (remove_forward loc r))"
    and "\<And>loc remote nb. P (snd (add_forward bind loc remote nb r))"
  shows "P (snd (handle_forward bind sub r))"
  using assms by (simp add: handle_forward_def Let_def case_prod_beta split: option.split)

lemma handle_reverse_induct:
  assumes "P r" and "P (remove_all_reverses r)" and "\<And>remote. P (snd (remove_reverse remote r))"
    and "\<And>remote loc nb. P (snd (add_reverse remote loc nb r))"
  shows "P (snd (handle_reverse sub r))"
  using assms by (simp add: handle_reverse_def Let_def case_prod_beta split: option.split)

lemma rules_ok_handle_forward: "rules_ok r \<Longrightarrow> rules_ok (snd (handle_forward bind sub r))"
  by (rule handle_forward_induct [of rules_ok]) (simp_all add: rules_ok_remove rules_ok_remove_all rules_ok_add_forward)

lemma rules_ok_handle_reverse: "rules_ok r \<Longrightarrow> rules_ok (snd (handle_reverse sub r))"
  by (rule handle_reverse_induct [of rules_ok]) (simp_all add: rules_ok_reverses)

lemma services_keep_devices:
  "devices (snd (handle_forward bind sub r)) = devices r \<and> next_id (snd (handle_forward bind sub r)) = next_id r"
  "devices (snd (handle_reverse sub r)) = devices r \<and> next_id (snd (handle_reverse sub r)) = next_id r"
proof -
  show "devices (snd (handle_forward bind sub r)) = devices r \<and> next_id (snd (handle_forward bind sub r)) = next_id r"
    by (rule handle_forward_induct [of "\<lambda>q. devices q = devices r \<and> next_id q = next_id r"])
      (simp_all add: remove_all_forwards_def remove_forward_def add_forward_def push_forward_def Let_def split: outcome.split prod.split)
  show "devices (snd (handle_reverse sub r)) = devices r \<and> next_id (snd (handle_reverse sub r)) = next_id r"
    by (rule handle_reverse_induct [of "\<lambda>q. devices q = devices r \<and> next_id q = next_id r"])
      (simp_all add: remove_all_reverses_def remove_reverse_def add_reverse_def Let_def)
qed

lemma rules_ok_devices [simp]: "rules_ok (r\<lparr>devices := ds\<rparr>) = rules_ok r"
  by (simp add: rules_ok_def)

lemma rules_ok_push_device [simp]: "rules_ok (push_device s orig r) = rules_ok r"
  by (simp add: rules_ok_def push_device_def)

lemma rules_ok_manage: "rules_ok (snd (manage x r)) = rules_ok r"
  by (cases x) (simp_all add: manage_defs Let_def)

lemma rules_ok_add_all: "rules_ok (fold add_usb cs r) = rules_ok r"
  by (induction cs arbitrary: r) (simp_all add: add_usb_def)

lemma rules_ok_refresh: "rules_ok (refresh_usb_devices enumerated r) = rules_ok r"
  by (simp add: refresh_usb_devices_def Let_def rules_ok_add_all split: option.split)

section \<open>All requests\<close>

definition registry_ok :: "TransportRegistry \<Rightarrow> bool" where
  "registry_ok r \<longleftrightarrow> devices_ok r \<and> rules_ok r"

lemma serve_request_ok:
  assumes "registry_ok r" and "unat (next_id r) + request_ids q < 2 ^ 64"
  shows "registry_ok (serve_request q r) \<and> unat (next_id (serve_request q r)) \<le> unat (next_id r) + request_ids q"
proof (cases q)
  case (Manage x)
  then show ?thesis
    using assms manage_devices [of r x] by (simp add: serve_request_def request_ids_def registry_ok_def rules_ok_manage)
next
  case (RefreshUsb enumerated)
  then show ?thesis
    using assms add_all_usb_devices [of r "the enumerated"]
    by (cases enumerated) (auto simp: serve_request_def request_ids_def registry_ok_def rules_ok_add_all
      refresh_usb_devices_def Let_def intro!: devices_ok_filter)
next
  case (ForwardService bind sub)
  then show ?thesis
    using assms rules_ok_handle_forward services_keep_devices(1)
    by (simp add: serve_request_def request_ids_def registry_ok_def devices_ok_def)
next
  case (ReverseService sub)
  then show ?thesis
    using assms rules_ok_handle_reverse services_keep_devices(2)
    by (simp add: serve_request_def request_ids_def registry_ok_def devices_ok_def)
qed

lemma serve_requests_ok:
  "registry_ok r \<Longrightarrow> unat (next_id r) + sum_list (map request_ids qs) < 2 ^ 64 \<Longrightarrow> registry_ok (fold serve_request qs r)"
proof (induction qs arbitrary: r)
  case (Cons q qs)
  have "registry_ok (serve_request q r)" "unat (next_id (serve_request q r)) \<le> unat (next_id r) + request_ids q"
    using serve_request_ok [of r q] Cons.prems by simp_all
  then show ?case using Cons.IH Cons.prems by simp
qed simp

lemma registry_ok_empty: "registry_ok TransportRegistry_empty"
  by (simp add: registry_ok_def devices_ok_def rules_ok_def TransportRegistry_empty_def)


definition no_ports :: "u16 \<Rightarrow> bind_result" where
  "no_ports p = Err (str ''in use'')"

definition sample_requests :: "request list" where
  "sample_requests =
     [Manage (RegisterTcp (V4 [10, 0, 0, 2], 5555) (str ''a'')), RefreshUsb (Some [(None, 1, 2)]),
      ForwardService no_ports (str ''dev:a;tcp:9''), ForwardService no_ports (str ''dev:b;tcp:9''),
      ForwardService no_ports (str ''killforward:dev:a'')]"


section \<open>Events\<close>

text \<open>What a listener of the events knows of the devices.\<close>

fun replay :: "TransportEvent \<Rightarrow> rstr set \<Rightarrow> rstr set" where
  "replay (Connected s orig) known = insert s known"
| "replay (Disconnected s) known = known - {s}"
| "replay (StateChanged s old new) known = known"

definition serials :: "TransportRegistry \<Rightarrow> rstr set" where
  "serials r = serial ` set (devices r)"

fun manage_all :: "op list \<Rightarrow> TransportRegistry \<Rightarrow> TransportEvent list \<times> TransportRegistry" where
  "manage_all [] r = ([], r)"
| "manage_all (x # xs) r =
     (case manage x r of (es, r) \<Rightarrow> case manage_all xs r of (fs, r) \<Rightarrow> (es @ fs, r))"

lemma serials_update_first:
  "(\<And>d. serial (f d) = serial d) \<Longrightarrow> serials (r\<lparr>devices := update_first P f (devices r)\<rparr>) = serials r"
  unfolding serials_def set_map [symmetric] by (simp add: update_first_map del: set_map)

lemma serials_push: "serials (push_device s orig r) = insert s (serials r)"
  by (simp add: serials_def push_device_def)

lemma has_serial_serials: "has_serial s r \<longleftrightarrow> s \<in> serials r"
  by (auto simp: has_serial_def serials_def)

lemma replay_disconnects: "fold replay (map Disconnected ss) known = known - set ss"
  by (induction ss arbitrary: known) auto

lemma filter_serials:
  assumes "distinct (map serial (devices r))"
  shows "serials (r\<lparr>devices := filter P (devices r)\<rparr>) = serials r - serial ` set (filter (\<lambda>d. \<not> P d) (devices r))"
  using assms by (auto simp: serials_def distinct_map inj_on_def)

lemma manage_events:
  assumes "devices_ok r"
  shows "fold replay (fst (manage x r)) (serials r) = serials (snd (manage x r))"
proof (cases x)
  case (Unregister s)
  have "s \<notin> serials r" if "length (filter (\<lambda>d. serial d \<noteq> s) (devices r)) = length (devices r)"
    using that length_filter_less [of _ "devices r" "\<lambda>d. serial d \<noteq> s"] by (fastforce simp: serials_def)
  then show ?thesis using Unregister by (auto simp: manage_defs Let_def serials_def)
next
  case UnregisterAllTcp
  then show ?thesis
    using assms replay_disconnects [of "map serial (filter (\<lambda>d. origin d \<noteq> Usb) (devices r))" "serials r"]
    by (simp add: manage_defs filter_serials devices_ok_def)
qed (auto simp: manage_defs state_event_def find_by_serial_None has_serial_serials serials_push serials_update_first
      split: option.split)



text \<open>A device that was offline and registers again is back on line without an event.\<close>

lemma register_tcp_silently_online:
  assumes "find_by_serial s r = Some d" and "state d = Offline"
  shows "fst (register_tcp_device addr s r) = []"
    and "\<exists>d. find_by_serial s (snd (register_tcp_device addr s r)) = Some d \<and> state d = Device"
proof -
  have *: "List.find (\<lambda>d. serial d = s) (update_first (\<lambda>d. serial d = s) f ds) = map_option f (List.find (\<lambda>d. serial d = s) ds)"
    if "\<And>d. serial (f d) = serial d" for f ds
    using that by (induction ds) auto
  have "has_serial s r" using assms(1) find_by_serial_None [of s r] by simp
  with assms show "fst (register_tcp_device addr s r) = []"
    "\<exists>d. find_by_serial s (snd (register_tcp_device addr s r)) = Some d \<and> state d = Device"
    by (simp_all add: register_tcp_device_def upsert_tcp_device_def find_by_serial_def *)
qed

text \<open>The refresh of \<open>server/transport.rs\<close> lists a device twice that is also known over TCP, under one serial number.\<close>

lemma manager_refresh_duplicates:
  assumes "devices r = [d]" and "origin d = Tcp addr"
  shows "map serial (devices (snd (manager_refresh_usb (Some [(Some (serial d), bus, address)]) r))) = [serial d, serial d]"
  using assms by (simp add: manager_refresh_usb_def candidate_serial_def push_device_def Let_def swap_remove_from.simps)

section \<open>Forwards\<close>

text \<open>\<open>bind\<close> of a port on which a listener of the server still runs is an error.\<close>

definition listeners_hold_ports :: "(u16 \<Rightarrow> bind_result) \<Rightarrow> TransportRegistry \<Rightarrow> bool" where
  "listeners_hold_ports bind r \<longleftrightarrow>
     (\<forall>f\<in>set (forwards r). \<forall>p. fw_local f = str ''tcp:'' @ fmt_dec (unat p) \<longrightarrow> (\<exists>e. bind p = Err e))"

text \<open>
  C37: A forward of a TCP port can not be replaced. The new listener is bound before the old rule is removed, so as long
  as the old listener holds the port, the request to forward it elsewhere fails and leaves the table as it is,
  whether or not rebinding was allowed.
\<close>

theorem forward_rebind_fails:
  fixes p :: u16
  assumes "listeners_hold_ports bind r"
    and "f \<in> set (forwards r)" and "fw_local f = str ''tcp:'' @ fmt_dec (unat p)"
  shows "\<exists>e. add_forward bind (str ''tcp:'' @ fmt_dec (unat p)) remote nb r =
    (Err (str ''cannot bind listener for tcp:'' @ fmt_dec (unat p) @ str '': '' @ e), r)"
proof -
  obtain e where e: "bind p = Err e" using assms by (auto simp: listeners_hold_ports_def)
  have "unat p < 2 ^ 16" using unsigned_less [of p] by simp
  then have "from_str_radix 10 (2 ^ 16) (fmt_dec (unat p)) = Some (unat p)" by (rule from_str_fmt_dec)
  then have "bind_local bind (str ''tcp:'' @ fmt_dec (unat p)) =
      Err (str ''cannot bind listener for tcp:'' @ fmt_dec (unat p) @ str '': '' @ e)"
    using e by (simp add: bind_local_def starts_with_def) (simp add: str_def)
  then show ?thesis by (auto simp: add_forward_def)
qed

theorem forward_rebind_fails_witness:
  "\<exists>e. add_forward (\<lambda>p. if p = 8 then Err (str ''in use'') else Ok (Ok p)) (str ''tcp:'' @ fmt_dec (unat (8 :: u16))) (str ''tcp:1'') False
     (push_forward (str ''tcp:'' @ fmt_dec (unat (8 :: u16))) (str ''tcp:9'') TransportRegistry_empty) =
     (Err (str ''cannot bind listener for tcp:'' @ fmt_dec (unat (8 :: u16)) @ str '': '' @ e),
      push_forward (str ''tcp:'' @ fmt_dec (unat (8 :: u16))) (str ''tcp:9'') TransportRegistry_empty)"
proof (rule forward_rebind_fails)
  have "p = 8" if "fmt_dec (unat (8 :: u16)) = fmt_dec (unat p)" for p :: u16
  proof -
    have "unat p < 2 ^ 16" using unsigned_less [of p] by simp
    then have "unat (8 :: u16) = unat p"
      using arg_cong [OF that, of "from_str_radix 10 (2 ^ 16)"] by (simp add: from_str_fmt_dec)
    then show ?thesis by (metis word_unat_eq_iff)
  qed
  then show "listeners_hold_ports (\<lambda>p. if p = 8 then Err (str ''in use'') else Ok (Ok p))
      (push_forward (str ''tcp:'' @ fmt_dec (unat (8 :: u16))) (str ''tcp:9'') TransportRegistry_empty)"
    by (auto simp: listeners_hold_ports_def push_forward_def TransportRegistry_empty_def)
qed (auto simp: push_forward_def TransportRegistry_empty_def)

end
