(* ===== verification/Reconnect.thy ===== *)
theory Reconnect
  imports Server_Registry Rust_Collections "HOL-Library.Multiset"
begin

text \<open>
  The reconnect queue of the ADB server (\<open>ReconnectHandler\<close> of \<open>server/transport.rs\<close>). The background thread polls the
  queue in two phases: it collects the entries that are due under the lock of the queue, and then tries them one
  after the other, taking the lock again after each connection. In between, other threads add, kick and release
  transports. Times are in nanoseconds. Whether a connection comes about, and when it is known, is an argument.
\<close>

section \<open>The handler\<close>

record ReconnectConfig =
  cfg_max_retries :: u32
  base_delay_secs :: u64
  max_delay_secs :: u64
  poll_interval_secs :: u64

definition ReconnectConfig_default :: ReconnectConfig where
  "ReconnectConfig_default = \<lparr>cfg_max_retries = 5, base_delay_secs = 1, max_delay_secs = 30, poll_interval_secs = 1\<rparr>"

definition saturate :: "nat \<Rightarrow> nat" where
  "saturate n = min n (2 ^ 64 - 1)"

definition next_delay :: "ReconnectConfig \<Rightarrow> u32 \<Rightarrow> nat" where
  "next_delay cfg attempt =
     min (saturate (unat (base_delay_secs cfg) * saturate (2 ^ unat attempt))) (unat (max_delay_secs cfg))"

definition from_secs :: "nat \<Rightarrow> nat" where
  "from_secs n = n * 1000000000"

record ReconnectEntry =
  re_serial :: rstr
  re_addr :: SocketAddr
  retry_count :: u32
  max_retries :: u32
  next_attempt :: nat
  kicked :: bool

record ReconnectHandler =
  queue :: "ReconnectEntry list"
  ref_counts :: "(rstr, u32) hash_map"
  config :: ReconnectConfig

definition with_config :: "ReconnectConfig \<Rightarrow> ReconnectHandler" where
  "with_config cfg = \<lparr>queue = [], ref_counts = [], config = cfg\<rparr>"

definition queued :: "rstr \<Rightarrow> ReconnectEntry list \<Rightarrow> bool" where
  "queued s q \<longleftrightarrow> (\<exists>e\<in>set q. re_serial e = s)"

definition add_transport :: "nat \<Rightarrow> rstr \<Rightarrow> SocketAddr \<Rightarrow> ReconnectHandler \<Rightarrow> ReconnectHandler" where
  "add_transport now s addr h =
     h\<lparr>queue :=
         (if queued s (queue h) then
            update_first (\<lambda>e. re_serial e = s)
              (\<lambda>e. e\<lparr>retry_count := 0, kicked := False, next_attempt := now, re_addr := addr\<rparr>) (queue h)
          else
            queue h @ [\<lparr>re_serial = s, re_addr = addr, retry_count = 0, max_retries = cfg_max_retries (config h),
                        next_attempt = now, kicked = False\<rparr>]),
       ref_counts :=
         hm_insert s ((case hm_get (ref_counts h) s of Some n \<Rightarrow> n | None \<Rightarrow> 0) + 1) (ref_counts h)\<rparr>"

definition kick_transport :: "rstr \<Rightarrow> ReconnectHandler \<Rightarrow> bool \<times> ReconnectHandler" where
  "kick_transport s h =
     (queued s (queue h), h\<lparr>queue := update_first (\<lambda>e. re_serial e = s) (\<lambda>e. e\<lparr>kicked := True\<rparr>) (queue h)\<rparr>)"

definition drop_serial :: "rstr \<Rightarrow> ReconnectEntry list \<Rightarrow> ReconnectEntry list" where
  "drop_serial s q = filter (\<lambda>e. re_serial e \<noteq> s) q"

definition transport_unref :: "rstr \<Rightarrow> ReconnectHandler \<Rightarrow> bool \<times> ReconnectHandler" where
  "transport_unref s h =
     (case hm_get (ref_counts h) s of
        None \<Rightarrow> (False, h)
      | Some n \<Rightarrow>
          let n = (if n > 0 then n - 1 else n) in
          if n = 0 then (True, h\<lparr>queue := drop_serial s (queue h), ref_counts := hm_remove s (ref_counts h)\<rparr>)
          else (False, h\<lparr>ref_counts := hm_insert s n (ref_counts h)\<rparr>))"

definition ref_count :: "rstr \<Rightarrow> ReconnectHandler \<Rightarrow> u32" where
  "ref_count s h = (case hm_get (ref_counts h) s of Some n \<Rightarrow> n | None \<Rightarrow> 0)"

definition is_queued :: "rstr \<Rightarrow> ReconnectHandler \<Rightarrow> bool" where
  "is_queued s h \<longleftrightarrow> (\<exists>e\<in>set (queue h). re_serial e = s \<and> \<not> kicked e)"

definition queue_len :: "ReconnectHandler \<Rightarrow> nat" where
  "queue_len h = length (filter (\<lambda>e. \<not> kicked e) (queue h))"

definition clear_queue :: "ReconnectHandler \<Rightarrow> ReconnectHandler" where
  "clear_queue h = h\<lparr>queue := [], ref_counts := []\<rparr>"

section \<open>Polling\<close>

text \<open>The first phase: the queue without the kicked entries, and the entries that are due with their indices.\<close>

function scan_queue ::
  "nat \<Rightarrow> nat \<Rightarrow> ReconnectEntry list \<Rightarrow> ReconnectEntry list \<times> (nat \<times> ReconnectEntry) list" where
  "scan_queue now i q =
     (if i < length q then
        if kicked (q ! i) then scan_queue now i (butlast (q[i := List.last q]))
        else
          (case scan_queue now (i + 1) q of (q', ready) \<Rightarrow>
             (q', if now \<ge> next_attempt (q ! i) then (i, q ! i) # ready else ready))
      else (q, []))"
  by pat_completeness auto
termination
  by (relation "measure (\<lambda>(now, i, q). length q - i)") auto

declare scan_queue.simps [simp del]

text \<open>The second phase for one entry: \<open>ok\<close> is the result of the connection, known at the time \<open>now\<close>.\<close>

definition gives_up :: "ReconnectEntry \<Rightarrow> bool" where
  "gives_up e \<longleftrightarrow> max_retries e > 0 \<and> retry_count e \<ge> max_retries e"

definition try_entry :: "ReconnectConfig \<Rightarrow> bool \<Rightarrow> nat \<Rightarrow> nat \<times> ReconnectEntry \<Rightarrow> ReconnectEntry list \<Rightarrow> ReconnectEntry list" where
  "try_entry cfg ok now ie q =
     (case ie of (idx, e) \<Rightarrow>
        if gives_up e then drop_serial (re_serial e) q
        else if ok then drop_serial (re_serial e) q
        else if idx < length q \<and> re_serial (q ! idx) = re_serial e then
          q[idx := (q ! idx)\<lparr>retry_count := retry_count e + 1, next_attempt := now + from_secs (next_delay cfg (retry_count e))\<rparr>]
        else q)"

text \<open>A whole poll with nothing in between; \<open>outcome\<close> gives the result for a serial number and when it is known.\<close>

definition poll_reconnect_queue :: "nat \<Rightarrow> (rstr \<Rightarrow> bool \<times> nat) \<Rightarrow> ReconnectHandler \<Rightarrow> ReconnectHandler" where
  "poll_reconnect_queue now outcome h =
     (case scan_queue now 0 (queue h) of (q, ready) \<Rightarrow>
        h\<lparr>queue := fold (\<lambda>ie. try_entry (config h) (fst (outcome (re_serial (snd ie)))) (snd (outcome (re_serial (snd ie)))) ie)
            ready q\<rparr>)"

section \<open>Threads\<close>

text \<open>The poll of the background thread, entry by entry, between the calls of other threads.\<close>

inductive reconnect_run :: "ReconnectConfig \<Rightarrow> ReconnectHandler \<Rightarrow> (nat \<times> ReconnectEntry) list \<Rightarrow> bool" for cfg where
  start: "reconnect_run cfg (with_config cfg) []"
| add: "reconnect_run cfg h pending \<Longrightarrow> reconnect_run cfg (add_transport now s addr h) pending"
| kick: "reconnect_run cfg h pending \<Longrightarrow> reconnect_run cfg (snd (kick_transport s h)) pending"
| unref: "reconnect_run cfg h pending \<Longrightarrow> reconnect_run cfg (snd (transport_unref s h)) pending"
| clear: "reconnect_run cfg h pending \<Longrightarrow> reconnect_run cfg (clear_queue h) pending"
| scan: "reconnect_run cfg h [] \<Longrightarrow> scan_queue now 0 (queue h) = (q, ready) \<Longrightarrow> reconnect_run cfg (h\<lparr>queue := q\<rparr>) ready"
| attempt: "reconnect_run cfg h (ie # pending) \<Longrightarrow>
    reconnect_run cfg (h\<lparr>queue := try_entry (config h) ok now ie (queue h)\<rparr>) pending"

section \<open>The invariant\<close>

definition entry_ok :: "ReconnectConfig \<Rightarrow> ReconnectEntry \<Rightarrow> bool" where
  "entry_ok cfg e \<longleftrightarrow> max_retries e = cfg_max_retries cfg \<and> (max_retries e > 0 \<longrightarrow> retry_count e \<le> max_retries e)"

definition handler_ok :: "ReconnectConfig \<Rightarrow> ReconnectHandler \<Rightarrow> bool" where
  "handler_ok cfg h \<longleftrightarrow>
     config h = cfg \<and> distinct (map re_serial (queue h)) \<and> (\<forall>e\<in>set (queue h). entry_ok cfg e) \<and>
     (\<forall>e\<in>set (queue h). hm_contains (ref_counts h) (re_serial e))"

lemma swap_remove_mset:
  assumes "i < length xs"
  shows "mset (butlast (xs[i := List.last xs])) = mset xs - {#xs ! i#}"
proof -
  let ?ys = "xs[i := List.last xs]"
  have ne: "?ys \<noteq> []" "xs \<noteq> []" using assms by auto
  have "List.last ?ys = List.last xs" using ne by (cases "i = length xs - 1") (simp_all add: last_conv_nth)
  then have "mset ?ys = add_mset (List.last xs) (mset (butlast ?ys))"
    using arg_cong [OF append_butlast_last_id [OF ne(1)], of mset] by simp
  moreover have "mset ?ys = add_mset (List.last xs) (mset xs - {#xs ! i#})" using assms by (simp add: mset_update)
  ultimately show ?thesis by simp
qed

lemma distinct_count_le: "distinct xs \<longleftrightarrow> (\<forall>a. count (mset xs) a \<le> 1)"
proof
  show "distinct xs \<Longrightarrow> \<forall>a. count (mset xs) a \<le> 1" by (simp add: distinct_count_atmost_1)
  show "\<forall>a. count (mset xs) a \<le> 1 \<Longrightarrow> distinct xs"
  proof (induction xs)
    case (Cons x xs)
    then have "count (mset xs) a \<le> 1" for a by (metis add_mset_commute count_add_mset le_SucI le_trans lessI less_imp_le mset.simps(2))
    moreover have "x \<notin> set xs" using Cons.prems by (auto dest!: spec [of _ x] simp: count_eq_zero_iff)
    ultimately show ?case using Cons.IH by simp
  qed simp
qed

lemma sub_mset_distinct:
  assumes "mset xs \<subseteq># mset ys" and "distinct (map f ys)"
  shows "distinct (map f xs)"
proof -
  have "mset (map f xs) \<subseteq># mset (map f ys)" using assms(1) by (simp add: image_mset_subseteq_mono)
  then have "count (mset (map f xs)) a \<le> count (mset (map f ys)) a" for a by (rule mset_subset_eq_count)
  with assms(2) show ?thesis unfolding distinct_count_le by (meson le_trans)
qed

lemma scan_queue_subset:
  "scan_queue now i q = (q', ready) \<Longrightarrow> mset q' \<subseteq># mset q \<and> snd ` set ready \<subseteq> set q"
proof (induction now i q arbitrary: q' ready rule: scan_queue.induct)
  case (1 now i q)
  consider "length q \<le> i" | "i < length q" "kicked (q ! i)" | "i < length q" "\<not> kicked (q ! i)" by linarith
  then show ?case
  proof cases
    case 1
    then show ?thesis using \<open>scan_queue now i q = _\<close> by (simp add: scan_queue.simps [of now i q])
  next
    case 2
    let ?r = "butlast (q[i := List.last q])"
    have "mset q' \<subseteq># mset ?r \<and> snd ` set ready \<subseteq> set ?r"
      using 1(1) [OF 2] 1(3) 2 by (simp add: scan_queue.simps [of now i q])
    moreover have r: "mset ?r \<subseteq># mset q" using swap_remove_mset [OF 2(1)] by simp
    moreover have "set ?r \<subseteq> set q" using set_mset_mono [OF r] by (simp only: set_mset_mset)
    ultimately show ?thesis using subset_mset.order_trans [of "mset q'" "mset ?r" "mset q"] by blast
  next
    case 3
    then show ?thesis
      using 1(2) [OF 3] 1(3) by (fastforce simp: scan_queue.simps [of now i q] split: prod.splits if_splits)
  qed
qed

lemma scan_queue_all_due:
  "\<forall>e\<in>set (drop i q). \<not> kicked e \<and> next_attempt e \<le> now \<Longrightarrow> scan_queue now i q = (q, List.enumerate i (drop i q))"
proof (induction now i q rule: scan_queue.induct)
  case (1 now i q)
  show ?case
  proof (cases "i < length q")
    case True
    then have "drop i q = q ! i # drop (Suc i) q" by (rule Cons_nth_drop_Suc [symmetric])
    then show ?thesis using 1(2) [OF True] 1(3) True by (simp add: scan_queue.simps [of now i q])
  qed (simp add: scan_queue.simps [of now i q])
qed

lemma try_entry_cases:
  obtains "try_entry cfg ok now (i, e) q = drop_serial (re_serial e) q"
  | "try_entry cfg ok now (i, e) q = q"
  | "\<not> gives_up e" "i < length q" "re_serial (q ! i) = re_serial e"
    "try_entry cfg ok now (i, e) q =
       q[i := (q ! i)\<lparr>retry_count := retry_count e + 1, next_attempt := now + from_secs (next_delay cfg (retry_count e))\<rparr>]"
proof -
  consider "gives_up e \<or> ok" | "\<not> gives_up e" "\<not> ok" "i < length q \<and> re_serial (q ! i) = re_serial e"
    | "\<not> gives_up e" "\<not> ok" "\<not> (i < length q \<and> re_serial (q ! i) = re_serial e)"
    by blast
  then show thesis
  proof cases
    case 1
    then show ?thesis by (intro that(1)) (auto simp: try_entry_def)
  next
    case 2
    then show ?thesis by (intro that(3)) (auto simp: try_entry_def)
  next
    case 3
    then show ?thesis by (intro that(2)) (auto simp: try_entry_def)
  qed
qed

lemma entry_ok_retry:
  assumes "entry_ok cfg e" and "\<not> gives_up e" and "entry_ok cfg d"
  shows "entry_ok cfg (d\<lparr>retry_count := retry_count e + 1, next_attempt := t\<rparr>)"
  using assms by (auto simp: entry_ok_def gives_up_def not_le intro: inc_le)

lemma handler_ok_queue:
  assumes "handler_ok cfg h" and "set (map re_serial q) \<subseteq> set (map re_serial (queue h))"
    and "distinct (map re_serial q)" and "\<forall>e\<in>set q. entry_ok cfg e"
  shows "handler_ok cfg (h\<lparr>queue := q\<rparr>)"
  using assms by (fastforce simp: handler_ok_def)

lemma handler_ok_try:
  assumes "handler_ok cfg h" and "entry_ok cfg (snd ie)"
  shows "handler_ok cfg (h\<lparr>queue := try_entry cfg ok now ie (queue h)\<rparr>)"
proof -
  obtain i e where ie: "ie = (i, e)" by (cases ie)
  have q: "distinct (map re_serial (queue h))" "\<forall>e\<in>set (queue h). entry_ok cfg e"
    using assms(1) by (simp_all add: handler_ok_def)
  have "handler_ok cfg (h\<lparr>queue := try_entry cfg ok now (i, e) (queue h)\<rparr>)"
  proof (cases rule: try_entry_cases [of cfg ok now i e "queue h"])
    case 1
    then show ?thesis using q by (auto simp: drop_serial_def distinct_map_filter intro!: handler_ok_queue [OF assms(1)])
  next
    case 2
    then show ?thesis using assms(1) by simp
  next
    case 3
    let ?d = "(queue h ! i)\<lparr>retry_count := retry_count e + 1, next_attempt := now + from_secs (next_delay cfg (retry_count e))\<rparr>"
    have serials: "map re_serial ((queue h)[i := ?d]) = map re_serial (queue h)"
      using 3(2) by (simp add: map_update list_update_same_conv)
    have "entry_ok cfg ?d" using assms(2) ie 3(1, 2) q(2) by (auto intro: entry_ok_retry)
    then have "\<forall>d\<in>set ((queue h)[i := ?d]). entry_ok cfg d" using q(2) set_update_subset_insert by fastforce
    then show ?thesis unfolding 3(4) using q(1) serials by (intro handler_ok_queue [OF assms(1)]) simp_all
  qed
  then show ?thesis by (simp add: ie)
qed

lemma handler_ok_scan:
  assumes "handler_ok cfg h" and "scan_queue now 0 (queue h) = (q, ready)"
  shows "handler_ok cfg (h\<lparr>queue := q\<rparr>) \<and> (\<forall>ie\<in>set ready. entry_ok cfg (snd ie))"
proof -
  have s: "mset q \<subseteq># mset (queue h)" "snd ` set ready \<subseteq> set (queue h)" using scan_queue_subset [OF assms(2)] by simp_all
  have "set q \<subseteq> set (queue h)" using set_mset_mono [OF s(1)] by (simp only: set_mset_mset)
  then show ?thesis
    using assms(1) s sub_mset_distinct [OF s(1), of re_serial]
    by (auto simp: handler_ok_def image_iff subset_iff)
qed

lemma handler_ok_calls:
  assumes "handler_ok cfg h"
  shows "handler_ok cfg (add_transport now s addr h)" "handler_ok cfg (snd (kick_transport s h))"
    "handler_ok cfg (snd (transport_unref s h))" "handler_ok cfg (clear_queue h)"
proof -
  have h: "config h = cfg" "distinct (map re_serial (queue h))" "\<forall>e\<in>set (queue h). entry_ok cfg e"
      "\<forall>s\<in>set (map re_serial (queue h)). hm_contains (ref_counts h) s"
    using assms by (auto simp: handler_ok_def)
  have ok: "handler_ok cfg h'" if "config h' = cfg" "distinct (map re_serial (queue h'))"
      "\<forall>e\<in>set (queue h'). entry_ok cfg e" "\<forall>s\<in>set (map re_serial (queue h')). hm_contains (ref_counts h') s" for h'
    using that by (auto simp: handler_ok_def)
  show "handler_ok cfg (add_transport now s addr h)"
  proof (cases "queued s (queue h)")
    case True
    then show ?thesis
      using h by (intro ok) (auto simp: add_transport_def update_first_map hm_contains_iff entry_ok_def dest!: update_first_in)
  next
    case False
    then show ?thesis
      using h by (intro ok) (auto simp: add_transport_def queued_def hm_contains_iff entry_ok_def)
  qed
  show "handler_ok cfg (snd (kick_transport s h))"
    using h by (intro ok) (auto simp: kick_transport_def update_first_map entry_ok_def dest!: update_first_in)
  show "handler_ok cfg (snd (transport_unref s h))"
    using assms by (auto simp: handler_ok_def transport_unref_def Let_def drop_serial_def distinct_map_filter hm_contains_iff split: option.splits)
  show "handler_ok cfg (clear_queue h)"
    using assms by (simp add: handler_ok_def clear_queue_def)
qed

lemma reconnect_run_ok:
  "reconnect_run cfg h pending \<Longrightarrow> handler_ok cfg h \<and> (\<forall>ie\<in>set pending. entry_ok cfg (snd ie))"
proof (induction rule: reconnect_run.induct)
  case start
  then show ?case by (simp add: handler_ok_def with_config_def)
next
  case (scan h now q ready)
  then show ?case using handler_ok_scan by blast
next
  case (attempt h ie pending ok now)
  then have "config h = cfg" by (simp add: handler_ok_def)
  with attempt show ?case using handler_ok_try [of cfg h ie ok now] by simp
qed (simp_all add: handler_ok_calls)

text \<open>
  C14: The reconnect queue under all interleavings. However the calls of other threads fall between the collection of the
  entries that are due and the attempts, the queue holds at most one entry per transport, every entry belongs to a
  transport that somebody still references, and no entry has failed more often than the configuration allows.
\<close>

theorem reconnect_invariant:
  assumes "reconnect_run cfg h pending"
  shows "distinct (map re_serial (queue h)) \<and>
    (\<forall>e\<in>set (queue h). hm_contains (ref_counts h) (re_serial e) \<and> max_retries e = cfg_max_retries cfg \<and>
       (cfg_max_retries cfg > 0 \<longrightarrow> retry_count e \<le> cfg_max_retries cfg))"
  using reconnect_run_ok [OF assms] by (auto simp: handler_ok_def entry_ok_def)

theorem reconnect_invariant_witness:
  "reconnect_run ReconnectConfig_default (add_transport 0 (str ''a'') (V4 [], 1) (with_config ReconnectConfig_default)) [] \<and>
   map re_serial (queue (add_transport 0 (str ''a'') (V4 [], 1) (with_config ReconnectConfig_default))) = [str ''a''] \<and>
   distinct (map re_serial (queue (add_transport 0 (str ''a'') (V4 [], 1) (with_config ReconnectConfig_default))))"
proof -
  have run: "reconnect_run ReconnectConfig_default (add_transport 0 (str ''a'') (V4 [], 1) (with_config ReconnectConfig_default)) []"
    by (intro reconnect_run.add reconnect_run.start)
  from reconnect_invariant [OF run] run show ?thesis
    by (simp add: add_transport_def with_config_def queued_def)
qed

section \<open>Polls in which every connection fails\<close>

definition tries_left :: "ReconnectEntry \<Rightarrow> nat" where
  "tries_left e = unat (max_retries e) + 1 - unat (retry_count e)"

definition total_tries :: "ReconnectEntry list \<Rightarrow> nat" where
  "total_tries q = sum_list (map tries_left q)"

definition limited :: "ReconnectEntry list \<Rightarrow> bool" where
  "limited q \<longleftrightarrow>
     distinct (map re_serial q) \<and> (\<forall>e\<in>set q. max_retries e > 0 \<and> retry_count e \<le> max_retries e \<and> \<not> kicked e)"

definition current :: "(nat \<times> ReconnectEntry) list \<Rightarrow> ReconnectEntry list \<Rightarrow> bool" where
  "current ready q \<longleftrightarrow>
     distinct (map (re_serial \<circ> snd) ready) \<and> (\<forall>ie\<in>set ready. \<forall>d\<in>set q. re_serial d = re_serial (snd ie) \<longrightarrow> d = snd ie)"

lemma tries_left_pos: "limited q \<Longrightarrow> e \<in> set q \<Longrightarrow> 0 < tries_left e"
  by (auto simp: limited_def tries_left_def word_le_nat_alt less_Suc_eq_le)

lemma total_tries_filter: "total_tries (filter P q) \<le> total_tries q"
  by (induction q) (auto simp: total_tries_def)

lemma total_tries_filter_less: "limited q \<Longrightarrow> e \<in> set q \<Longrightarrow> \<not> P e \<Longrightarrow> total_tries (filter P q) < total_tries q"
proof -
  assume *: "limited q" "e \<in> set q" "\<not> P e"
  obtain us vs where q: "q = us @ e # vs" using *(2) by (auto dest: split_list)
  show ?thesis
    using tries_left_pos [OF *(1, 2)] *(3) total_tries_filter [of P us] total_tries_filter [of P vs]
    by (simp add: q total_tries_def)
qed

definition failed :: "ReconnectConfig \<Rightarrow> nat \<Rightarrow> ReconnectEntry \<Rightarrow> ReconnectEntry" where
  "failed cfg now e = e\<lparr>retry_count := retry_count e + 1, next_attempt := now + from_secs (next_delay cfg (retry_count e))\<rparr>"

lemma failed_simps [simp]:
  "re_serial (failed cfg now e) = re_serial e" "max_retries (failed cfg now e) = max_retries e" "kicked (failed cfg now e) = kicked e"
  by (simp_all add: failed_def)

lemma failed_tries:
  assumes "max_retries e > 0" and "\<not> gives_up e"
  shows "retry_count (failed cfg now e) \<le> max_retries e" and "tries_left (failed cfg now e) < tries_left e"
proof -
  have less: "retry_count e < max_retries e" using assms by (simp add: gives_up_def not_le)
  then show "retry_count (failed cfg now e) \<le> max_retries e" by (simp add: failed_def inc_le)
  have "unat (retry_count e + 1) = unat (retry_count e) + 1"
    using less unsigned_less [where 'a = nat, of "max_retries e"] by (simp add: word_less_nat_alt unat_word_ariths)
  then show "tries_left (failed cfg now e) < tries_left e"
    using less by (simp add: failed_def tries_left_def word_less_nat_alt)
qed

lemma try_failing:
  assumes "limited q" and "current ((i, e) # ready) q"
  shows "let q' = try_entry cfg False now (i, e) q in
    limited q' \<and> current ready q' \<and> total_tries q' \<le> total_tries q \<and>
    (i < length q \<and> q ! i = e \<longrightarrow> total_tries q' < total_tries q)"
proof (cases "gives_up e")
  case True
  then show ?thesis
    using assms total_tries_filter_less [OF assms(1), of e "\<lambda>d. re_serial d \<noteq> re_serial e"]
    by (auto simp: try_entry_def drop_serial_def limited_def current_def total_tries_filter distinct_map_filter)
next
  case give: False
  show ?thesis
  proof (cases "i < length q \<and> re_serial (q ! i) = re_serial e")
    case True
    then have i: "i < length q" "q ! i = e" using assms(2) by (auto simp: current_def)
    then have upd: "try_entry cfg False now (i, e) q = q[i := failed cfg now e]"
      using give by (simp add: try_entry_def failed_def)
    have e: "max_retries e > 0" using assms(1) i by (auto simp: limited_def)
    have map_eq: "map re_serial (q[i := failed cfg now e]) = map re_serial q"
      using i by (simp add: map_update list_update_same_conv)
    have set_le: "set (q[i := failed cfg now e]) \<subseteq> insert (failed cfg now e) (set q)" by (rule set_update_subset_insert)
    have "limited (q[i := failed cfg now e])"
      using assms(1) i failed_tries(1) [OF e give] set_le unfolding limited_def map_eq by fastforce
    moreover have "current ready (q[i := failed cfg now e])"
      using assms(2) set_le by (fastforce simp: current_def)
    moreover have "total_tries (q[i := failed cfg now e]) < total_tries q"
      using failed_tries(2) [OF e give, of cfg now] i elem_le_sum_list [of i "map tries_left q"]
      by (simp add: total_tries_def map_update sum_list_update)
    ultimately show ?thesis by (simp add: upd Let_def)
  next
    case False
    then have "try_entry cfg False now (i, e) q = q" using give by (auto simp: try_entry_def)
    then show ?thesis using assms False by (auto simp: current_def)
  qed
qed

lemma fold_failing:
  "limited q \<Longrightarrow> current ready q \<Longrightarrow>
   limited (fold (\<lambda>ie. try_entry cfg False (t ie) ie) ready q) \<and>
   total_tries (fold (\<lambda>ie. try_entry cfg False (t ie) ie) ready q) \<le> total_tries q"
proof (induction ready arbitrary: q)
  case (Cons ie ready)
  obtain i e where ie: "ie = (i, e)" by (cases ie)
  show ?case
    using try_failing [of q i e ready cfg "t ie"] Cons.IH [of "try_entry cfg False (t ie) ie q"] Cons.prems
    by (auto simp: ie Let_def)
qed simp

lemma current_enumerate:
  assumes "distinct (map re_serial q)"
  shows "current (List.enumerate i q) q"
proof -
  have serials: "map (re_serial \<circ> snd) (List.enumerate i q) = map re_serial q"
    by (metis map_map map_snd_enumerate)
  have "snd ie \<in> set q" if "ie \<in> set (List.enumerate i q)" for ie
    using that by (metis image_eqI list.set_map map_snd_enumerate)
  then show ?thesis
    using assms unfolding current_def serials distinct_map by (auto dest: inj_onD)
qed

lemma poll_failing:
  assumes "limited (queue h)" and "\<forall>e\<in>set (queue h). next_attempt e \<le> now" and "\<forall>s. \<not> fst (outcome s)"
  shows "limited (queue (poll_reconnect_queue now outcome h)) \<and>
    (queue h \<noteq> [] \<longrightarrow> total_tries (queue (poll_reconnect_queue now outcome h)) < total_tries (queue h))"
proof -
  let ?t = "\<lambda>ie :: nat \<times> ReconnectEntry. snd (outcome (re_serial (snd ie)))"
  have scan: "scan_queue now 0 (queue h) = (queue h, List.enumerate 0 (queue h))"
    using assms(1, 2) scan_queue_all_due [of 0 "queue h" now] by (simp add: limited_def)
  have poll: "queue (poll_reconnect_queue now outcome h) =
      fold (\<lambda>ie. try_entry (config h) False (?t ie) ie) (List.enumerate 0 (queue h)) (queue h)"
    using assms(3) by (simp add: poll_reconnect_queue_def scan)
  show ?thesis
  proof (cases "queue h")
    case (Cons e q)
    have cur: "current ((0, e) # List.enumerate 1 q) (queue h)"
      using current_enumerate [of "queue h" 0] assms(1) Cons by (simp add: limited_def)
    let ?q = "try_entry (config h) False (?t (0, e)) (0, e) (queue h)"
    have "limited ?q" "current (List.enumerate 1 q) ?q" "total_tries ?q < total_tries (queue h)"
      using try_failing [OF assms(1) cur, of "config h" "?t (0, e)"] Cons by (simp_all add: Let_def)
    then show ?thesis
      using fold_failing [of ?q "List.enumerate 1 q" "config h" ?t] by (simp add: poll Cons)
  qed (simp add: poll limited_def)
qed

text \<open>Polls that come when every entry is due again, and in which no connection comes about.\<close>

fun failing_polls :: "(nat \<times> (rstr \<Rightarrow> bool \<times> nat)) list \<Rightarrow> ReconnectHandler \<Rightarrow> bool" where
  "failing_polls [] h \<longleftrightarrow> True"
| "failing_polls ((now, outcome) # ps) h \<longleftrightarrow>
     (\<forall>e\<in>set (queue h). next_attempt e \<le> now) \<and> (\<forall>s. \<not> fst (outcome s)) \<and> failing_polls ps (poll_reconnect_queue now outcome h)"

definition poll_all :: "(nat \<times> (rstr \<Rightarrow> bool \<times> nat)) list \<Rightarrow> ReconnectHandler \<Rightarrow> ReconnectHandler" where
  "poll_all ps h = fold (\<lambda>(now, outcome). poll_reconnect_queue now outcome) ps h"


definition sample_handler :: ReconnectHandler where
  "sample_handler =
     \<lparr>queue = [\<lparr>re_serial = str ''a'', re_addr = (V4 [], 1), retry_count = 0, max_retries = 1, next_attempt = 0, kicked = False\<rparr>],
      ref_counts = [(str ''a'', 1)], config = ReconnectConfig_default\<lparr>cfg_max_retries := 1\<rparr>\<rparr>"


section \<open>Polls in which one connection comes about\<close>

lemma fold_shifted:
  assumes "distinct (map re_serial q)" and "set r \<subseteq> set (List.enumerate 1 q)" and "\<forall>e\<in>set q. \<not> gives_up e"
  shows "fold (\<lambda>ie. try_entry cfg False (t ie) ie) r q = q"
  using assms(2)
proof (induction r)
  case (Cons ie r)
  obtain i e where ie: "ie = (i, e)" by (cases ie)
  have k: "i - 1 < length q" "e = q ! (i - 1)" "i = Suc (i - 1)"
    using Cons.prems ie by (auto simp: in_set_enumerate_eq)
  have "\<not> (i < length q \<and> re_serial (q ! i) = re_serial e)"
    using assms(1) k by (auto simp: distinct_conv_nth)
  moreover have "\<not> gives_up e" using assms(3) k by simp
  ultimately have "try_entry cfg False (t ie) ie q = q" by (auto simp: ie try_entry_def)
  then show ?case using Cons by simp
qed simp

text \<open>
  C36: Failed attempts that are forgotten. The index of an entry is remembered from before the attempts, and an entry that
  is removed moves those behind it. When the first of the entries that are due is connected and the connections to all
  the others fail, none of these failures is counted and none of them puts the next attempt off.
\<close>

theorem reconnect_backoff_lost:
  assumes "queue h = e # q" and "distinct (map re_serial (e # q))"
    and "\<forall>d\<in>set (e # q). \<not> kicked d \<and> next_attempt d \<le> now \<and> \<not> gives_up d"
    and "fst (outcome (re_serial e))" and "\<forall>d\<in>set q. \<not> fst (outcome (re_serial d))"
  shows "queue (poll_reconnect_queue now outcome h) = q"
proof -
  let ?t = "\<lambda>ie :: nat \<times> ReconnectEntry. snd (outcome (re_serial (snd ie)))"
  have scan: "scan_queue now 0 (e # q) = (e # q, (0, e) # List.enumerate 1 q)"
    using scan_queue_all_due [of 0 "e # q" now] assms(3) by simp
  have drop: "drop_serial (re_serial e) (e # q) = q"
    using assms(2) by (auto simp: drop_serial_def image_iff intro!: filter_True)
  have "snd ie \<in> set q" if "ie \<in> set (List.enumerate 1 q)" for ie
    using that by (metis image_eqI list.set_map map_snd_enumerate)
  then have "fold (\<lambda>ie. try_entry (config h) (fst (outcome (re_serial (snd ie)))) (?t ie) ie) (List.enumerate 1 q) q =
      fold (\<lambda>ie. try_entry (config h) False (?t ie) ie) (List.enumerate 1 q) q"
    using assms(5) by (intro fold_cong) auto
  also have "\<dots> = q" using assms(2, 3) by (intro fold_shifted) auto
  finally show ?thesis using assms(1, 4) by (simp add: poll_reconnect_queue_def scan try_entry_def drop)
qed

theorem reconnect_backoff_lost_witness:
  "let b = \<lparr>re_serial = str ''b'', re_addr = (V4 [], 2), retry_count = 0, max_retries = 5, next_attempt = 0, kicked = False\<rparr>;
       h = sample_handler\<lparr>queue := queue sample_handler @ [b]\<rparr>
   in queue (poll_reconnect_queue 7 (\<lambda>s. (s = str ''a'', 7)) h) = [b]"
  unfolding Let_def
  by (rule reconnect_backoff_lost [where e = "hd (queue sample_handler)"])
    (simp_all add: sample_handler_def gives_up_def str_def)

end
