(* ===== verification/Spec2Isabelle.thy ===== *)
theory Spec2Isabelle
  imports Adb_Header Shell_V2 Adb_Sync Sparse_Split Fastboot_Udp Boot_Image Zero_Config Vendor_Boot APacket_Reader IO_Vector
    Incremental_Local Incremental_Requests Aidl_Expression Aidl_Lexing Aidl_Types Server_Invariant Reconnect
begin

text \<open>
  A verification development for the Rust implementation of \<open>adb\<close> and \<open>fastboot\<close> in \<open>src/crates\<close>.

  \<^bold>\<open>The program.\<close> The crate \<open>adb-protocol\<close> holds the messages between a host and a device: the header of a message,
  the framing over a byte stream, the shell and the file synchronisation protocols inside it. The crate
  \<open>fastboot-protocol\<close> holds the commands and responses of a boot loader, its TCP and UDP transports, and the images that
  are flashed: sparse, boot and vendor boot images. The crate \<open>adb-mdns\<close> resolves the services of devices on the local
  network. \<open>adb-fastboot-cli\<close> has the command lines, the clients, among them the server side of an incremental
  installation, and the adb server that multiplexes devices. \<open>aidl-rs\<close> compiles interface definitions to Rust.

  \<^bold>\<open>How the code is modelled.\<close> One definition per function, in the order of the source, with its guards, its early
  returns and its errors. A call returns \<open>Ok\<close>, returns \<open>Err\<close> or panics (type \<open>outcome\<close>), and the \<open>?\<close> operator is
  \<open>and_then\<close>; indexing and slicing out of range panic, so that the absence of panics is a theorem. A \<open>struct\<close> is a record,
  an \<open>enum\<close> a datatype, a machine integer a word of its width, a \<open>usize\<close> a natural number, a string the list of its
  UTF-8 bytes. A method with \<open>&mut self\<close> takes the record and returns it. A loop is a recursive function with a
  termination proof; the loops of the resolver and of the UDP transport that may run for
  ever are partial functions, whose value \<open>None\<close> means that they do not return. The retransmissions of a datagram are
  bounded by the constant of the source, and nothing else counts steps. Code outside the repository is an argument: byte order conversion (record
  \<open>byteorder\<close>), compression libraries (record \<open>codecs\<close> and the LZ4 function of the incremental server), conversion of
  floating point literals (record \<open>float_text\<close>), files, sockets, clocks and the USB bus. What a theorem needs of them is
  a named hypothesis or a locale, and a witness shows that it can hold.

  \<^bold>\<open>The shared part.\<close>
  \<^item> \<open>Rust_Prelude\<close>: outcomes, slices, integers, \<open>to_le_bytes\<close> and its kin. \<open>Byteorder\<close>: the crate of that name as the locale
    \<open>little_endian\<close>, interpreted on the functions of the standard library.
  \<^item> \<open>Rust_Str\<close>: UTF-8, splitting, trimming, numbers as text. \<open>Rust_Io\<close>: byte streams as scripts of segments and
    failures, \<open>read_exact\<close>. \<open>Rust_Collections\<close>: hash maps and sets as lists. \<open>Rust_Float\<close>: the floating point
    computations of the resolver on rational numbers, each rounded to 53 bits.

  \<^bold>\<open>Protocols of adb.\<close>
  \<^item> \<open>Adb_Header\<close> (\<open>adb-protocol/src/header.rs\<close>, \<open>constants.rs\<close>, \<open>transport.rs\<close>): exactly the valid headers decode, and any
    sequence of messages that is sent arrives unchanged however the stream is cut.
  \<^item> \<open>Shell_V2\<close> (\<open>shell_v2.rs\<close>): packets survive encoding, prefixes report what is missing.
  \<^item> \<open>Compress\<close> and \<open>Adb_Sync\<close> (\<open>compress.rs\<close>, \<open>sync.rs\<close>): requests, stat and directory entries, compressed data frames.

  \<^bold>\<open>Protocols and images of fastboot.\<close>
  \<^item> \<open>Fastboot_Command\<close> (\<open>command.rs\<close>, \<open>response.rs\<close>, \<open>slot.rs\<close>, \<open>image.rs\<close>) and \<open>Fastboot_Stream\<close> (\<open>transport.rs\<close>): length-prefixed
    responses are received intact from any segmentation, the handshake loses no byte.
  \<^item> \<open>Fastboot_Udp\<close> (\<open>udp.rs\<close>): over a network that loses and repeats datagrams, a write reaches the device exactly once
    or is reported as an error.
  \<^item> \<open>Sparse\<close> and \<open>Sparse_Split\<close> (\<open>sparse.rs\<close>): the parser is total and accepts only well-formed files; splitting cuts an
    image into pieces that fit, are well formed and together write the same data.
  \<^item> \<open>Boot_Image\<close> and \<open>Vendor_Boot\<close> (\<open>boot_image.rs\<close>, \<open>vendor_boot.rs\<close>): built images are parsed back; the inputs on which
    the parser of boot images panics are given exactly, the one of vendor boot images never does.

  \<^bold>\<open>The resolver of adb-mdns.\<close>
  \<^item> \<open>Index_Min_Pq\<close> (\<open>index_min_pq.rs\<close>) refines a map with extraction of a least element; its contract is the locale
    \<open>attention_queue\<close>, which \<open>Mdns_Store\<close> (\<open>rr.rs\<close>, \<open>store.rs\<close>) interprets on the queue of records.
  \<^item> \<open>Zero_Config\<close> (\<open>zero_config.rs\<close>): the invariant of every reachable state, that a tick returns and when it does not,
    that its commands report exactly the changes, and the bounds of its waiting time.

  \<^bold>\<open>The adb server.\<close>
  \<^item> \<open>APacket_Reader\<close> (\<open>server/apacket_reader.rs\<close>) and \<open>IO_Vector\<close> (\<open>server/types.rs\<close>): reassembly of packets does not depend
    on the blocks they arrive in; the block buffer is a queue of bytes.
  \<^item> \<open>Server_Registry\<close> (\<open>server/models.rs\<close>, \<open>server/transport.rs\<close>) has the devices and their life cycle, \<open>Server_Forward\<close>
    (\<open>server/forward.rs\<close>) the forward and reverse rules and their host services. \<open>Server_Invariant\<close> shows that every
    sequence of requests keeps names and ids unique and the running listeners in step with the table, that the events
    replay to the registry, and that a TCP forward can not be replaced.
  \<^item> \<open>Reconnect\<close> (\<open>ReconnectHandler\<close> in \<open>server/transport.rs\<close>): the queue and its polling thread as an inductive relation
    over the interleavings with other threads; its invariant, that it gives up, and the failures it forgets.

  \<^bold>\<open>Incremental installation\<close> (\<open>client/incremental\<close>).
  \<^item> \<open>Incremental_Utils\<close> and \<open>Incremental_Server\<close> model the sizes, signatures and the protocol core; the relation \<open>session\<close>
    of \<open>Incremental_Stream\<close> is every schedule of requests, failures and shipping. The locale \<open>serve_invariant\<close> has the
    induction over it and is interpreted on the soundness of the stream.
  \<^item> \<open>Incremental_Liveness\<close>, \<open>Incremental_Requests\<close> and \<open>Incremental_Local\<close>: a session completes, finds every request
    whatever the fragmentation, and delivers the files of the file system.

  \<^bold>\<open>The AIDL compiler\<close> (\<open>aidl-rs\<close>).
  \<^item> \<open>Aidl_Ast\<close>, \<open>Aidl_Lexer\<close>, \<open>Aidl_Parser\<close> and \<open>Aidl_Generator\<close> model \<open>ast.rs\<close>, \<open>parser.rs\<close> and \<open>generator.rs\<close>; the parser
    terminates because what it leaves weighs less (collection \<open>consumes\<close>).
  \<^item> \<open>Aidl_Lexing\<close>: printing and lexing. \<open>Aidl_Expression\<close>: the precedence parser reads exactly the grammar of
    expressions. \<open>Aidl_Types\<close>: the types of accepted files are well formed and printed as the Rust types they denote.

  \<^bold>\<open>Bounds.\<close> The transport ids of the registry are 64-bit words; its invariant is stated for runs that register fewer
  than $2^{64}$ devices. Integer literals of AIDL are below $2^{63}$. Lengths of buffers are natural numbers, with the
  64-bit limit written out where the source computes with \<open>checked_add\<close>.

  \<^bold>\<open>Not modelled.\<close> The command lines and most clients (\<open>main_adb.rs\<close>, \<open>main_fastboot.rs\<close>, \<open>client\<close>) sequence system calls:
  sockets, files, terminals, child processes. Authentication, pairing and TLS call cryptographic libraries. The USB
  transports are \<open>ioctl\<close>s. Of the server, the dispatch of services, the relaying of connections and the event loop are
  threads around the parts above. Pure code that is not covered yet is in \<open>server/adb_mdns.rs\<close> and \<open>client/mdns.rs\<close> (DNS
  packets), \<open>server/socket_spec.rs\<close>, \<open>stls.rs\<close> and \<open>features.rs\<close>. Native stack depth, allocation failure and poisoned
  locks are left out everywhere.
\<close>

end
